(* ===== verification/Zork_Prelude.thy ===== *)
theory Zork_Prelude
  imports Complex_Main "HOL-Library.AList" "HOL-Library.Sublist"
begin

text \<open>
  Shared vocabulary of the development.

  \<^item> Python strings. A \<open>str\<close> is a list of code points; here a \<open>char\<close> stands for one
    code point of the range U+0000 .. U+00FF (Latin-1). The predicates below (\<open>is_space\<close>,
    \<open>is_upper\<close>, \<open>char_lower\<close>) are exactly the behaviour of \<open>str.isspace\<close>,
    \<open>str.isupper\<close> and \<open>str.lower\<close> on that range, where lowering never changes the number of
    code points. \<open>length\<close> therefore counts what Python's \<open>len\<close> counts.
  \<^item> Python integers are \<open>int\<close> (or \<open>nat\<close> where a length is meant); clock readings
    (\<open>time.monotonic()\<close>, \<open>time.time()\<close>) are \<open>real\<close>: the rounding of floats is not
    modelled.
  \<^item> A \<open>dict\<close> is an association list in insertion order (\<open>AList.update\<close> overwrites in
    place or appends, as Python does); a \<open>deque(maxlen=n)\<close> is a list to which
    \<open>ring_append\<close> adds at the right end.
\<close>

named_theorems py_str \<open>unfolding rules for the Python string operations\<close>
named_theorems dict_simps \<open>lookups after dictionary updates\<close>

section \<open>Characters\<close>

definition code :: "char \<Rightarrow> nat" where
  "code c = of_char c"

definition is_space :: "char \<Rightarrow> bool" where
  "is_space c \<longleftrightarrow>
     (let n = code c in (9 \<le> n \<and> n \<le> 13) \<or> (28 \<le> n \<and> n \<le> 32) \<or> n = 133 \<or> n = 160)"

definition is_upper :: "char \<Rightarrow> bool" where
  "is_upper c \<longleftrightarrow>
     (let n = code c in (65 \<le> n \<and> n \<le> 90) \<or> (192 \<le> n \<and> n \<le> 222 \<and> n \<noteq> 215))"

definition char_lower :: "char \<Rightarrow> char" where
  "char_lower c = (if is_upper c then char_of (code c + 32) else c)"

definition is_digit :: "char \<Rightarrow> bool" where
  "is_digit c \<longleftrightarrow> 48 \<le> code c \<and> code c \<le> 57"

section \<open>String operations\<close>

definition lower :: "string \<Rightarrow> string" where
  "lower s = map char_lower s"

definition lstrip_by :: "(char \<Rightarrow> bool) \<Rightarrow> string \<Rightarrow> string" where
  "lstrip_by p s = dropWhile p s"

definition strip_by :: "(char \<Rightarrow> bool) \<Rightarrow> string \<Rightarrow> string" where
  "strip_by p s = rev (dropWhile p (rev (dropWhile p s)))"

definition strip :: "string \<Rightarrow> string" where
  "strip s = strip_by is_space s"

definition startswith :: "string \<Rightarrow> string \<Rightarrow> bool" where
  "startswith s p \<longleftrightarrow> take (length p) s = p"

definition endswith :: "string \<Rightarrow> string \<Rightarrow> bool" where
  "endswith s p \<longleftrightarrow> length p \<le> length s \<and> drop (length s - length p) s = p"

text \<open>\<open>str.split()\<close>: the maximal runs of characters that are not whitespace.\<close>

primrec split_go :: "string \<Rightarrow> string \<Rightarrow> string list" where
  "split_go cur [] = (if cur = [] then [] else [cur])"
| "split_go cur (c # cs) =
     (if is_space c then (if cur = [] then split_go [] cs else cur # split_go [] cs)
      else split_go (cur @ [c]) cs)"

definition split_ws :: "string \<Rightarrow> string list" where
  "split_ws s = split_go [] s"

text \<open>\<open>str.split(c)\<close> for a one-character separator.\<close>

primrec split_on :: "char \<Rightarrow> string \<Rightarrow> string list" where
  "split_on sep [] = [[]]"
| "split_on sep (c # cs) =
     (if c = sep then [] # split_on sep cs
      else (case split_on sep cs of [] \<Rightarrow> [[c]] | w # ws \<Rightarrow> (c # w) # ws))"

text \<open>\<open>str.partition(c)\<close>: the part before, whether the separator was found, the part after.\<close>

definition partition_on :: "char \<Rightarrow> string \<Rightarrow> string \<times> bool \<times> string" where
  "partition_on sep s =
     (let before = takeWhile (\<lambda>c. c \<noteq> sep) s in (before, sep \<in> set s, drop (Suc (length before)) s))"

text \<open>\<open>sep.join(xs)\<close>.\<close>

fun join :: "string \<Rightarrow> string list \<Rightarrow> string" where
  "join sep [] = []"
| "join sep [x] = x"
| "join sep (x # y # ys) = x @ sep @ join sep (y # ys)"

text \<open>Substring test \<open>needle in s\<close>.\<close>

definition contains :: "string \<Rightarrow> string \<Rightarrow> bool" where
  "contains s needle \<longleftrightarrow> (\<exists>i \<in> set [0..<Suc (length s)]. startswith (drop i s) needle)"

section \<open>Numbers as text\<close>

definition digit_char :: "nat \<Rightarrow> char" where
  "digit_char d = char_of (48 + d)"

fun str_nat :: "nat \<Rightarrow> string" where
  "str_nat n = (if n < 10 then [digit_char n] else str_nat (n div 10) @ [digit_char (n mod 10)])"

declare str_nat.simps [simp del]

definition str_int :: "int \<Rightarrow> string" where
  "str_int i = (if i < 0 then CHR ''-'' # str_nat (nat (- i)) else str_nat (nat i))"

text \<open>
  \<open>int(s)\<close> for a string: surrounding whitespace, an optional sign, then decimal digits with
  single underscores between digits; at most 4300 digits (CPython's conversion limit).
  \<open>None\<close> is \<open>ValueError\<close>.
\<close>

fun digits_go :: "bool \<Rightarrow> string \<Rightarrow> string option" where
  "digits_go prev [] = (if prev then Some [] else None)"
| "digits_go prev (c # cs) =
     (if is_digit c then map_option ((#) c) (digits_go True cs)
      else if c = CHR ''_'' \<and> prev then digits_go False cs
      else None)"

definition digits_value :: "string \<Rightarrow> nat" where
  "digits_value ds = foldl (\<lambda>n c. 10 * n + (code c - 48)) 0 ds"

definition parse_nat :: "string \<Rightarrow> nat option" where
  "parse_nat s =
     (case digits_go False s of
        None \<Rightarrow> None
      | Some ds \<Rightarrow> if 4300 < length ds then None else Some (digits_value ds))"

definition parse_int :: "string \<Rightarrow> int option" where
  "parse_int s =
     (case strip s of
        [] \<Rightarrow> None
      | c # cs \<Rightarrow>
          if c = CHR ''-'' then map_option (\<lambda>n. - int n) (parse_nat cs)
          else if c = CHR ''+'' then map_option int (parse_nat cs)
          else map_option int (parse_nat (c # cs)))"

text \<open>\<open>repr(s)\<close> (the \<open>!r\<close> conversion of an f-string) on Latin-1.\<close>

definition hex_digit :: "nat \<Rightarrow> char" where
  "hex_digit d = (if d < 10 then char_of (48 + d) else char_of (87 + d))"

definition is_printable :: "char \<Rightarrow> bool" where
  "is_printable c \<longleftrightarrow>
     (let n = code c in (32 \<le> n \<and> n \<le> 126) \<or> (161 \<le> n \<and> n \<noteq> 173))"

definition repr_char :: "char \<Rightarrow> char \<Rightarrow> string" where
  "repr_char quote c =
     (if c = quote \<or> c = CHR 0x5C then [CHR 0x5C, c]
      else if c = CHR 0x09 then [CHR 0x5C, CHR ''t'']
      else if c = CHR 0x0A then [CHR 0x5C, CHR ''n'']
      else if c = CHR 0x0D then [CHR 0x5C, CHR ''r'']
      else if is_printable c then [c]
      else [CHR 0x5C, CHR ''x'', hex_digit (code c div 16), hex_digit (code c mod 16)])"

definition py_repr :: "string \<Rightarrow> string" where
  "py_repr s =
     (let quote = (if CHR 0x27 \<in> set s \<and> CHR 0x22 \<notin> set s then CHR 0x22 else CHR 0x27)
      in [quote] @ concat (map (repr_char quote) s) @ [quote])"

text \<open>\<open>int(x)\<close> for a float: truncation towards zero.\<close>

definition trunc :: "real \<Rightarrow> int" where
  "trunc x = (if 0 \<le> x then \<lfloor>x\<rfloor> else \<lceil>x\<rceil>)"

section \<open>Optional strings\<close>

text \<open>Python truthiness of a \<open>str | None\<close>, and \<open>x or default\<close>.\<close>

definition truthy :: "string option \<Rightarrow> bool" where
  "truthy x \<longleftrightarrow> (case x of None \<Rightarrow> False | Some s \<Rightarrow> s \<noteq> [])"

definition or_else :: "string option \<Rightarrow> string \<Rightarrow> string" where
  "or_else x d = (case x of None \<Rightarrow> d | Some s \<Rightarrow> if s = [] then d else s)"

section \<open>Bounded rings\<close>

text \<open>\<open>deque(maxlen=n).append(x)\<close>: the oldest entry falls out on the left when full.\<close>

definition ring_append :: "nat \<Rightarrow> 'a \<Rightarrow> 'a list \<Rightarrow> 'a list" where
  "ring_append n x xs = (let ys = xs @ [x] in drop (length ys - n) ys)"

section \<open>Facts about dictionaries\<close>

lemma map_of_alist_update [dict_simps]: "map_of (AList.update k v al) = (map_of al)(k \<mapsto> v)"
  by (rule AList.update_conv')

lemma map_of_alist_delete [dict_simps]: "map_of (AList.delete k al) = (map_of al)(k := None)"
  by (rule AList.delete_conv')

lemma map_of_fold_delete [dict_simps]:
  "map_of (fold AList.delete ks al) = (\<lambda>k. if k \<in> set ks then None else map_of al k)"
  by (induction ks arbitrary: al) (auto simp: AList.delete_conv' fun_eq_iff)

lemma distinct_fold_delete: "distinct (map fst al) \<Longrightarrow> distinct (map fst (fold AList.delete ks al))"
  by (induction ks arbitrary: al) (auto simp: AList.distinct_delete)

lemmas distinct_dict = AList.distinct_update AList.distinct_delete distinct_fold_delete

section \<open>Facts about the string operations\<close>

lemma startswith_append [simp]: "startswith (p @ s) p"
  by (simp add: startswith_def)

lemma startswith_iff_prefix: "startswith s p \<longleftrightarrow> prefix p s"
  unfolding startswith_def prefix_def by (metis append_eq_conv_conj append_take_drop_id)

lemma length_lower [simp]: "length (lower s) = length s"
  by (simp add: lower_def)

lemma lower_append [simp]: "lower (s @ t) = lower s @ lower t"
  by (simp add: lower_def)

lemma length_strip_by: "length (strip_by p s) \<le> length s"
  unfolding strip_by_def by (metis length_dropWhile_le length_rev order_trans)

lemma length_strip: "length (strip s) \<le> length s"
  by (simp add: strip_def length_strip_by)

lemma dropWhile_nonempty: "dropWhile p xs = x # ys \<Longrightarrow> \<not> p x"
  using hd_dropWhile [of p xs] by force

lemma dropWhile_all_iff: "(\<forall>c \<in> set (dropWhile p s). p c) \<longleftrightarrow> (\<forall>c \<in> set s. p c)"
  by (induction s) auto

lemma strip_by_eq_Nil: "strip_by p s = [] \<longleftrightarrow> (\<forall>c \<in> set s. p c)"
  by (simp add: strip_by_def dropWhile_eq_Nil_conv dropWhile_all_iff)

lemma strip_eq_Nil: "strip s = [] \<longleftrightarrow> (\<forall>c \<in> set s. is_space c)"
  by (simp add: strip_def strip_by_eq_Nil)

lemma dropWhile_rev_prefix: "\<exists>t. s = rev (dropWhile p (rev s)) @ t"
proof -
  have "rev s = takeWhile p (rev s) @ dropWhile p (rev s)" by simp
  then have "s = rev (dropWhile p (rev s)) @ rev (takeWhile p (rev s))"
    by (metis rev_append rev_rev_ident)
  then show ?thesis by blast
qed

lemma set_strip_subset: "set (strip s) \<subseteq> set s"
  unfolding strip_def strip_by_def by (metis set_dropWhileD set_rev subsetI)

lemma strip_by_hd: "strip_by p s = c # cs \<Longrightarrow> \<not> p c"
proof -
  assume eq: "strip_by p s = c # cs"
  let ?d = "dropWhile p s"
  obtain t where "?d = strip_by p s @ t"
    unfolding strip_by_def using dropWhile_rev_prefix [of ?d p] by blast
  with eq have "?d = c # cs @ t" by simp
  then show "\<not> p c" by (rule dropWhile_nonempty)
qed

lemma strip_by_last: "strip_by p s \<noteq> [] \<Longrightarrow> \<not> p (last (strip_by p s))"
  unfolding strip_by_def by (simp add: last_rev hd_dropWhile)

lemma strip_by_id: "s = [] \<or> (\<not> p (hd s) \<and> \<not> p (last s)) \<Longrightarrow> strip_by p s = s"
  unfolding strip_by_def by (metis dropWhile_eq_self_iff hd_rev rev_is_Nil_conv rev_rev_ident)

lemma strip_strip [simp]: "strip (strip s) = strip s"
proof (cases "strip s")
  case Nil
  then show ?thesis unfolding Nil by (simp add: strip_def strip_by_def)
next
  case (Cons c cs)
  then have "\<not> is_space (hd (strip s))" "\<not> is_space (last (strip s))"
    using strip_by_hd [of is_space s c cs] strip_by_last [of is_space s] by (auto simp: strip_def)
  then show ?thesis unfolding strip_def by (intro strip_by_id) simp
qed

section \<open>Facts about bounded rings\<close>

definition last_n :: "nat \<Rightarrow> 'a list \<Rightarrow> 'a list" where
  "last_n n xs = drop (length xs - n) xs"

lemma ring_append_last_n: "ring_append n x xs = last_n n (xs @ [x])"
  by (simp add: ring_append_def last_n_def Let_def)

lemma length_last_n [simp]: "length (last_n n xs) = min n (length xs)"
  by (simp add: last_n_def)

lemma last_n_short [simp]: "length xs \<le> n \<Longrightarrow> last_n n xs = xs"
  by (simp add: last_n_def)

lemma last_n_0 [simp]: "last_n 0 xs = []"
  by (simp add: last_n_def)

lemma last_n_last_n_append: "last_n n (last_n n xs @ ys) = last_n n (xs @ ys)"
proof (cases "length xs \<le> n")
  case False
  then have "length (xs @ ys) - n = (length xs - n) + length ys" by simp
  then show ?thesis
    using False by (simp add: last_n_def add.commute)
qed simp

lemma set_last_n: "set (last_n n xs) \<subseteq> set xs"
  by (simp add: last_n_def set_drop_subset)

lemma suffix_last_n: "suffix (last_n n xs) xs"
  by (simp add: last_n_def suffix_drop)

text \<open>
  The contract of a bounded log: a step contributes at most one entry (\<open>entry\<close>) to a view of
  the state, which keeps the newest \<open>cap\<close> entries. A client then knows the view after any
  run: it is the tail of the history.
\<close>

locale bounded_log =
  fixes step :: "'op \<Rightarrow> 's \<Rightarrow> 's"
    and view :: "'s \<Rightarrow> 'a list"
    and entry :: "'op \<Rightarrow> 'a option"
    and cap :: nat
    and good :: "'s \<Rightarrow> bool"
  assumes step_good: "good s \<Longrightarrow> good (step op s)"
    and step_view: "good s \<Longrightarrow> view (step op s) =
      (case entry op of None \<Rightarrow> view s | Some x \<Rightarrow> ring_append cap x (view s))"
begin

lemma run_good: "good s \<Longrightarrow> good (fold step ops s)"
  by (induction ops arbitrary: s) (simp_all add: step_good)

lemma run_view:
  "good s \<Longrightarrow> length (view s) \<le> cap \<Longrightarrow>
    view (fold step ops s) = last_n cap (view s @ List.map_filter entry ops)"
proof (induction ops arbitrary: s)
  case (Cons op ops)
  have "length (view (step op s)) \<le> cap"
    using Cons.prems by (simp add: step_view ring_append_last_n split: option.split)
  then have "view (fold step (op # ops) s) = last_n cap (view (step op s) @ List.map_filter entry ops)"
    using Cons by (simp add: step_good)
  also have "\<dots> = last_n cap (view s @ List.map_filter entry (op # ops))"
    using Cons.prems(1)
    by (simp add: step_view ring_append_last_n last_n_last_n_append map_filter_simps split: option.split)
  finally show ?case .
qed (simp add: map_filter_simps)

end

end
