(* ===== verification/Packetize.thy ===== *)
theory Packetize
  imports Zork_Prelude
begin

text \<open>
  The word-boundary packetizer, \<^verbatim>\<open>src/zorkbot/src/zorkbot/packetize.py\<close>.

  The regular expressions are given as matchers at a position (\<open>ansi_match\<close>,
  \<open>osc_match\<close>), and \<open>re_sub\<close> is the left-to-right scan of \<open>re.sub\<close>.
  \<open>pack_words\<close> is the greedy packer, \<open>budget_loop\<close> the \<open>while True\<close> loop of
  \<open>_pack_with_sequence_budget\<close> that repacks until the number of chunks agrees with the
  width of the markers reserved for it. The loop is a \<^theory_text>\<open>function\<close> whose termination
  rests on the locale \<open>packer\<close>: a packer that needs no more chunks when it gets more room.
\<close>

section \<open>Escape sequences and line preparation\<close>

definition DEFAULT_MAX_CHARS :: int where
  "DEFAULT_MAX_CHARS = 120"

definition in_range :: "nat \<Rightarrow> nat \<Rightarrow> char \<Rightarrow> bool" where
  "in_range lo hi c \<longleftrightarrow> lo \<le> code c \<and> code c \<le> hi"

definition csi_param :: "char \<Rightarrow> bool" where
  "csi_param c \<longleftrightarrow> is_digit c \<or> c = CHR '';'' \<or> c = CHR ''?''"

text \<open>\<open>_ANSI_ESCAPE\<close>: the three character classes are disjoint, so the match is determined.\<close>

definition ansi_match :: "string \<Rightarrow> nat option" where
  "ansi_match s =
     (if startswith s [CHR 0x1B, CHR ''[''] then
        (let a = dropWhile csi_param (drop 2 s);
             b = dropWhile (in_range 0x20 0x2F) a
         in case b of
              [] \<Rightarrow> None
            | c # rest \<Rightarrow> if in_range 0x40 0x7E c then Some (length s - length rest) else None)
      else None)"

text \<open>The last position of the two-character terminator \<open>ESC \\\<close>.\<close>

fun last_st :: "string \<Rightarrow> nat option" where
  "last_st [] = None"
| "last_st (c # cs) =
     (case last_st cs of
        Some i \<Rightarrow> Some (Suc i)
      | None \<Rightarrow> if c = CHR 0x1B \<and> startswith cs [CHR 0x5C] then Some 0 else None)"

text \<open>
  \<open>_OSC_ESCAPE\<close>: the greedy \<open>[^\x07]*\<close> runs to the first BEL; when there is none it
  backtracks from the end to the last string terminator.
\<close>

definition osc_match :: "string \<Rightarrow> nat option" where
  "osc_match s =
     (if startswith s [CHR 0x1B, CHR '']''] then
        (let body = drop 2 s
         in if CHR 0x07 \<in> set body then Some (3 + length (takeWhile (\<lambda>c. c \<noteq> CHR 0x07) body))
            else map_option (\<lambda>i. i + 4) (last_st body))
      else None)"

function re_sub :: "(string \<Rightarrow> nat option) \<Rightarrow> string \<Rightarrow> string" where
  "re_sub m [] = []"
| "re_sub m (c # cs) =
     (case m (c # cs) of None \<Rightarrow> c # re_sub m cs | Some n \<Rightarrow> re_sub m (drop (n - 1) cs))"
  by pat_completeness auto
termination
  by (relation "measure (\<lambda>(m, s). length s)") auto

definition strip_ansi :: "string \<Rightarrow> string" where
  "strip_ansi text = re_sub ansi_match (re_sub osc_match text)"

fun replace_crlf :: "string \<Rightarrow> string" where
  "replace_crlf [] = []"
| "replace_crlf [c] = [c]"
| "replace_crlf (c # d # cs) =
     (if c = CHR 0x0D \<and> d = CHR 0x0A then CHR 0x0A # replace_crlf cs else c # replace_crlf (d # cs))"

definition replace_cr :: "string \<Rightarrow> string" where
  "replace_cr s = map (\<lambda>c. if c = CHR 0x0D then CHR 0x0A else c) s"

definition TITLE_MINOR_WORDS :: "string list" where
  "TITLE_MINOR_WORDS =
     [''a'', ''an'', ''and'', ''as'', ''at'', ''but'', ''by'', ''for'', ''from'', ''in'',
      ''nor'', ''of'', ''on'', ''or'', ''the'', ''to'', ''with'']"

definition MAX_TITLE_WORDS :: nat where
  "MAX_TITLE_WORDS = 6"

definition is_punct :: "char \<Rightarrow> bool" where
  "is_punct c \<longleftrightarrow>
     in_range 0x21 0x2F c \<or> in_range 0x3A 0x40 c \<or> in_range 0x5B 0x60 c \<or> in_range 0x7B 0x7E c"

text \<open>The loop body of \<open>_looks_like_title\<close>: whether the word at this index is acceptable.\<close>

definition title_word :: "bool \<Rightarrow> string \<Rightarrow> bool" where
  "title_word is_first word =
     (case strip_by is_punct word of
        [] \<Rightarrow> False
      | c # cs \<Rightarrow>
          if is_first then is_upper c
          else if lower (c # cs) \<in> set TITLE_MINOR_WORDS then True
          else is_upper c)"

definition looks_like_title :: "string \<Rightarrow> bool" where
  "looks_like_title line =
     (if line = [] \<or> endswith line ''.'' then False
      else case split_ws line of
             [] \<Rightarrow> False
           | w # ws \<Rightarrow>
               if MAX_TITLE_WORDS < length (w # ws) then False
               else title_word True w \<and> list_all (title_word False) ws)"

text \<open>\<open>_collapse_lines\<close>: runs of blank lines become one empty entry, leading ones vanish.\<close>

fun collapse_go :: "string list \<Rightarrow> bool \<Rightarrow> string list \<Rightarrow> string list" where
  "collapse_go collapsed blank [] = collapsed"
| "collapse_go collapsed blank (line # rest) =
     (if line = [] then
        (if collapsed \<noteq> [] \<and> \<not> blank then collapse_go (collapsed @ [[]]) True rest
         else collapse_go collapsed blank rest)
      else collapse_go (collapsed @ [line]) False rest)"

definition collapse_lines :: "string list \<Rightarrow> string" where
  "collapse_lines lines = strip (join '' '' (collapse_go [] False lines))"

definition trim_blank :: "string list \<Rightarrow> string list" where
  "trim_blank lines = rev (dropWhile (\<lambda>l. l = []) (rev (dropWhile (\<lambda>l. l = []) lines)))"

definition prepare_text :: "string \<Rightarrow> string option \<times> string" where
  "prepare_text text =
     (let t = replace_cr (replace_crlf (strip_ansi text));
          lines = trim_blank (map strip (split_on (CHR 0x0A) t))
      in case lines of
           [] \<Rightarrow> (None, [])
         | first # rest \<Rightarrow>
             if rest \<noteq> [] \<and> looks_like_title first then (Some first, collapse_lines rest)
             else (None, collapse_lines lines))"

section \<open>Packing\<close>

definition seq_marker :: "nat \<Rightarrow> nat \<Rightarrow> string" where
  "seq_marker i n = ''('' @ str_nat i @ ''/'' @ str_nat n @ '') ''"

definition sequence_prefix_len :: "nat \<Rightarrow> nat" where
  "sequence_prefix_len n = length (seq_marker n n)"

text \<open>The loop of \<open>_pack_words\<close>: \<open>cur\<close> and \<open>n\<close> are \<open>current\<close> and \<open>current_len\<close>.\<close>

fun pack_go :: "int \<Rightarrow> string list \<Rightarrow> int \<Rightarrow> string list \<Rightarrow> string list" where
  "pack_go limit cur n [] = (if cur = [] then [] else [join '' '' cur])"
| "pack_go limit cur n (w # ws) =
     (let addition = (if cur = [] then int (length w) else int (length w) + 1)
      in if cur \<noteq> [] \<and> n + addition > limit
         then join '' '' cur # pack_go limit [w] (int (length w)) ws
         else pack_go limit (cur @ [w]) (n + addition) ws)"

definition pack_words :: "string \<Rightarrow> int \<Rightarrow> string list" where
  "pack_words text limit = pack_go limit [] 0 (split_ws text)"

section \<open>Facts about the greedy packer\<close>

text \<open>The groups of words behind the chunks, and their number as a function of the room used.\<close>

fun group_go :: "int \<Rightarrow> string list \<Rightarrow> int \<Rightarrow> string list \<Rightarrow> string list list" where
  "group_go limit cur n [] = (if cur = [] then [] else [cur])"
| "group_go limit cur n (w # ws) =
     (let addition = (if cur = [] then int (length w) else int (length w) + 1)
      in if cur \<noteq> [] \<and> n + addition > limit
         then cur # group_go limit [w] (int (length w)) ws
         else group_go limit (cur @ [w]) (n + addition) ws)"

lemma pack_go_groups: "pack_go limit cur n ws = map (join '' '') (group_go limit cur n ws)"
  by (induction limit cur n ws rule: group_go.induct) (simp_all add: Let_def)

lemma concat_group_go: "concat (group_go limit cur n ws) = cur @ ws"
  by (induction limit cur n ws rule: group_go.induct) (simp_all add: Let_def)

lemma group_go_nonempty: "g \<in> set (group_go limit cur n ws) \<Longrightarrow> g \<noteq> []"
  by (induction limit cur n ws rule: group_go.induct) (auto simp: Let_def split: if_splits)

lemma join_snoc: "cur \<noteq> [] \<Longrightarrow> join sep (cur @ [w]) = join sep cur @ sep @ w"
  by (induction sep cur rule: join.induct) auto

lemma length_join_snoc:
  "int (length (join '' '' (cur @ [w]))) =
     int (length (join '' '' cur)) + (if cur = [] then int (length w) else int (length w) + 1)"
  by (cases "cur = []") (simp_all add: join_snoc)

text \<open>
  A chunk is never longer than the limit unless a single word is: with \<open>b\<close> at least the
  limit and at least every word, no chunk exceeds \<open>b\<close>.
\<close>

lemma group_go_fits:
  assumes "n = int (length (join '' '' cur))" and "n \<le> b" and "limit \<le> b"
    and "\<forall>w \<in> set ws. int (length w) \<le> b"
    and "g \<in> set (group_go limit cur n ws)"
  shows "int (length (join '' '' g)) \<le> b"
  using assms
proof (induction limit cur n ws rule: group_go.induct)
  case (1 limit cur n)
  then show ?case by (simp split: if_splits)
next
  case (2 limit cur n w ws)
  let ?add = "if cur = [] then int (length w) else int (length w) + 1"
  have tail: "\<forall>v \<in> set ws. int (length v) \<le> b" and w: "int (length w) \<le> b"
    using "2.prems"(4) by simp_all
  show ?case
  proof (cases "cur \<noteq> [] \<and> n + ?add > limit")
    case True
    then have "g = cur \<or> g \<in> set (group_go limit [w] (int (length w)) ws)"
      using "2.prems"(5) by (simp add: Let_def split: if_splits)
    then show ?thesis
      using "2.IH"(1) [OF refl True _ w "2.prems"(3) tail] "2.prems"(1,2) by auto
  next
    case False
    have len: "n + ?add = int (length (join '' '' (cur @ [w])))"
      using "2.prems"(1) by (simp only: length_join_snoc)
    have "n + ?add \<le> b"
      using False w "2.prems"(1,3) by (cases "cur = []") simp_all
    then show ?thesis
      using "2.IH"(2) [OF refl False len _ "2.prems"(3) tail] "2.prems"(5) False
      by (simp add: Let_def)
  qed
qed

lemma pack_words_fits:
  assumes "limit \<le> b" and "0 \<le> b" and "\<forall>w \<in> set (split_ws t). int (length w) \<le> b"
    and "c \<in> set (pack_words t limit)"
  shows "int (length c) \<le> b"
  using assms group_go_fits [of 0 "[]" b limit "split_ws t"]
  by (auto simp: pack_words_def pack_go_groups)

text \<open>
  More room never costs chunks. The current chunks of the two runs are compared by their
  length; whenever the run with less room has just opened a chunk the other may be behind by
  at most one.
\<close>

lemma group_go_antimono_aux:
  assumes "l1 \<le> l2" and "c1 \<noteq> []" and "c2 \<noteq> []" and "0 \<le> n1"
  shows "(n2 \<le> n1 \<longrightarrow> length (group_go l2 c2 n2 ws) \<le> length (group_go l1 c1 n1 ws)) \<and>
         length (group_go l2 c2 n2 ws) \<le> Suc (length (group_go l1 c1 n1 ws))"
  using assms(2-)
proof (induction ws arbitrary: c1 c2 n1 n2)
  case Nil
  then show ?case by simp
next
  case (Cons w ws)
  let ?a = "int (length w)"
  have IH: "(m2 \<le> m1 \<longrightarrow> length (group_go l2 d2 m2 ws) \<le> length (group_go l1 d1 m1 ws)) \<and>
      length (group_go l2 d2 m2 ws) \<le> Suc (length (group_go l1 d1 m1 ws))"
    if "d1 \<noteq> []" "d2 \<noteq> []" "0 \<le> m1" for d1 d2 m1 m2
    using Cons.IH that by blast
  show ?case
    using Cons.prems assms(1)
      IH [of "[w]" "[w]" ?a ?a] IH [of "[w]" "c2 @ [w]" ?a "n2 + (?a + 1)"]
      IH [of "c1 @ [w]" "[w]" "n1 + (?a + 1)" ?a]
      IH [of "c1 @ [w]" "c2 @ [w]" "n1 + (?a + 1)" "n2 + (?a + 1)"]
    by (simp add: Let_def)
qed

lemma group_go_antimono:
  assumes "l1 \<le> l2"
  shows "length (group_go l2 [] 0 ws) \<le> length (group_go l1 [] 0 ws)"
proof (cases ws)
  case (Cons w ws')
  then show ?thesis
    using group_go_antimono_aux [OF assms, of "[w]" "[w]" "int (length w)" "int (length w)" ws']
    by simp
qed simp

lemma length_group_go: "length (group_go limit cur n ws) \<le> length ws + (if cur = [] then 0 else 1)"
  by (induction limit cur n ws rule: group_go.induct) (auto simp: Let_def)

lemma pack_words_antimono: "l1 \<le> l2 \<Longrightarrow> length (pack_words t l2) \<le> length (pack_words t l1)"
  by (simp add: pack_words_def pack_go_groups group_go_antimono)

lemma pack_words_bounded: "length (pack_words t l) \<le> length (split_ws t)"
  using length_group_go [of l "[]" 0 "split_ws t"] by (simp add: pack_words_def pack_go_groups)

section \<open>The width of the sequence markers\<close>

lemma length_str_nat_mono: "m \<le> n \<Longrightarrow> length (str_nat m) \<le> length (str_nat n)"
proof (induction n arbitrary: m rule: str_nat.induct)
  case (1 n)
  show ?case
  proof (cases "n < 10")
    case True
    with "1.prems" show ?thesis by (simp add: str_nat.simps)
  next
    case False
    show ?thesis
    proof (cases "m < 10")
      case True
      with False show ?thesis by (simp add: str_nat.simps [of m] str_nat.simps [of n])
    next
      case m: False
      have "length (str_nat (m div 10)) \<le> length (str_nat (n div 10))"
        using "1.IH" False "1.prems" by (simp add: div_le_mono)
      with False m show ?thesis by (simp add: str_nat.simps [of m] str_nat.simps [of n])
    qed
  qed
qed

lemma length_seq_marker: "length (seq_marker i n) = 4 + length (str_nat i) + length (str_nat n)"
  by (simp add: seq_marker_def)

lemma sequence_prefix_len_mono: "m \<le> n \<Longrightarrow> sequence_prefix_len m \<le> sequence_prefix_len n"
  using length_str_nat_mono [of m n] by (simp add: sequence_prefix_len_def length_seq_marker)

lemma seq_marker_fits: "i \<le> n \<Longrightarrow> length (seq_marker i n) \<le> sequence_prefix_len n"
  using length_str_nat_mono [of i n] by (simp add: sequence_prefix_len_def length_seq_marker)

section \<open>The sequence budget\<close>

text \<open>
  The contract the budget loop needs of its packer: more room never gives more chunks, and the
  number of chunks is bounded. Refitting (packing again with the room that the current number
  of chunks leaves after its markers) is then a monotone map on a bounded range, so its
  iteration settles; \<open>refit_rank\<close> is the measure that decreases until it does.
\<close>

definition refit_rank :: "nat \<Rightarrow> (nat \<Rightarrow> nat) \<Rightarrow> nat \<Rightarrow> nat" where
  "refit_rank bound f x = (if f x = x then 0 else if f x < x then Suc x else Suc (bound - x))"

locale packer =
  fixes pack :: "int \<Rightarrow> 'c list" and bound :: nat
  assumes pack_antimono: "l1 \<le> l2 \<Longrightarrow> length (pack l2) \<le> length (pack l1)"
    and pack_bounded: "length (pack l) \<le> bound"

locale marked_packer = packer +
  fixes marker_len :: "nat \<Rightarrow> nat"
  assumes marker_mono: "m \<le> n \<Longrightarrow> marker_len m \<le> marker_len n"
begin

lemma refit_mono:
  "m \<le> n \<Longrightarrow> length (pack (max 1 (limit - int (marker_len m))))
                \<le> length (pack (max 1 (limit - int (marker_len n))))"
  using marker_mono [of m n] by (intro pack_antimono) auto

lemma refit_rank_decreases:
  fixes limit :: int
  defines "f \<equiv> \<lambda>t. length (pack (max 1 (limit - int (marker_len t))))"
  assumes "f x \<noteq> x"
  shows "refit_rank bound f (f x) < refit_rank bound f x"
proof (cases "f x < x")
  case True
  then have "f (f x) \<le> f x" unfolding f_def by (intro refit_mono) simp
  with True show ?thesis by (simp add: refit_rank_def)
next
  case False
  with assms(2) have "x < f x" by simp
  moreover from this have "f x \<le> f (f x)" unfolding f_def by (intro refit_mono) simp
  moreover have "f x \<le> bound" by (simp add: f_def pack_bounded)
  ultimately show ?thesis by (simp add: refit_rank_def diff_less_mono2)
qed

end

interpretation word_packer: marked_packer "pack_words t" "length (split_ws t)" sequence_prefix_len
  for t
  by unfold_locales (simp_all add: pack_words_antimono pack_words_bounded sequence_prefix_len_mono)

text \<open>The \<open>while True\<close> loop of \<open>_pack_with_sequence_budget\<close>, from the current total.\<close>

function budget_loop :: "string \<Rightarrow> int \<Rightarrow> nat \<Rightarrow> string list" where
  "budget_loop text limit n =
     (let next_chunks = pack_words text (max 1 (limit - int (sequence_prefix_len n)))
      in if length next_chunks = n then next_chunks
         else budget_loop text limit (length next_chunks))"
  by pat_completeness auto
termination
proof (relation "measure (\<lambda>(text, limit, n). refit_rank (length (split_ws text))
    (\<lambda>t. length (pack_words text (max 1 (limit - int (sequence_prefix_len t))))) n)")
  fix t :: string and limit :: int and n :: nat and chunks
  assume "chunks = pack_words t (max 1 (limit - int (sequence_prefix_len n)))"
    and "length chunks \<noteq> n"
  then show "((t, limit, length chunks), t, limit, n) \<in>
      measure (\<lambda>(text, limit, n). refit_rank (length (split_ws text))
        (\<lambda>t. length (pack_words text (max 1 (limit - int (sequence_prefix_len t))))) n)"
    using word_packer.refit_rank_decreases [of t limit n] by simp
qed simp

declare budget_loop.simps [simp del]

datatype py_error = ValueError string

definition pack_with_sequence_budget :: "string \<Rightarrow> int \<Rightarrow> bool \<Rightarrow> py_error + string list" where
  "pack_with_sequence_budget text limit numbered =
     (if limit \<le> 0 then Inl (ValueError ''max_chars must be greater than prefix length'')
      else
        (let reserve = (if numbered then int (sequence_prefix_len 99) else 0);
             chunks = pack_words text (max 1 (limit - reserve))
         in if \<not> numbered \<or> length chunks \<le> 1 then Inr chunks
            else Inr (budget_loop text limit (length chunks))))"

text \<open>\<open>enumerate(chunks, start=1)\<close> with the f-strings of \<open>packetize\<close>.\<close>

definition render_packet :: "string \<Rightarrow> string \<Rightarrow> bool \<Rightarrow> nat \<Rightarrow> nat \<Rightarrow> string \<Rightarrow> string" where
  "render_packet mention lead_prefix numbered n i chunk =
     mention @ (if i = 1 then lead_prefix else []) @
     (if numbered \<and> 1 < n then seq_marker i n @ chunk else chunk)"

definition lead_of :: "string option \<Rightarrow> string option \<Rightarrow> string" where
  "lead_of first_line title =
     join [CHR 0x0A] (filter (\<lambda>l. l \<noteq> []) (map (\<lambda>x. or_else x []) [first_line, title]))"

definition lead_prefix_of :: "string option \<Rightarrow> string option \<Rightarrow> string" where
  "lead_prefix_of first_line title =
     (let lead = lead_of first_line title in if lead = [] then [] else lead @ [CHR 0x0A])"

definition packetize ::
  "string \<Rightarrow> int \<Rightarrow> string option \<Rightarrow> string option \<Rightarrow> bool \<Rightarrow> py_error + string list" where
  "packetize text max_chars pfx first_line numbered =
     (let (title, body) = prepare_text text;
          mention = or_else pfx [];
          lead = lead_of first_line title
      in if \<not> truthy title \<and> body = [] \<and> \<not> truthy first_line then Inr []
         else if body = [] then Inr (if lead = [] then [] else [mention @ lead])
         else
           (let lead_prefix = lead_prefix_of first_line title
            in case pack_with_sequence_budget body
                      (max_chars - int (length mention) - int (length lead_prefix)) numbered of
                 Inl e \<Rightarrow> Inl e
               | Inr chunks \<Rightarrow>
                   Inr (map (\<lambda>(i, chunk). render_packet mention lead_prefix numbered (length chunks) i chunk)
                          (enumerate 1 chunks))))"

text \<open>\<open>pack_lines\<close> and \<open>add_sequence_prefixes\<close>, used by the help texts.\<close>

fun pack_lines_go :: "int \<Rightarrow> string list \<Rightarrow> string list \<Rightarrow> string list" where
  "pack_lines_go budget cur [] = (if cur = [] then [] else [join [CHR 0x0A] cur])"
| "pack_lines_go budget cur (line # rest) =
     (if cur \<noteq> [] \<and> int (length (join [CHR 0x0A] (cur @ [line]))) > budget
      then join [CHR 0x0A] cur # pack_lines_go budget [line] rest
      else pack_lines_go budget (cur @ [line]) rest)"

definition pack_lines :: "string list \<Rightarrow> int \<Rightarrow> string list" where
  "pack_lines lines max_chars = pack_lines_go (max_chars - int (sequence_prefix_len 99)) [] lines"

definition add_sequence_prefixes :: "string list \<Rightarrow> string list" where
  "add_sequence_prefixes packets =
     (let n = length packets
      in if n \<le> 1 then packets
         else map (\<lambda>(i, packet). seq_marker i n @ packet) (enumerate 1 packets))"

section \<open>Words survive packing\<close>

definition is_word :: "string \<Rightarrow> bool" where
  "is_word w \<longleftrightarrow> w \<noteq> [] \<and> (\<forall>c \<in> set w. \<not> is_space c)"

lemma split_go_words:
  "\<forall>c \<in> set cur. \<not> is_space c \<Longrightarrow> w \<in> set (split_go cur s) \<Longrightarrow> is_word w"
proof (induction s arbitrary: cur)
  case Nil
  then show ?case by (simp add: is_word_def split: if_splits)
next
  case (Cons c s)
  have "is_word cur" if "cur \<noteq> []" using Cons.prems that by (simp add: is_word_def)
  moreover have "is_word w" if "w \<in> set (split_go [] s)" using Cons.IH [of "[]"] that by simp
  moreover have "is_word w" if "\<not> is_space c" "w \<in> set (split_go (cur @ [c]) s)"
    using Cons.IH [of "cur @ [c]"] Cons.prems that by simp
  ultimately show ?case using Cons.prems(2) by (auto split: if_splits)
qed

lemma split_ws_words: "w \<in> set (split_ws s) \<Longrightarrow> is_word w"
  using split_go_words [of "[]" w s] by (simp add: split_ws_def)

lemma split_go_append_word:
  "\<forall>c \<in> set w. \<not> is_space c \<Longrightarrow> split_go cur (w @ s) = split_go (cur @ w) s"
  by (induction w arbitrary: cur) simp_all

lemma is_space_blank [simp]: "is_space (CHR '' '')"
  by (simp add: is_space_def code_def)

lemma split_ws_join: "list_all is_word ws \<Longrightarrow> split_ws (join '' '' ws) = ws"
proof (induction "'' ''" ws rule: join.induct)
  case (2 x)
  then show ?case
    using split_go_append_word [of x "[]" "[]"] by (simp add: split_ws_def is_word_def)
next
  case (3 x y ys)
  then show ?case
    using split_go_append_word [of x "[]" "'' '' @ join '' '' (y # ys)"]
    by (simp add: split_ws_def is_word_def)
qed (simp add: split_ws_def)

lemma split_pack_words: "concat (map split_ws (pack_words t limit)) = split_ws t"
proof -
  let ?gs = "group_go limit [] 0 (split_ws t)"
  have "split_ws (join '' '' g) = g" if "g \<in> set ?gs" for g
  proof (rule split_ws_join)
    have "set g \<subseteq> set (concat ?gs)" using that by auto
    then have "set g \<subseteq> set (split_ws t)" by (simp only: concat_group_go append_Nil)
    then show "list_all is_word g" by (auto simp: list_all_iff split_ws_words)
  qed
  then have "map (split_ws \<circ> join '' '') ?gs = ?gs" by (simp add: map_idI)
  then have "concat (map (split_ws \<circ> join '' '') ?gs) = concat ?gs" by (simp only:)
  then show ?thesis by (simp add: pack_words_def pack_go_groups concat_group_go)
qed

lemma pack_words_nonempty: "split_ws t \<noteq> [] \<Longrightarrow> pack_words t limit \<noteq> []"
  using split_pack_words [of t limit] by fastforce

section \<open>Properties\<close>

lemma budget_loop_settled:
  "budget_loop t limit n =
     pack_words t (max 1 (limit - int (sequence_prefix_len (length (budget_loop t limit n)))))"
proof (induction t limit n rule: budget_loop.induct)
  case (1 t limit n)
  show ?case
    using "1.IH" [OF refl] by (simp add: Let_def budget_loop.simps [of t limit n])
qed

lemma pack_with_sequence_budget_is_packing:
  assumes "pack_with_sequence_budget t limit numbered = Inr chunks"
  shows "\<exists>l. chunks = pack_words t l"
  using assms budget_loop_settled [of t limit]
  by (auto simp: pack_with_sequence_budget_def Let_def split: if_splits)

lemma pack_with_sequence_budget_fits:
  assumes "pack_with_sequence_budget t limit numbered = Inr chunks"
    and "\<forall>w \<in> set (split_ws t). int (length w) \<le>
           limit - (if numbered then int (sequence_prefix_len (length chunks)) else 0)"
    and "c \<in> set chunks"
  shows "int (length c) + (if numbered \<and> 1 < length chunks
           then int (sequence_prefix_len (length chunks)) else 0) \<le> limit"
proof (cases "split_ws t = []")
  case True
  then show ?thesis
    using assms pack_with_sequence_budget_is_packing [OF assms(1)]
    by (auto simp: pack_words_def)
next
  case False
  let ?b = "limit - (if numbered then int (sequence_prefix_len (length chunks)) else 0)"
  from False obtain w where "w \<in> set (split_ws t)" by (cases "split_ws t") auto
  then have "is_word w" and wb: "int (length w) \<le> ?b" using assms(2) split_ws_words by blast+
  then have "0 < length w" by (simp add: is_word_def)
  with wb have "1 \<le> ?b" by linarith
  have "\<exists>l. chunks = pack_words t (max 1 l) \<and> l \<le> ?b"
  proof (cases "numbered \<and> 1 < length (pack_words t (max 1 (limit - int (sequence_prefix_len 99))))")
    case True
    then have "chunks = budget_loop t limit (length (pack_words t (max 1 (limit - int (sequence_prefix_len 99)))))"
      using assms(1) by (auto simp: pack_with_sequence_budget_def Let_def split: if_splits)
    then have "chunks = pack_words t (max 1 (limit - int (sequence_prefix_len (length chunks))))"
      using budget_loop_settled by metis
    with True show ?thesis by auto
  next
    case False
    then have eq: "chunks = pack_words t (max 1 (limit - (if numbered then int (sequence_prefix_len 99) else 0)))"
      and few: "numbered \<longrightarrow> length chunks \<le> 1"
      using assms(1) by (auto simp: pack_with_sequence_budget_def Let_def split: if_splits)
    have "numbered \<Longrightarrow> sequence_prefix_len (length chunks) \<le> sequence_prefix_len 99"
      using few by (intro sequence_prefix_len_mono) simp
    then show ?thesis using eq by (intro exI [of _ "limit - (if numbered then int (sequence_prefix_len 99) else 0)"]) auto
  qed
  then obtain l where "chunks = pack_words t (max 1 l)" and "l \<le> ?b" by blast
  with \<open>1 \<le> ?b\<close> have "int (length c) \<le> ?b"
    using assms(2,3) by (intro pack_words_fits [of "max 1 l" ?b t c]) auto
  then show ?thesis by (auto split: if_splits)
qed



text \<open>
  C20. The packets carry exactly the words of the body, in order: each packet is the prefix, the
  lead lines on the first packet, the marker when there are several, and a chunk, and splitting
  the chunks into words gives back the words of the body.
\<close>

theorem packetize_keeps_words:
  assumes "packetize t m pfx fl numbered = Inr packets"
    and "prepare_text t = (title, body)" and "body \<noteq> []"
  shows "\<exists>chunks. concat (map split_ws chunks) = split_ws body \<and>
    packets = map (\<lambda>(i, c). or_else pfx [] @ (if i = 1 then lead_prefix_of fl title else []) @
        (if numbered \<and> 1 < length chunks then seq_marker i (length chunks) @ c else c))
      (enumerate 1 chunks)"
proof -
  obtain chunks where "pack_with_sequence_budget body
      (m - int (length (or_else pfx [])) - int (length (lead_prefix_of fl title))) numbered = Inr chunks"
    and "packets = map (\<lambda>(i, chunk). render_packet (or_else pfx []) (lead_prefix_of fl title) numbered
        (length chunks) i chunk) (enumerate 1 chunks)"
    using assms by (auto simp: packetize_def Let_def split: sum.splits if_splits)
  moreover from this(1) have "concat (map split_ws chunks) = split_ws body"
    using pack_with_sequence_budget_is_packing split_pack_words by blast
  ultimately show ?thesis unfolding render_packet_def by blast
qed

theorem packetize_keeps_words_witness:
  "\<exists>chunks. concat (map split_ws chunks) = split_ws ''It is dark here'' \<and>
    [''Cave\<newline>(1/3) It is'', ''(2/3) dark'', ''(3/3) here''] =
    map (\<lambda>(i, c). or_else None [] @ (if i = 1 then lead_prefix_of None (Some ''Cave'') else []) @
        (if True \<and> 1 < length chunks then seq_marker i (length chunks) @ c else c))
      (enumerate 1 chunks)"
proof (rule packetize_keeps_words)
  show "packetize ''Cave\<newline>It is dark here'' 16 None None True =
      Inr [''Cave\<newline>(1/3) It is'', ''(2/3) dark'', ''(3/3) here'']"
    by code_simp
  show "prepare_text ''Cave\<newline>It is dark here'' = (Some ''Cave'', ''It is dark here'')"
    by code_simp
qed simp

text \<open>
  \<open>packetize\<close> always returns or raises \<open>ValueError\<close>, and it raises exactly when
  there is a body and the prefix and the lead lines leave no room at all.
\<close>

theorem packetize_outcome:
  "case packetize t m pfx fl numbered of
     Inl e \<Rightarrow> e = ValueError ''max_chars must be greater than prefix length'' \<and>
       snd (prepare_text t) \<noteq> [] \<and>
       m \<le> int (length (or_else pfx [])) + int (length (lead_prefix_of fl (fst (prepare_text t))))
   | Inr packets \<Rightarrow> snd (prepare_text t) = [] \<or>
       int (length (or_else pfx [])) + int (length (lead_prefix_of fl (fst (prepare_text t)))) < m"
  by (auto simp: packetize_def Let_def pack_with_sequence_budget_def split: prod.splits if_splits)

lemma length_join_sum:
  "g \<noteq> [] \<Longrightarrow> int (length (join '' '' g)) = (\<Sum>w \<leftarrow> g. int (length w) + 1) - 1"
  by (induction "'' ''" g rule: join.induct) simp_all

lemma group_go_absorbs:
  "cur \<noteq> [] \<Longrightarrow> n + (\<Sum>w \<leftarrow> g. int (length w) + 1) \<le> limit \<Longrightarrow>
    group_go limit cur n (g @ ws) = group_go limit (cur @ g) (n + (\<Sum>w \<leftarrow> g. int (length w) + 1)) ws"
proof (induction g arbitrary: cur n)
  case (Cons w g)
  have "0 \<le> (\<Sum>v \<leftarrow> g. int (length v) + 1)" by (induction g) simp_all
  with Cons show ?case by (simp add: Let_def add.assoc)
qed simp

lemma group_go_one_more:
  assumes "cur \<noteq> []" and "0 \<le> n" and "d \<noteq> []" and "0 \<le> m" and "g \<noteq> []"
    and "(\<Sum>w \<leftarrow> g. int (length w) + 1) - 1 \<le> limit"
    and "(\<Sum>w \<leftarrow> g. int (length w) + 1) - 1 \<le> m"
  shows "length (group_go limit cur n (g @ ws)) \<le> Suc (length (group_go limit d m ws))"
  using assms
proof (induction g arbitrary: cur n)
  case (Cons w g)
  have pos: "0 \<le> (\<Sum>v \<leftarrow> g. int (length v) + 1)" by (induction g) simp_all
  show ?case
  proof (cases "n + (int (length w) + 1) > limit")
    case True
    have "group_go limit [w] (int (length w)) (g @ ws) =
        group_go limit ([w] @ g) (int (length w) + (\<Sum>v \<leftarrow> g. int (length v) + 1)) ws"
      using Cons.prems by (intro group_go_absorbs) simp_all
    then show ?thesis
      using True Cons.prems pos
        group_go_antimono_aux [of limit limit d "w # g" m "int (length w) + (\<Sum>v \<leftarrow> g. int (length v) + 1)" ws]
      by (simp add: Let_def)
  next
    case False
    show ?thesis
    proof (cases "g = []")
      case True
      then show ?thesis
        using False Cons.prems
          group_go_antimono_aux [of limit limit d "cur @ [w]" m "n + (int (length w) + 1)" ws]
        by (simp add: Let_def)
    next
      case g: False
      then show ?thesis
        using False Cons.prems pos Cons.IH [of "cur @ [w]" "n + (int (length w) + 1)"]
        by (simp add: Let_def)
    qed
  qed
qed simp

lemma group_go_optimal_open:
  assumes "\<forall>g \<in> set gs. int (length (join '' '' g)) \<le> limit" and "cur \<noteq> []" and "0 \<le> n"
  shows "length (group_go limit cur n (concat gs)) \<le> Suc (length gs)"
  using assms
proof (induction gs arbitrary: cur n)
  case (Cons g gs)
  show ?case
  proof (cases "g = []")
    case False
    let ?m = "int (length (join '' '' g))"
    have "length (group_go limit cur n (g @ concat gs)) \<le> Suc (length (group_go limit g ?m (concat gs)))"
      using Cons.prems False by (intro group_go_one_more) (simp_all add: length_join_sum [symmetric])
    moreover have "length (group_go limit g ?m (concat gs)) \<le> Suc (length gs)"
      using Cons.prems False by (intro Cons.IH) simp_all
    ultimately show ?thesis by simp
  next
    case True
    then show ?thesis using Cons.IH [of cur n] Cons.prems by simp
  qed
qed simp

lemma group_go_optimal:
  assumes "\<forall>g \<in> set gs. int (length (join '' '' g)) \<le> limit"
  shows "length (group_go limit [] 0 (concat gs)) \<le> length gs"
  using assms
proof (induction gs)
  case (Cons g gs)
  show ?case
  proof (cases g)
    case Nil
    then show ?thesis using Cons by simp
  next
    case (Cons w g')
    have "group_go limit [w] (int (length w)) (g' @ concat gs) =
        group_go limit ([w] @ g') (int (length w) + (\<Sum>v \<leftarrow> g'. int (length v) + 1)) (concat gs)"
      using Cons.prems Cons length_join_sum [of g] by (intro group_go_absorbs) simp_all
    moreover have "0 \<le> (\<Sum>v \<leftarrow> g'. int (length v) + 1)" by (induction g') simp_all
    ultimately show ?thesis
      using Cons Cons.prems
        group_go_optimal_open [of gs limit "w # g'" "int (length w) + (\<Sum>v \<leftarrow> g'. int (length v) + 1)"]
      by simp
  qed
qed simp

text \<open>
  C29. The repacking loop settles on the right budget: whatever number of chunks it starts from,
  its result is the greedy packing for exactly the room that the markers of the result's own
  number of chunks leave, and no way of grouping the words into consecutive groups that fit
  that room gives fewer packets.
\<close>

theorem budget_loop_optimal:
  assumes "room = max 1 (limit - int (sequence_prefix_len (length (budget_loop t limit n))))"
    and "concat groups = split_ws t"
    and "\<forall>g \<in> set groups. int (length (join '' '' g)) \<le> room"
  shows "budget_loop t limit n = pack_words t room \<and> length (budget_loop t limit n) \<le> length groups"
proof -
  have eq: "budget_loop t limit n = pack_words t room"
    unfolding assms(1) by (rule budget_loop_settled)
  then show ?thesis
    using group_go_optimal [OF assms(3)] by (simp add: pack_words_def pack_go_groups assms(2))
qed

theorem budget_loop_optimal_witness:
  "budget_loop ''It is dark here'' 11 4 = pack_words ''It is dark here'' 5 \<and>
   length (budget_loop ''It is dark here'' 11 4) \<le> length [[''It''], [''is''], [''dark''], [''here'']]"
proof (rule budget_loop_optimal)
  show "(5::int) = max 1 (11 - int (sequence_prefix_len (length (budget_loop ''It is dark here'' 11 4))))"
    by code_simp
qed code_simp+

end
