(* ===== verification/Sanitize.thy ===== *)
theory Sanitize
  imports Zork_Prelude
begin

text \<open>
  The input filter in front of the game, \<^verbatim>\<open>src/zorkbot/src/zorkbot/sanitize.py\<close>.
  \<open>validate\<close> returns \<open>Inl NotAllowedError\<close> where the code raises. The exemption of
  U+FFFD in \<open>_has_control_or_ansi\<close> concerns a code point outside the modelled range, and
  one that neither of the two tests behind it would reject.
\<close>

definition MAX_COMMAND_LENGTH :: nat where
  "MAX_COMMAND_LENGTH = 80"

definition BLOCKED_DEBUG_COMMANDS :: "string list" where
  "BLOCKED_DEBUG_COMMANDS =
     [''$help'', ''$quit'', ''$undo'', ''$redo'', ''$dump'',
      ''$dict'', ''$tree'', ''$room'', ''$you'', ''$find'',
      ''$object'', ''$parent'', ''$attrs'', ''$props'', ''$simple'',
      ''$header'', ''$history'', ''$have_attr'', ''$have_prop'',
      ''$steal'', ''$teleport'']"

datatype not_allowed = NotAllowedError string

abbreviation not_allowed_default :: not_allowed where
  "not_allowed_default \<equiv> NotAllowedError ''that command isn't allowed''"

fun has_control_or_ansi :: "string \<Rightarrow> bool" where
  "has_control_or_ansi [] = False"
| "has_control_or_ansi (c # cs) =
     (if code c < 0x20 \<or> code c = 0x7F then True
      else if c = CHR 0x1B then True
      else has_control_or_ansi cs)"

definition validate :: "string \<Rightarrow> bool \<Rightarrow> not_allowed + unit" where
  "validate text admin =
     (let t = strip text
      in if t = [] then Inl not_allowed_default
         else if MAX_COMMAND_LENGTH < length t then Inl not_allowed_default
         else if CHR 0x0A \<in> set t \<or> CHR 0x0D \<in> set t then Inl not_allowed_default
         else if startswith t ''$'' then Inl not_allowed_default
         else if lower t \<in> set BLOCKED_DEBUG_COMMANDS then Inl not_allowed_default
         else if has_control_or_ansi t then Inl not_allowed_default
         else if \<not> admin \<and> lower t \<in> {''save'', ''restore'', ''quit''} then Inl not_allowed_default
         else Inr ())"

section \<open>Facts\<close>

lemma has_control_or_ansi_iff:
  "has_control_or_ansi s \<longleftrightarrow> (\<exists>c \<in> set s. code c < 0x20 \<or> code c = 0x7F)"
proof -
  have "code (CHR 0x1B) < 0x20" by (simp add: code_def)
  then show ?thesis by (induction s) auto
qed

lemma char_lower_dollar: "char_lower c = CHR ''$'' \<longleftrightarrow> c = CHR ''$''"
proof
  assume l: "char_lower c = CHR ''$''"
  show "c = CHR ''$''"
  proof (cases "is_upper c")
    case True
    then have "code c + 32 < 256" "65 \<le> code c"
      by (auto simp: is_upper_def Let_def)
    moreover have "of_char (char_of (code c + 32)) = (36 :: nat)"
      using l True by (simp add: char_lower_def)
    ultimately show ?thesis by (simp add: take_bit_eq_mod)
  next
    case False
    with l show ?thesis by (simp add: char_lower_def)
  qed
qed (simp add: char_lower_def is_upper_def code_def)

lemma blocked_commands_start_with_dollar:
  assumes "lower t \<in> set BLOCKED_DEBUG_COMMANDS"
  shows "startswith t ''$''"
proof -
  have "list_all (\<lambda>b. take 1 b = ''$'') BLOCKED_DEBUG_COMMANDS"
    by (simp add: BLOCKED_DEBUG_COMMANDS_def)
  then have "take 1 (lower t) = ''$''" using assms by (simp add: list_all_iff)
  then show ?thesis
    by (cases t) (simp_all add: startswith_def lower_def char_lower_dollar)
qed

text \<open>
  A command is let through exactly when, stripped of surrounding whitespace, it is between 1
  and 80 characters long, contains no control character (so no newline, no escape sequence and
  no DEL), does not start with the debugger prefix and, unless the caller is privileged, is not
  one of the interpreter's own save, restore and quit commands in any letter case. Every
  rejection raises the same \<open>NotAllowedError\<close>. In particular the explicit list of debug
  commands rejects nothing that the prefix test does not.
\<close>

theorem validate_iff:
  "validate t admin =
     (if 1 \<le> length (strip t) \<and> length (strip t) \<le> 80 \<and>
         list_all (\<lambda>c. 0x20 \<le> code c \<and> code c \<noteq> 0x7F) (strip t) \<and>
         hd (strip t) \<noteq> CHR ''$'' \<and>
         \<not> (\<not> admin \<and> lower (strip t) \<in> {''save'', ''restore'', ''quit''})
      then Inr () else Inl not_allowed_default)"
proof -
  let ?s = "strip t"
  have nl: "CHR 0x0A \<in> set ?s \<or> CHR 0x0D \<in> set ?s \<Longrightarrow> has_control_or_ansi ?s"
  proof -
    have "code (CHR 0x0A) < 0x20" "code (CHR 0x0D) < 0x20" by (simp_all add: code_def)
    then show "CHR 0x0A \<in> set ?s \<or> CHR 0x0D \<in> set ?s \<Longrightarrow> has_control_or_ansi ?s"
      unfolding has_control_or_ansi_iff by blast
  qed
  have dollar: "?s \<noteq> [] \<Longrightarrow> startswith ?s ''$'' \<longleftrightarrow> hd ?s = CHR ''$''"
    by (cases ?s) (auto simp: startswith_def)
  have ctl: "has_control_or_ansi ?s \<longleftrightarrow> \<not> list_all (\<lambda>c. 0x20 \<le> code c \<and> code c \<noteq> 0x7F) ?s"
    by (auto simp: has_control_or_ansi_iff list_all_iff not_le)
  have len: "1 \<le> length ?s \<longleftrightarrow> ?s \<noteq> []" by (cases ?s) auto
  have max: "MAX_COMMAND_LENGTH = 80" by (simp add: MAX_COMMAND_LENGTH_def)
  show ?thesis
    unfolding validate_def Let_def len max
    using nl dollar ctl blocked_commands_start_with_dollar [of ?s] by (auto simp: not_le)
qed

end
