(* ===== verification/Addressing.thy ===== *)
theory Addressing
  imports Zork_Prelude
begin

text \<open>
  Mention stripping and command parsing, \<^verbatim>\<open>src/zorkbot/src/zorkbot/addressing.py\<close>,
  and the channel test of \<^verbatim>\<open>channels.py\<close>.
\<close>

definition BOT_COMMANDS :: "string list" where
  "BOT_COMMANDS =
     [''help'', ''commands'', ''author'', ''uptime'',
      ''start'', ''end'', ''list'', ''watch'', ''watchers'', ''reset'',
      ''rules'', ''bots'']"

definition ZORK_PREFIX :: string where
  "ZORK_PREFIX = ''!zork''"

definition is_sep :: "char \<Rightarrow> bool" where
  "is_sep c \<longleftrightarrow> c \<in> set '' :,''"

definition strip_address :: "string \<Rightarrow> string \<Rightarrow> string \<times> bool" where
  "strip_address text0 bot_name =
     (let text = strip text0;
          name = lower bot_name;
          mention = ''@['' @ name @ '']''
      in if startswith (lower text) mention
         then (lstrip_by is_sep (drop (length mention) text), True)
         else
           (let body = (if startswith text ''@'' then drop 1 text else text);
                rest = drop (length bot_name) body
            in if startswith (lower body) name \<and> (rest = [] \<or> is_sep (hd rest))
               then (lstrip_by is_sep rest, True)
               else (text, False)))"

text \<open>\<open>s.split(None, 1)\<close>: the first word and, if anything follows it, the rest.\<close>

definition split_first :: "string \<Rightarrow> string list" where
  "split_first s =
     (let t = dropWhile is_space s;
          w = takeWhile (\<lambda>c. \<not> is_space c) t;
          r = dropWhile is_space (drop (length w) t)
      in if t = [] then [] else if r = [] then [w] else [w, r])"

definition normalize_alias :: "string \<Rightarrow> string" where
  "normalize_alias cmd =
     (let c1 = (if cmd = ''commands'' then ''help'' else cmd)
      in if c1 = ''source'' then ''author'' else c1)"

definition parse_command :: "string \<Rightarrow> string option" where
  "parse_command text0 =
     (let text = strip text0
      in if lower text = ZORK_PREFIX then Some []
         else if startswith (lower text) (ZORK_PREFIX @ '' '')
              then Some (strip (drop (length ZORK_PREFIX) text))
         else if startswith text ''!'' then
           (case split_first (drop 1 text) of
              [] \<Rightarrow> None
            | p # ps \<Rightarrow>
                (let cmd = normalize_alias (lower p)
                 in if cmd \<in> set BOT_COMMANDS then
                      (let rest = (case ps of [] \<Rightarrow> [] | r # _ \<Rightarrow> r)
                       in Some (if rest \<noteq> [] then strip (cmd @ '' '' @ rest) else cmd))
                    else None))
         else None)"

definition parse_zork_command :: "string \<Rightarrow> string option" where
  "parse_zork_command text0 =
     (let text = strip text0
      in if lower text = ZORK_PREFIX then Some []
         else if startswith (lower text) (ZORK_PREFIX @ '' '')
              then Some (strip (drop (length ZORK_PREFIX) text))
         else None)"

record channel_config =
  chan_index :: int
  chan_name :: string
  chan_secret :: "nat list option"

definition channel_matches :: "int \<Rightarrow> channel_config \<Rightarrow> bool" where
  "channel_matches channel_idx channel \<longleftrightarrow> channel_idx = chan_index channel"

text \<open>
  What every dispatcher does with the parsed text: \<open>args.partition(" ")\<close>, the command in
  lower case and the rest.
\<close>

definition command_of :: "string \<Rightarrow> string \<times> string" where
  "command_of args = (let (c, _, r) = partition_on (CHR '' '') args in (lower c, r))"

section \<open>Facts\<close>

lemma strip_by_append:
  assumes "a \<noteq> []" and "\<not> p (hd a)" and "\<not> p (last a)"
  shows "strip_by p (a @ b) = a @ rev (dropWhile p (rev b))"
proof -
  have "dropWhile p (a @ b) = a @ b" using assms by (cases a) simp_all
  moreover have "dropWhile p (rev a) = rev a"
    using assms by (simp add: dropWhile_eq_self_iff hd_rev)
  then have "dropWhile p (rev b @ rev a) = dropWhile p (rev b) @ rev a"
    by (cases "\<forall>x \<in> set (rev b). p x") (auto simp: dropWhile_append)
  ultimately show ?thesis by (simp add: strip_by_def)
qed

lemma rstrip_blank_cases:
  "rev (dropWhile p (rev (c # r))) = [] \<or> (\<exists>r'. rev (dropWhile p (rev (c # r))) = c # r')"
proof -
  obtain t where "c # r = rev (dropWhile p (rev (c # r))) @ t"
    using dropWhile_rev_prefix by blast
  then show ?thesis by (metis append_Cons list.sel(1) neq_Nil_conv)
qed

lemma takeWhile_word:
  "x \<notin> set w \<Longrightarrow> takeWhile (\<lambda>c. c \<noteq> x) w = w"
  "x \<notin> set w \<Longrightarrow> takeWhile (\<lambda>c. c \<noteq> x) (w @ x # r) = w"
  by (induction w) auto

lemma command_of_word:
  "CHR '' '' \<notin> set w \<Longrightarrow> command_of w = (lower w, [])"
  "CHR '' '' \<notin> set w \<Longrightarrow> command_of (w @ CHR '' '' # r) = (lower w, r)"
  by (simp_all add: command_of_def partition_on_def takeWhile_word)

definition canonical_commands :: "string list" where
  "canonical_commands = removeAll ''commands'' BOT_COMMANDS"

lemma canonical_command_shape:
  assumes "cmd \<in> set BOT_COMMANDS"
  shows "cmd \<noteq> []" "\<not> is_space (hd cmd)" "\<not> is_space (last cmd)" "CHR '' '' \<notin> set cmd" "lower cmd = cmd"
proof -
  have "list_all (\<lambda>c. c \<noteq> [] \<and> \<not> is_space (hd c) \<and> \<not> is_space (last c) \<and> CHR '' '' \<notin> set c \<and> lower c = c)
      BOT_COMMANDS"
    by code_simp
  with assms show "cmd \<noteq> []" "\<not> is_space (hd cmd)" "\<not> is_space (last cmd)" "CHR '' '' \<notin> set cmd"
    "lower cmd = cmd"
    by (auto simp: list_all_iff)
qed

lemma normalize_alias_canonical:
  "normalize_alias c \<in> set BOT_COMMANDS \<Longrightarrow> normalize_alias c \<in> set canonical_commands"
  by (auto simp: normalize_alias_def canonical_commands_def Let_def BOT_COMMANDS_def split: if_splits)

lemma command_of_rendered:
  assumes "cmd \<in> set BOT_COMMANDS"
  shows "fst (command_of (strip (cmd @ '' '' @ rest))) = cmd"
proof -
  note shape = canonical_command_shape [OF assms]
  have eq: "strip (cmd @ '' '' @ rest) = cmd @ rev (dropWhile is_space (rev (CHR '' '' # rest)))"
    unfolding strip_def using shape strip_by_append [of cmd is_space "CHR '' '' # rest"] by simp
  from rstrip_blank_cases [of is_space "CHR '' ''" rest] show ?thesis
  proof
    assume "rev (dropWhile is_space (rev (CHR '' '' # rest))) = []"
    then show ?thesis unfolding eq using shape command_of_word(1) [OF shape(4)] by (simp only: append_Nil2 fst_conv)
  next
    assume "\<exists>r'. rev (dropWhile is_space (rev (CHR '' '' # rest))) = CHR '' '' # r'"
    then obtain r' where "rev (dropWhile is_space (rev (CHR '' '' # rest))) = CHR '' '' # r'" ..
    then show ?thesis unfolding eq using shape command_of_word(2) [OF shape(4)] by (simp only: fst_conv)
  qed
qed

text \<open>
  Whatever \<open>parse_command\<close> recognises outside the legacy \<open>!zork\<close> form dispatches to
  one of the known commands in canonical spelling (aliases resolved, lower case), however the
  message spelled it.
\<close>

theorem parse_command_canonical:
  assumes "parse_command t = Some args" and "parse_zork_command t = None"
  shows "fst (command_of args) \<in> set canonical_commands"
proof -
  have parsed: "(case split_first (drop 1 (strip t)) of [] \<Rightarrow> None
      | p # ps \<Rightarrow> (let cmd = normalize_alias (lower p) in
           if cmd \<in> set BOT_COMMANDS then
             (let rest = (case ps of [] \<Rightarrow> [] | r # _ \<Rightarrow> r)
              in Some (if rest \<noteq> [] then strip (cmd @ '' '' @ rest) else cmd))
           else None)) = Some args"
    using assms by (simp add: parse_command_def parse_zork_command_def Let_def split: if_splits)
  then obtain p ps where pps: "split_first (drop 1 (strip t)) = p # ps"
    by (cases "split_first (drop 1 (strip t))") simp_all
  let ?cmd = "normalize_alias (lower p)"
  from parsed pps have b: "?cmd \<in> set BOT_COMMANDS"
    by (simp add: Let_def split: if_splits)
  then have "args = ?cmd \<or> (\<exists>rest. args = strip (?cmd @ '' '' @ rest))"
    using parsed pps by (auto simp: Let_def split: list.splits if_splits)
  then have "fst (command_of args) = ?cmd"
    using command_of_rendered [OF b] canonical_command_shape [OF b] command_of_word(1) [of ?cmd] by force
  then show ?thesis using normalize_alias_canonical [OF b] by simp
qed

theorem parse_command_canonical_witness:
  "fst (command_of ''help me'') \<in> set canonical_commands"
proof (rule parse_command_canonical)
  show "parse_command '' !Commands  me '' = Some ''help me''" by code_simp
  show "parse_zork_command '' !Commands  me '' = None" by code_simp
qed

end
