(* ===== verification/Rate_Limits.thy ===== *)
theory Rate_Limits
  imports Zork_Prelude
begin

text \<open>
  The limiters \<^verbatim>\<open>src/zorkbot/src/zorkbot/cooldown.py\<close> (one \<open>!bots\<close> reply per
  window) and \<^verbatim>\<open>advertiser.py\<close> (one advert per cooldown).

  The locale \<open>rate_gate\<close> states what a limiter promises for one attempt; its lemmas lift
  that to any sequence of attempts. It is interpreted for \<open>Cooldown.claim\<close> and for the
  advertiser's \<open>send_if_due\<close> (run to completion), and again by later theories.
  The advertiser checks its clock before an \<open>await\<close> and stamps it after, so its calls can
  overlap; \<open>adv_step\<close> models the two halves of a call as separate steps.
\<close>

section \<open>The contract of a limiter\<close>

fun granted :: "(real \<Rightarrow> 's \<Rightarrow> bool \<times> 's) \<Rightarrow> 's \<Rightarrow> real list \<Rightarrow> real list" where
  "granted attempt s [] = []"
| "granted attempt s (t # ts) =
     (case attempt t s of (ok, s') \<Rightarrow> (if ok then t # granted attempt s' ts else granted attempt s' ts))"

definition spaced :: "real \<Rightarrow> real list \<Rightarrow> bool" where
  "spaced gap ts \<longleftrightarrow> sorted_wrt (\<lambda>a b. a + gap \<le> b) ts"

locale rate_gate =
  fixes attempt :: "real \<Rightarrow> 's \<Rightarrow> bool \<times> 's"
    and gap :: real
    and last_grant :: "'s \<Rightarrow> real option"
    and ok_state :: "'s \<Rightarrow> bool"
  assumes gap_nonneg: "ok_state s \<Longrightarrow> 0 \<le> gap"
    and grant: "ok_state s \<Longrightarrow> attempt now s = (True, s') \<Longrightarrow>
      ok_state s' \<and> last_grant s' = Some now \<and> (\<forall>l. last_grant s = Some l \<longrightarrow> l + gap \<le> now)"
    and refuse: "ok_state s \<Longrightarrow> attempt now s = (False, s') \<Longrightarrow> s' = s"
    and open_gate: "ok_state s \<Longrightarrow> last_grant s = None \<or> (\<exists>l. last_grant s = Some l \<and> l + gap \<le> now) \<Longrightarrow>
      fst (attempt now s)"
begin

lemma granted_after_last:
  "ok_state s \<Longrightarrow> last_grant s = Some l \<Longrightarrow> t \<in> set (granted attempt s ts) \<Longrightarrow> l + gap \<le> t"
proof (induction ts arbitrary: s l)
  case (Cons u us)
  obtain ok s' where a: "attempt u s = (ok, s')" by fastforce
  show ?case
  proof (cases ok)
    case True
    with a Cons.prems(1) have s': "ok_state s'" "last_grant s' = Some u" and "l + gap \<le> u"
      using grant [of s u s'] Cons.prems(2) by auto
    moreover have "0 \<le> gap" using gap_nonneg Cons.prems(1) .
    ultimately show ?thesis
      using Cons.prems(3) Cons.IH [OF s'] a True by auto
  next
    case False
    then have "s' = s" using refuse [of s u s'] Cons.prems(1) a by simp
    with False a show ?thesis using Cons by simp
  qed
qed simp

lemma granted_spaced: "ok_state s \<Longrightarrow> spaced gap (granted attempt s ts)"
proof (induction ts arbitrary: s)
  case Nil
  then show ?case by (simp add: spaced_def)
next
  case (Cons u us)
  obtain ok s' where a: "attempt u s = (ok, s')" by fastforce
  show ?case
  proof (cases ok)
    case True
    with a Cons.prems have s': "ok_state s'" "last_grant s' = Some u" using grant [of s u s'] by auto
    then show ?thesis
      using Cons.IH granted_after_last [OF s'] a True by (auto simp: spaced_def)
  next
    case False
    then have "s' = s" using refuse [of s u s'] Cons.prems a by simp
    with False a show ?thesis using Cons by simp
  qed
qed

lemma granted_count:
  assumes "ok_state s" and "\<forall>t \<in> set ts. a \<le> t \<and> t \<le> b" and "granted attempt s ts \<noteq> []"
  shows "real (length (granted attempt s ts) - 1) * gap \<le> b - a"
proof -
  have sub: "set (granted attempt s ts) \<subseteq> set ts"
    by (induction ts arbitrary: s) (auto split: prod.splits if_splits)
  have *: "hd xs + real (length xs - 1) * gap \<le> last xs" if "spaced gap xs" "xs \<noteq> []" for xs
    using that
  proof (induction xs)
    case (Cons x xs)
    then show ?case by (cases xs) (auto simp: spaced_def algebra_simps)
  qed simp
  have "a \<le> hd (granted attempt s ts)" "last (granted attempt s ts) \<le> b"
    using sub assms(2) hd_in_set [OF assms(3)] last_in_set [OF assms(3)] by blast+
  then show ?thesis
    using * [OF granted_spaced [OF assms(1)] assms(3)] by linarith
qed

end

section \<open>Cooldown\<close>

record cooldown =
  interval :: real
  last_at :: "real option"

definition new_cooldown :: "real \<Rightarrow> cooldown" where
  "new_cooldown interval_seconds = \<lparr>interval = interval_seconds, last_at = None\<rparr>"

definition claim :: "real \<Rightarrow> cooldown \<Rightarrow> bool \<times> cooldown" where
  "claim now c =
     (if interval c \<le> 0 then (True, c)
      else if (case last_at c of None \<Rightarrow> False | Some l \<Rightarrow> now - l < interval c) then (False, c)
      else (True, c\<lparr>last_at := Some now\<rparr>))"

interpretation cooldown_gate: rate_gate claim i last_at "\<lambda>c. interval c = i \<and> 0 < i"
  for i
  by unfold_locales (auto simp: claim_def split: if_splits option.splits)

text \<open>
  A cooldown with a positive interval admits two requests only if they are at least the
  interval apart, over any sequence of requests and from any state; so in a stretch of time
  \<open>[a, b]\<close> it admits at most one more request than the number of whole intervals it spans.
\<close>

theorem cooldown_spacing:
  assumes "0 < interval c" and "\<forall>t \<in> set ts. a \<le> t \<and> t \<le> b"
  shows "spaced (interval c) (granted claim c ts) \<and>
    (granted claim c ts = [] \<or> real (length (granted claim c ts) - 1) * interval c \<le> b - a)"
  using cooldown_gate.granted_spaced [of c "interval c" ts]
    cooldown_gate.granted_count [of c "interval c" ts a b] assms
  by auto

theorem cooldown_spacing_witness:
  "spaced 12 (granted claim (new_cooldown 12) [100, 105, 113, 130]) \<and>
   granted claim (new_cooldown 12) [100, 105, 113, 130] = [100, 113, 130]"
  using cooldown_spacing [of "new_cooldown 12" "[100, 105, 113, 130]" 100 130]
  by (simp add: new_cooldown_def claim_def)

section \<open>Advertiser\<close>

record advertiser =
  enabled :: bool
  flood :: bool
  advert_interval :: int
  advert_cooldown :: int
  last_sent_at :: real

definition new_advertiser :: "bool \<Rightarrow> bool \<Rightarrow> int \<Rightarrow> int \<Rightarrow> advertiser" where
  "new_advertiser en fl interval_seconds cooldown_seconds =
     \<lparr>enabled = en, flood = fl, advert_interval = interval_seconds,
      advert_cooldown = cooldown_seconds, last_sent_at = 0\<rparr>"

text \<open>The guard of \<open>send_if_due\<close>, evaluated before its \<open>await\<close>.\<close>

definition advert_due :: "real \<Rightarrow> advertiser \<Rightarrow> bool" where
  "advert_due now a \<longleftrightarrow> enabled a \<and> \<not> now - last_sent_at a < of_int (advert_cooldown a)"

text \<open>
  \<open>_send\<close> from the moment the transmission has returned: \<open>ok\<close> is false when it raised,
  and then the stamp is left alone.
\<close>

definition advert_sent :: "real \<Rightarrow> bool \<Rightarrow> advertiser \<Rightarrow> advertiser" where
  "advert_sent done_at ok a = (if ok then a\<lparr>last_sent_at := done_at\<rparr> else a)"

text \<open>\<open>send_if_due\<close> run to completion, with a transmission that takes no time.\<close>

definition send_if_due :: "real \<Rightarrow> advertiser \<Rightarrow> bool \<times> advertiser" where
  "send_if_due now a = (if advert_due now a then (True, advert_sent now True a) else (False, a))"

interpretation advert_gate: rate_gate send_if_due "of_int cd" "\<lambda>a. Some (last_sent_at a)"
    "\<lambda>a. enabled a \<and> advert_cooldown a = cd \<and> 0 \<le> cd"
  for cd
  by unfold_locales (auto simp: send_if_due_def advert_due_def advert_sent_def split: if_splits)

text \<open>Overlapping calls: a call begins (its guard is evaluated) and later finishes.\<close>

datatype adv_event = Begin nat real | Finish nat real bool

record adv_state =
  adv :: advertiser
  in_flight :: "nat list"
  transmitted :: "real list"

fun adv_step :: "adv_state \<Rightarrow> adv_event \<Rightarrow> adv_state" where
  "adv_step s (Begin task now) =
     (if advert_due now (adv s) then s\<lparr>in_flight := task # in_flight s\<rparr> else s)"
| "adv_step s (Finish task done_at ok) =
     (if task \<in> set (in_flight s)
      then s\<lparr>in_flight := removeAll task (in_flight s),
             adv := advert_sent done_at ok (adv s),
             transmitted := transmitted s @ (if ok then [done_at] else [])\<rparr>
      else s)"

fun adv_run :: "adv_state \<Rightarrow> adv_event list \<Rightarrow> adv_state" where
  "adv_run s [] = s"
| "adv_run s (e # es) = adv_run (adv_step s e) es"

text \<open>
  Adverts of calls that do not overlap are at least the cooldown apart; and a disabled
  advertiser never transmits, whatever the calls.
\<close>

theorem advert_spacing:
  assumes "0 \<le> advert_cooldown a"
  shows "spaced (of_int (advert_cooldown a)) (granted send_if_due a ts) \<and>
    (enabled a \<or> granted send_if_due a ts = [])"
proof (cases "enabled a")
  case True
  then show ?thesis
    using advert_gate.granted_spaced [of a "advert_cooldown a" ts] assms by simp
next
  case False
  then have "granted send_if_due a ts = []"
    by (induction ts) (simp_all add: send_if_due_def advert_due_def)
  with False show ?thesis by (simp add: spaced_def)
qed

theorem advert_spacing_witness:
  "spaced 300 (granted send_if_due (new_advertiser True True 300 300) [1000, 1100, 1350])"
  using advert_spacing [of "new_advertiser True True 300 300" "[1000, 1100, 1350]"]
  by (simp add: new_advertiser_def)

text \<open>
  Calls that overlap are not held to the cooldown: the guard is read before the transmission
  is awaited and the stamp is written after it, so two calls that begin while an earlier one is
  still waiting for the send gate all transmit. For every enabled advertiser there are two calls
  whose adverts go out less than two seconds apart.
\<close>

theorem advert_overlap:
  assumes "enabled a"
  shows "\<exists>now. transmitted (adv_run \<lparr>adv = a, in_flight = [], transmitted = []\<rparr>
      [Begin 1 now, Begin 2 now, Finish 1 (now + 1) True, Finish 2 (now + 2) True]) = [now + 1, now + 2]"
proof -
  let ?now = "last_sent_at a + \<bar>of_int (advert_cooldown a)\<bar>"
  have "advert_due ?now a" using assms by (simp add: advert_due_def)
  then show ?thesis by (intro exI [of _ ?now]) (simp add: advert_sent_def)
qed

theorem advert_overlap_witness:
  "\<exists>now. transmitted (adv_run \<lparr>adv = new_advertiser True True 300 300, in_flight = [], transmitted = []\<rparr>
      [Begin 1 now, Begin 2 now, Finish 1 (now + 1) True, Finish 2 (now + 2) True]) = [now + 1, now + 2]"
  by (rule advert_overlap) (simp add: new_advertiser_def)

section \<open>The advertiser's timer\<close>

text \<open>
  \<open>start\<close> and \<open>stop\<close>: at most one timer task, and none when adverts are disabled. \<open>advert_loop\<close> is the task
  by itself: it sleeps for the interval and attempts an advert, round by round; \<open>rounds\<close> gives for each round how
  long a transmission in it takes and whether it succeeds. It returns when adverts went out.
\<close>

record advert_task =
  at_adv :: advertiser
  at_running :: bool

definition advert_start :: "advert_task \<Rightarrow> advert_task" where
  "advert_start t = (if \<not> enabled (at_adv t) then t else if at_running t then t else t\<lparr>at_running := True\<rparr>)"

definition advert_stop :: "advert_task \<Rightarrow> advert_task" where
  "advert_stop t = (if at_running t then t\<lparr>at_running := False\<rparr> else t)"

fun advert_loop :: "real \<Rightarrow> (real \<times> bool) list \<Rightarrow> advertiser \<Rightarrow> real list \<times> advertiser" where
  "advert_loop now [] a = ([], a)"
| "advert_loop now ((took, ok) # rounds) a =
     (let t = now + of_int (advert_interval a)
      in if advert_due t a
         then (case advert_loop (t + took) rounds (advert_sent (t + took) ok a) of
                 (sent, a') \<Rightarrow> (if ok then (t + took) # sent else sent, a'))
         else advert_loop t rounds a)"

lemma advert_loop_after:
  assumes "enabled a" and "advert_cooldown a \<le> advert_interval a" and "0 \<le> advert_interval a"
    and "last_sent_at a + of_int (advert_cooldown a) \<le> now + of_int (advert_interval a)"
    and "list_all (\<lambda>(took, ok). 0 \<le> took) rounds"
  shows "length (fst (advert_loop now rounds a)) = length (filter snd rounds) \<and>
    list_all (\<lambda>t. now + of_int (advert_interval a) \<le> t) (fst (advert_loop now rounds a)) \<and>
    spaced (of_int (advert_interval a)) (fst (advert_loop now rounds a))"
  using assms
proof (induction now rounds a rule: advert_loop.induct)
  case (2 now took ok rounds a)
  let ?t = "now + of_int (advert_interval a)"
  let ?a = "advert_sent (?t + took) ok a"
  have due: "advert_due ?t a" using 2(3,6) by (simp add: advert_due_def)
  have same: "enabled ?a" "advert_cooldown ?a = advert_cooldown a" "advert_interval ?a = advert_interval a"
    using 2(3) by (simp_all add: advert_sent_def)
  have "real_of_int (advert_cooldown a) \<le> real_of_int (advert_interval a)" using 2(4) by simp
  then have "last_sent_at ?a + of_int (advert_cooldown ?a) \<le> (?t + took) + of_int (advert_interval ?a)"
    using 2(5,6,7) same by (auto simp: advert_sent_def)
  with 2(1) [OF refl due] 2(4,5,7) same
  have ih: "length (fst (advert_loop (?t + took) rounds ?a)) = length (filter snd rounds)"
    "list_all (\<lambda>t. ?t + took + of_int (advert_interval a) \<le> t) (fst (advert_loop (?t + took) rounds ?a))"
    "spaced (of_int (advert_interval a)) (fst (advert_loop (?t + took) rounds ?a))" by simp_all
  have "0 \<le> took" using 2(7) by simp
  then show ?case
    using due ih 2(5) by (cases "advert_loop (?t + took) rounds ?a") (auto simp: Let_def spaced_def list_all_iff)
qed (simp add: spaced_def)

text \<open>
  The timer is regular: with a cooldown no longer than the interval, and nothing else sending adverts, every round
  sends one, unless its transmission fails, and they are at least an interval apart; starting it
  twice is starting it once, and when disabled it never runs.
\<close>

theorem advert_timer_regular:
  assumes "enabled a" and "advert_cooldown a \<le> advert_interval a" and "0 \<le> advert_interval a"
    and "last_sent_at a + of_int (advert_cooldown a) \<le> now + of_int (advert_interval a)"
    and "list_all (\<lambda>(took, ok). 0 \<le> took) rounds"
  shows "length (fst (advert_loop now rounds a)) = length (filter snd rounds) \<and>
    spaced (of_int (advert_interval a)) (fst (advert_loop now rounds a)) \<and>
    advert_start (advert_start t) = advert_start t \<and> at_running (advert_stop t) = False"
  using advert_loop_after [OF assms] by (simp add: advert_start_def advert_stop_def)

theorem advert_timer_regular_witness:
  "fst (advert_loop 1000 [(1, True), (2, False), (0, True)] (new_advertiser True True 300 300)) = [1301, 1903] \<and>
   length (fst (advert_loop 1000 [(1, True), (2, False), (0, True)] (new_advertiser True True 300 300))) = 2"
  using advert_timer_regular [of "new_advertiser True True 300 300" 1000 "[(1, True), (2, False), (0, True)]"]
  by (simp add: new_advertiser_def advert_due_def advert_sent_def Let_def)

end
