(* ===== verification/Session_State.thy ===== *)
theory Session_State
  imports Zork_Prelude "HOL-Library.Multiset"
begin

text \<open>
  The registry of sessions and watchers, \<^verbatim>\<open>src/zorkbot/src/zorkbot/session_state.py\<close>, and the
  calls it makes on the event sink (\<^verbatim>\<open>admin/events.py\<close>, the protocol \<open>EventSink\<close>).

  The dictionaries are association lists in insertion order; a \<open>SessionRecord\<close> is stored by
  value under its player and updated there, which is what mutating the shared object does as
  long as it is registered. The \<open>watchers\<close> set is a list without duplicates; its order is not
  significant. \<open>sink\<close> is the sequence of calls made on the event sink so far: the sink is one
  object shared by the registry, the bot and the runner, and what it does with the calls is
  the subject of other theories.

  \<open>ss_inv\<close> is the consistency of the four tables, \<open>exclusive\<close> the rule that nobody plays
  and watches at once. \<open>status\<close> abstracts the tables to one status per player, and
  \<open>lobby_spec\<close> is the abstract machine the registry refines when it is used under the guards
  of \<open>active_state\<close>.
\<close>

section \<open>State\<close>

record session_record =
  num :: int
  player_id :: string
  player_name :: string
  started_at :: real
  started_wall_at :: real
  watchers :: "string list"

datatype sink_event =
    Message_rx string "int option" "string option" nat
  | Message_tx string "int option" "string option" nat bool "bool option"
  | Command_event "string option" string string "int option" bool "string option"
  | Session_started session_record
  | Session_ended session_record string
  | Watchers_changed session_record
  | Player_seen string "string option"
  | Transcript int string "string option" string

record session_state =
  max_watchers :: int
  sessions :: "(string \<times> session_record) list"
  num_to_player :: "(int \<times> string) list"
  watching :: "(string \<times> int) list"
  next_num :: int
  sink :: "sink_event list"

definition new_session_state :: "int \<Rightarrow> session_state" where
  "new_session_state max_watchers_per_session =
     \<lparr>max_watchers = max_watchers_per_session, sessions = [], num_to_player = [],
      watching = [], next_num = 1, sink = []\<rparr>"

definition emit :: "sink_event \<Rightarrow> session_state \<Rightarrow> session_state" where
  "emit ev st = st\<lparr>sink := sink st @ [ev]\<rparr>"

section \<open>Session lifecycle\<close>

definition add_session ::
  "real \<Rightarrow> real \<Rightarrow> string \<Rightarrow> string \<Rightarrow> session_state \<Rightarrow> session_record \<times> session_state" where
  "add_session monotonic wall pid pname st =
     (let n = next_num st;
          record' = \<lparr>num = n, player_id = pid, player_name = pname, started_at = monotonic,
                     started_wall_at = wall, watchers = []\<rparr>
      in (record',
          emit (Session_started record')
            (st\<lparr>next_num := n + 1,
                sessions := AList.update pid record' (sessions st),
                num_to_player := AList.update n pid (num_to_player st)\<rparr>)))"

definition remove_session ::
  "string \<Rightarrow> string \<Rightarrow> session_state \<Rightarrow> session_record option \<times> session_state" where
  "remove_session pid reason st =
     (case map_of (sessions st) pid of
        None \<Rightarrow> (None, st)
      | Some r \<Rightarrow>
          (Some r,
           emit (Session_ended r reason)
             (st\<lparr>sessions := AList.delete pid (sessions st),
                 num_to_player := AList.delete (num r) (num_to_player st),
                 watching := fold AList.delete (watchers r) (watching st)\<rparr>)))"

definition get_session :: "string \<Rightarrow> session_state \<Rightarrow> session_record option" where
  "get_session pid st = map_of (sessions st) pid"

definition get_session_by_num :: "int \<Rightarrow> session_state \<Rightarrow> session_record option" where
  "get_session_by_num n st =
     (case map_of (num_to_player st) n of
        None \<Rightarrow> None
      | Some pid \<Rightarrow> map_of (sessions st) pid)"

definition all_sessions :: "session_state \<Rightarrow> session_record list" where
  "all_sessions st = map snd (sessions st)"

section \<open>Watcher lifecycle\<close>

definition add_watcher :: "string \<Rightarrow> int \<Rightarrow> session_state \<Rightarrow> string option \<times> session_state" where
  "add_watcher watcher_id session_num st =
     (case get_session_by_num session_num st of
        None \<Rightarrow> (Some (''Zork I Session #'' @ str_int session_num @ '' is not active.''), st)
      | Some r \<Rightarrow>
          if max_watchers st \<le> int (length (watchers r))
          then (Some (''Zork I Session #'' @ str_int session_num @
                  '' already has the maximum number of watchers.''), st)
          else
            (let r' = r\<lparr>watchers := List.insert watcher_id (watchers r)\<rparr>
             in (None,
                 emit (Watchers_changed r')
                   (st\<lparr>sessions := AList.update (player_id r) r' (sessions st),
                       watching := AList.update watcher_id session_num (watching st)\<rparr>))))"

definition remove_watcher :: "string \<Rightarrow> session_state \<Rightarrow> int option \<times> session_state" where
  "remove_watcher watcher_id st =
     (case map_of (watching st) watcher_id of
        None \<Rightarrow> (None, st)
      | Some n \<Rightarrow>
          (let st1 = st\<lparr>watching := AList.delete watcher_id (watching st)\<rparr>
           in case get_session_by_num n st1 of
                None \<Rightarrow> (Some n, st1)
              | Some r \<Rightarrow>
                  (let r' = r\<lparr>watchers := removeAll watcher_id (watchers r)\<rparr>
                   in (Some n,
                       emit (Watchers_changed r')
                         (st1\<lparr>sessions := AList.update (player_id r) r' (sessions st1)\<rparr>)))))"

definition watching_session :: "string \<Rightarrow> session_state \<Rightarrow> int option" where
  "watching_session watcher_id st = map_of (watching st) watcher_id"

definition all_watchers :: "session_state \<Rightarrow> (string \<times> int) list" where
  "all_watchers st = watching st"

section \<open>State queries\<close>

definition active_state :: "string \<Rightarrow> session_state \<Rightarrow> string" where
  "active_state pid st =
     (if map_of (sessions st) pid \<noteq> None then ''playing''
      else if map_of (watching st) pid \<noteq> None then ''watching''
      else ''none'')"

definition watchers_for_session :: "int \<Rightarrow> session_state \<Rightarrow> string list" where
  "watchers_for_session n st =
     (case get_session_by_num n st of None \<Rightarrow> [] | Some r \<Rightarrow> watchers r)"

section \<open>The invariant\<close>

text \<open>
  The tables as maps: sessions \<open>S\<close>, the reverse index \<open>N\<close>, who watches what \<open>W\<close>,
  with the next session number \<open>nx\<close> and the limit of watchers \<open>mx\<close>.
\<close>

definition consistent ::
  "(string \<rightharpoonup> session_record) \<Rightarrow> (int \<rightharpoonup> string) \<Rightarrow> (string \<rightharpoonup> int) \<Rightarrow> int \<Rightarrow> int \<Rightarrow> bool" where
  "consistent S N W nx mx \<longleftrightarrow>
     (\<forall>p r. S p = Some r \<longrightarrow>
        player_id r = p \<and> N (num r) = Some p \<and> 1 \<le> num r \<and> num r < nx \<and>
        distinct (watchers r) \<and> int (length (watchers r)) \<le> max 0 mx) \<and>
     (\<forall>n p. N n = Some p \<longrightarrow> (\<exists>r. S p = Some r \<and> num r = n)) \<and>
     (\<forall>w n. W w = Some n \<longleftrightarrow> (\<exists>p r. S p = Some r \<and> num r = n \<and> w \<in> set (watchers r)))"

definition ss_inv :: "session_state \<Rightarrow> bool" where
  "ss_inv st \<longleftrightarrow>
     distinct (map fst (sessions st)) \<and> distinct (map fst (num_to_player st)) \<and>
     distinct (map fst (watching st)) \<and> 1 \<le> next_num st \<and>
     consistent (map_of (sessions st)) (map_of (num_to_player st)) (map_of (watching st))
       (next_num st) (max_watchers st)"

definition exclusive :: "session_state \<Rightarrow> bool" where
  "exclusive st \<longleftrightarrow> (\<forall>p. map_of (sessions st) p = None \<or> map_of (watching st) p = None)"

section \<open>Preservation\<close>

lemma emit_fields [simp]:
  "max_watchers (emit ev st) = max_watchers st" "sessions (emit ev st) = sessions st"
  "num_to_player (emit ev st) = num_to_player st" "watching (emit ev st) = watching st"
  "next_num (emit ev st) = next_num st" "sink (emit ev st) = sink st @ [ev]"
  by (simp_all add: emit_def)

lemma ss_inv_emit [simp]: "ss_inv (emit ev st) = ss_inv st"
  by (simp add: ss_inv_def)

lemma exclusive_emit [simp]: "exclusive (emit ev st) = exclusive st"
  by (simp add: exclusive_def)

lemma consistentD:
  assumes "consistent S N W nx mx"
  shows "S p = Some r \<Longrightarrow> player_id r = p" and "S p = Some r \<Longrightarrow> N (num r) = Some p"
    and "S p = Some r \<Longrightarrow> 1 \<le> num r" and "S p = Some r \<Longrightarrow> num r < nx"
    and "S p = Some r \<Longrightarrow> distinct (watchers r)"
    and "S p = Some r \<Longrightarrow> int (length (watchers r)) \<le> max 0 mx"
    and "N n = Some p \<Longrightarrow> \<exists>r. S p = Some r \<and> num r = n"
    and "W w = Some n \<longleftrightarrow> (\<exists>p r. S p = Some r \<and> num r = n \<and> w \<in> set (watchers r))"
  using assms unfolding consistent_def by blast+

lemma consistent_num_unique:
  assumes "consistent S N W nx mx" "S p = Some r" "S q = Some r'" "num r = num r'"
  shows "p = q"
  using consistentD(2) [OF assms(1,2)] consistentD(2) [OF assms(1,3)] assms(4) by simp

lemma consistent_fresh:
  assumes "consistent S N W nx mx"
  shows "N nx = None"
  using consistentD(4,7) [OF assms] by (metis less_irrefl not_None_eq)

lemma consistent_add:
  assumes c: "consistent S N W nx mx" and free: "S pid = None" and "1 \<le> nx"
    and r: "player_id r = pid" "num r = nx" "watchers r = []"
  shows "consistent (S(pid \<mapsto> r)) (N(nx \<mapsto> pid)) W (nx + 1) mx"
proof -
  note d = consistentD [OF c] and f = consistent_fresh [OF c]
  have "player_id r' = p \<and> (N(nx \<mapsto> pid)) (num r') = Some p \<and> 1 \<le> num r' \<and> num r' < nx + 1 \<and>
      distinct (watchers r') \<and> int (length (watchers r')) \<le> max 0 mx"
    if "(S(pid \<mapsto> r)) p = Some r'" for p r'
    using that d(1-6) [of p r'] r assms(3) by (cases "p = pid") auto
  moreover have "\<exists>r'. (S(pid \<mapsto> r)) p = Some r' \<and> num r' = n" if "(N(nx \<mapsto> pid)) n = Some p" for n p
    using that d(7) [of n p] free r by (cases "n = nx") auto
  moreover have "W w = Some n \<longleftrightarrow>
      (\<exists>p r'. (S(pid \<mapsto> r)) p = Some r' \<and> num r' = n \<and> w \<in> set (watchers r'))" for w n
    unfolding d(8) using free r by (metis empty_iff fun_upd_apply list.set(1) option.distinct(1) option.inject)
  ultimately show ?thesis unfolding consistent_def by blast
qed

lemma consistent_remove:
  assumes c: "consistent S N W nx mx" and r: "S pid = Some r"
  shows "consistent (S(pid := None)) (N(num r := None)) (\<lambda>w. if w \<in> set (watchers r) then None else W w) nx mx"
proof -
  note d = consistentD [OF c] and u = consistent_num_unique [OF c]
  have watched: "W w = Some (num r) \<longleftrightarrow> w \<in> set (watchers r)" for w
    unfolding d(8) using r u by (metis option.inject)
  have 1: "player_id r' = p \<and> (N(num r := None)) (num r') = Some p \<and> 1 \<le> num r' \<and> num r' < nx \<and>
      distinct (watchers r') \<and> int (length (watchers r')) \<le> max 0 mx"
    if "(S(pid := None)) p = Some r'" for p r'
    using that d(1-6) [of p r'] u [OF r, of p r'] by (auto split: if_splits)
  have 2: "\<exists>r'. (S(pid := None)) p = Some r' \<and> num r' = n" if "(N(num r := None)) n = Some p" for n p
    using that d(7) [of n p] d(2) [OF r] r by (auto split: if_splits)
  have 3: "(if w \<in> set (watchers r) then None else W w) = Some n \<longleftrightarrow>
      (\<exists>p r'. (S(pid := None)) p = Some r' \<and> num r' = n \<and> w \<in> set (watchers r'))" (is "?L = ?R") for w n
  proof
    assume ?L
    then have w: "w \<notin> set (watchers r)" "W w = Some n" by (auto split: if_splits)
    then obtain p r' where "S p = Some r'" "num r' = n" "w \<in> set (watchers r')" unfolding d(8) by blast
    with w r show ?R by (intro exI [of _ p] exI [of _ r']) auto
  next
    assume ?R
    then obtain p r' where p: "p \<noteq> pid" "S p = Some r'" "num r' = n" "w \<in> set (watchers r')"
      by (auto split: if_splits)
    then have "W w = Some n" unfolding d(8) by blast
    moreover have "n \<noteq> num r" using u [OF p(2) r] p by auto
    ultimately show ?L using watched [of w] by auto
  qed
  show ?thesis unfolding consistent_def using 1 2 3 by blast
qed

lemma consistent_rewatch:
  assumes c: "consistent S N W nx mx" and r: "S pid = Some r"
    and r': "player_id r' = pid" "num r' = num r" "distinct (watchers r')"
      "int (length (watchers r')) \<le> max 0 mx"
    and W': "\<And>v. v \<noteq> w \<Longrightarrow> W' v = W v \<and> (v \<in> set (watchers r') \<longleftrightarrow> v \<in> set (watchers r))"
      "\<And>n. W' w = Some n \<longleftrightarrow> n = num r \<and> w \<in> set (watchers r')"
    and only: "\<And>q s. S q = Some s \<Longrightarrow> w \<in> set (watchers s) \<Longrightarrow> q = pid"
  shows "consistent (S(pid \<mapsto> r')) N W' nx mx"
proof -
  note d = consistentD [OF c]
  have 1: "player_id s = p \<and> N (num s) = Some p \<and> 1 \<le> num s \<and> num s < nx \<and>
      distinct (watchers s) \<and> int (length (watchers s)) \<le> max 0 mx"
    if "(S(pid \<mapsto> r')) p = Some s" for p s
    using that d(1-6) [of p s] d(1-6) [OF r] r' by (auto split: if_splits)
  have 2: "\<exists>s. (S(pid \<mapsto> r')) p = Some s \<and> num s = n" if "N n = Some p" for n p
    using d(7) [OF that] r r' by auto
  have 3: "W' v = Some n \<longleftrightarrow> (\<exists>p s. (S(pid \<mapsto> r')) p = Some s \<and> num s = n \<and> v \<in> set (watchers s))"
    (is "?L = ?R") for v n
  proof (cases "v = w")
    case True
    have "?R \<longleftrightarrow> num r' = n \<and> w \<in> set (watchers r')"
      using True only by (auto split: if_splits)
    then show ?thesis using True W'(2) [of n] r'(2) by auto
  next
    case False
    then have "?R \<longleftrightarrow> (\<exists>p s. S p = Some s \<and> num s = n \<and> v \<in> set (watchers s))"
      using W'(1) [OF False] r r' by (metis (no_types, lifting) fun_upd_apply option.inject)
    then show ?thesis using W'(1) [OF False] d(8) [of v n] by simp
  qed
  show ?thesis unfolding consistent_def using 1 2 3 by blast
qed

lemma consistent_watch:
  assumes c: "consistent S N W nx mx" and r: "S pid = Some r" and w: "W w = None"
    and room: "int (length (watchers r)) < mx"
  shows "consistent (S(pid \<mapsto> r\<lparr>watchers := List.insert w (watchers r)\<rparr>)) N (W(w \<mapsto> num r)) nx mx"
proof -
  note d = consistentD [OF c]
  have none: "w \<notin> set (watchers s)" if "S q = Some s" for q s
    using w d(8) [of w "num s"] that by auto
  show ?thesis
    by (rule consistent_rewatch [OF c r, where w = w])
      (use d(1,5,6) [OF r] room none [OF r] none in \<open>auto simp: List.insert_def\<close>)
qed

lemma consistent_unwatch:
  assumes c: "consistent S N W nx mx" and r: "S pid = Some r" and w: "W w = Some (num r)"
  shows "consistent (S(pid \<mapsto> r\<lparr>watchers := removeAll w (watchers r)\<rparr>)) N (W(w := None)) nx mx"
proof -
  note d = consistentD [OF c]
  have only: "q = pid" if "S q = Some s" "w \<in> set (watchers s)" for q s
    using d(8) [of w "num s"] w that consistent_num_unique [OF c that(1) r] by auto
  have "int (length (removeAll w (watchers r))) \<le> max 0 mx"
    using d(6) [OF r] length_removeAll_less_eq [of w "watchers r"] by linarith
  then show ?thesis
    by (intro consistent_rewatch [OF c r, where w = w])
      (use d(1,5) [OF r] only in \<open>auto simp: distinct_removeAll\<close>)
qed

lemma ss_inv_consistent:
  "ss_inv st \<Longrightarrow> consistent (map_of (sessions st)) (map_of (num_to_player st)) (map_of (watching st))
     (next_num st) (max_watchers st)"
  by (simp add: ss_inv_def)

lemma ss_inv_new [simp]: "ss_inv (new_session_state m)"
  by (simp add: ss_inv_def new_session_state_def consistent_def)

lemma get_session_by_num_iff:
  assumes "ss_inv st"
  shows "get_session_by_num n st = Some r \<longleftrightarrow> (\<exists>p. map_of (sessions st) p = Some r \<and> num r = n)"
  using consistentD(2,7) [OF ss_inv_consistent [OF assms]]
  by (fastforce simp: get_session_by_num_def simp del: map_of_eq_Some_iff split: option.splits)

lemma get_session_by_num_upd [simp]:
  "get_session_by_num n (st\<lparr>watching := x\<rparr>) = get_session_by_num n st"
  "get_session_by_num n (emit ev st) = get_session_by_num n st"
  by (simp_all add: get_session_by_num_def cong: option.case_cong)

lemma ss_inv_add_session:
  assumes "ss_inv st" and "map_of (sessions st) pid = None"
  shows "ss_inv (snd (add_session now wall pid pname st))"
  using assms
  by (simp add: ss_inv_def add_session_def Let_def dict_simps distinct_dict consistent_add)

lemma ss_inv_remove_session:
  assumes "ss_inv st"
  shows "ss_inv (snd (remove_session pid reason st))"
proof (cases "map_of (sessions st) pid")
  case None
  with assms show ?thesis by (simp add: remove_session_def)
next
  case (Some r)
  with assms show ?thesis
    unfolding ss_inv_def remove_session_def
    by (simp add: dict_simps distinct_dict consistent_remove del: map_of_eq_Some_iff)
qed

lemma ss_inv_add_watcher:
  assumes inv: "ss_inv st" and idle: "map_of (watching st) w = None"
  shows "ss_inv (snd (add_watcher w n st))"
proof (cases "get_session_by_num n st")
  case (Some r)
  then obtain p where p: "map_of (sessions st) p = Some r" "num r = n"
    using get_session_by_num_iff [OF inv] by blast
  then have "player_id r = p" using consistentD(1) [OF ss_inv_consistent [OF inv]] by blast
  with Some p inv idle show ?thesis
    unfolding ss_inv_def add_watcher_def Let_def
    using consistent_watch [OF ss_inv_consistent [OF inv] p(1) idle]
    by (simp add: dict_simps distinct_dict not_le del: map_of_eq_Some_iff)
qed (simp add: add_watcher_def inv)

lemma ss_inv_remove_watcher:
  assumes inv: "ss_inv st"
  shows "ss_inv (snd (remove_watcher w st))"
proof (cases "map_of (watching st) w")
  case (Some n)
  then obtain p r where p: "map_of (sessions st) p = Some r" "num r = n"
    using consistentD(8) [OF ss_inv_consistent [OF inv]] by blast
  then have pid: "player_id r = p" using consistentD(1) [OF ss_inv_consistent [OF inv]] by blast
  have "get_session_by_num n st = Some r"
    using get_session_by_num_iff [OF inv] p by blast
  with Some p pid inv show ?thesis
    unfolding ss_inv_def remove_watcher_def Let_def
    using consistent_unwatch [OF ss_inv_consistent [OF inv] p(1), of w]
    by (simp add: dict_simps distinct_dict del: map_of_eq_Some_iff)
qed (simp add: remove_watcher_def inv)

section \<open>Abstract view: one status per player\<close>

datatype player_status = Idle | Playing int | Watching int

record lobby =
  who :: "string \<Rightarrow> player_status"
  fresh :: int
  room :: int

definition status :: "session_state \<Rightarrow> string \<Rightarrow> player_status" where
  "status st p =
     (case map_of (sessions st) p of
        Some r \<Rightarrow> Playing (num r)
      | None \<Rightarrow> (case map_of (watching st) p of Some n \<Rightarrow> Watching n | None \<Rightarrow> Idle))"

definition lobby_view :: "session_state \<Rightarrow> lobby" where
  "lobby_view st = \<lparr>who = status st, fresh = next_num st, room = max_watchers st\<rparr>"

datatype lobby_op = Start string string real real | Stop string string | Watch string int | Unwatch string

text \<open>The registry used under the guards its callers apply.\<close>

fun lobby_step :: "lobby_op \<Rightarrow> session_state \<Rightarrow> session_state" where
  "lobby_step (Start p nm now wall) st =
     (if active_state p st = ''none'' then snd (add_session now wall p nm st) else st)"
| "lobby_step (Stop p reason) st = snd (remove_session p reason st)"
| "lobby_step (Watch w n) st = (if active_state w st = ''none'' then snd (add_watcher w n st) else st)"
| "lobby_step (Unwatch w) st =
     (if active_state w st = ''watching'' then snd (remove_watcher w st) else st)"

text \<open>The specification: what each request does to the statuses.\<close>

fun lobby_spec :: "lobby_op \<Rightarrow> lobby \<Rightarrow> lobby" where
  "lobby_spec (Start p nm now wall) l =
     (if who l p = Idle then l\<lparr>who := (who l)(p := Playing (fresh l)), fresh := fresh l + 1\<rparr> else l)"
| "lobby_spec (Stop p reason) l =
     (case who l p of
        Playing n \<Rightarrow> l\<lparr>who := (\<lambda>q. if who l q = Playing n \<or> who l q = Watching n then Idle else who l q)\<rparr>
      | _ \<Rightarrow> l)"
| "lobby_spec (Watch w n) l =
     (if who l w = Idle \<and> (\<exists>p. who l p = Playing n) \<and> int (card {v. who l v = Watching n}) < room l
      then l\<lparr>who := (who l)(w := Watching n)\<rparr> else l)"
| "lobby_spec (Unwatch w) l =
     (case who l w of Watching n \<Rightarrow> l\<lparr>who := (who l)(w := Idle)\<rparr> | _ \<Rightarrow> l)"

lemma active_state_status:
  "active_state p st = ''playing'' \<longleftrightarrow> (\<exists>n. status st p = Playing n)"
  "active_state p st = ''watching'' \<longleftrightarrow> (\<exists>n. status st p = Watching n)"
  "active_state p st = ''none'' \<longleftrightarrow> status st p = Idle"
  by (auto simp: active_state_def status_def split: option.splits)

lemma status_Playing: "status st p = Playing n \<longleftrightarrow> (\<exists>r. map_of (sessions st) p = Some r \<and> num r = n)"
  by (auto simp: status_def simp del: map_of_eq_Some_iff split: option.splits)

lemma status_Watching:
  "exclusive st \<Longrightarrow> status st p = Watching n \<longleftrightarrow> map_of (watching st) p = Some n"
  by (fastforce simp: status_def exclusive_def simp del: map_of_eq_Some_iff split: option.splits)

lemma status_Idle:
  "status st p = Idle \<longleftrightarrow> map_of (sessions st) p = None \<and> map_of (watching st) p = None"
  by (auto simp: status_def simp del: map_of_eq_Some_iff split: option.splits)

lemma status_emit [simp]: "status (emit ev st) = status st"
  by (simp add: status_def fun_eq_iff cong: option.case_cong)

lemma watchers_are_the_watching:
  assumes inv: "ss_inv st" and ex: "exclusive st" and r: "map_of (sessions st) p = Some r"
  shows "{v. status st v = Watching (num r)} = set (watchers r)"
    and "int (card {v. status st v = Watching (num r)}) = int (length (watchers r))"
proof -
  note d = consistentD [OF ss_inv_consistent [OF inv]]
  show *: "{v. status st v = Watching (num r)} = set (watchers r)"
    unfolding status_Watching [OF ex] d(8)
    using r consistent_num_unique [OF ss_inv_consistent [OF inv]] by (auto simp del: map_of_eq_Some_iff; fastforce)
  show "int (card {v. status st v = Watching (num r)}) = int (length (watchers r))"
    unfolding * using d(5) [OF r] by (simp add: distinct_card)
qed

lemma status_add_session:
  "status (snd (add_session now wall p nm st)) = (status st)(p := Playing (next_num st))"
  by (auto simp: fun_eq_iff status_def add_session_def Let_def dict_simps cong: option.case_cong)

lemma status_remove_session:
  assumes inv: "ss_inv st" and ex: "exclusive st"
  shows "status (snd (remove_session p reason st)) =
    (case status st p of
       Playing n \<Rightarrow> (\<lambda>q. if status st q = Playing n \<or> status st q = Watching n then Idle else status st q)
     | _ \<Rightarrow> status st)"
proof (cases "map_of (sessions st) p")
  case None
  then show ?thesis by (auto simp: remove_session_def status_def split: option.splits)
next
  case (Some r)
  then have sp: "status st p = Playing (num r)" by (simp add: status_def)
  have w: "status st q = Watching (num r) \<longleftrightarrow> q \<in> set (watchers r)" for q
    using watchers_are_the_watching(1) [OF inv ex Some] by blast
  have pl: "status st q = Playing (num r) \<longleftrightarrow> q = p" for q
    using Some consistent_num_unique [OF ss_inv_consistent [OF inv]] by (auto simp only: status_Playing)
  have *: "status (snd (remove_session p reason st)) q =
      (if q = p \<or> q \<in> set (watchers r) then Idle else status st q)" for q
  proof (cases "q = p")
    case True
    have "map_of (watching st) p = None"
      using Some ex unfolding exclusive_def by (metis option.distinct(1))
    then show ?thesis using Some True by (simp add: remove_session_def status_def dict_simps)
  next
    case False
    show ?thesis
    proof (cases "q \<in> set (watchers r)")
      case True
      then have "map_of (sessions st) q = None"
        using w [of q] status_Playing [of st q] by (cases "map_of (sessions st) q") (auto simp: status_def)
      then show ?thesis using Some False True by (simp add: remove_session_def status_def dict_simps)
    next
      case q: False
      then show ?thesis using Some False by (simp add: remove_session_def status_def dict_simps cong: option.case_cong)
    qed
  qed
  show ?thesis unfolding sp player_status.case fun_eq_iff * w pl by simp
qed

lemma status_add_watcher:
  assumes inv: "ss_inv st" and ex: "exclusive st" and idle: "status st w = Idle"
  shows "status (snd (add_watcher w n st)) =
    (if (\<exists>p. status st p = Playing n) \<and> int (card {v. status st v = Watching n}) < max_watchers st
     then (status st)(w := Watching n) else status st)"
proof (cases "get_session_by_num n st")
  case None
  then have "\<not> (\<exists>p. status st p = Playing n)"
    using get_session_by_num_iff [OF inv, of n] by (auto simp only: status_Playing)
  with None show ?thesis by (simp add: add_watcher_def)
next
  case (Some r)
  then obtain p where p: "map_of (sessions st) p = Some r" "num r = n"
    using get_session_by_num_iff [OF inv] by blast
  then have ply: "status st p = Playing n" by (simp add: status_def)
  have pid: "player_id r = p" using consistentD(1) [OF ss_inv_consistent [OF inv] p(1)] .
  have card: "int (card {v. status st v = Watching n}) = int (length (watchers r))"
    using watchers_are_the_watching(2) [OF inv ex p(1)] p(2) by simp
  have "status (snd (add_watcher w n st)) = (status st)(w := Watching n)"
    if "int (length (watchers r)) < max_watchers st"
    using that Some p pid idle
    by (auto simp: fun_eq_iff add_watcher_def Let_def status_def dict_simps
        simp del: map_of_eq_Some_iff split: option.splits if_splits)
  then show ?thesis
    using Some card ply by (auto simp: add_watcher_def not_le)
qed

lemma status_remove_watcher:
  assumes inv: "ss_inv st" and n: "map_of (watching st) w = Some n" and np: "map_of (sessions st) w = None"
  shows "status (snd (remove_watcher w st)) = (status st)(w := Idle)"
proof -
  obtain p r where p: "map_of (sessions st) p = Some r" "num r = n"
    using n consistentD(8) [OF ss_inv_consistent [OF inv]] by blast
  then have pid: "player_id r = p" using consistentD(1) [OF ss_inv_consistent [OF inv]] by blast
  have "get_session_by_num n st = Some r"
    using get_session_by_num_iff [OF inv] p by blast
  then show ?thesis
    using n np p pid
    by (auto simp: fun_eq_iff remove_watcher_def Let_def status_def dict_simps
        simp del: map_of_eq_Some_iff split: option.splits if_splits)
qed

lemma exclusive_add_session:
  "exclusive st \<Longrightarrow> map_of (watching st) p = None \<Longrightarrow> exclusive (snd (add_session now wall p nm st))"
  by (simp add: exclusive_def add_session_def Let_def dict_simps)

lemma exclusive_remove_session: "exclusive st \<Longrightarrow> exclusive (snd (remove_session p reason st))"
  by (auto simp: exclusive_def remove_session_def dict_simps split: option.splits)

lemma exclusive_add_watcher:
  assumes "ss_inv st" and "exclusive st" and "map_of (sessions st) w = None"
  shows "exclusive (snd (add_watcher w n st))"
proof (cases "get_session_by_num n st")
  case (Some r)
  then have p: "map_of (sessions st) (player_id r) = Some r"
    using get_session_by_num_iff [OF assms(1)] consistentD(1) [OF ss_inv_consistent [OF assms(1)]] by blast
  then have "w \<noteq> player_id r" using assms(3) by auto
  with Some p assms(2,3) show ?thesis
    by (auto simp: exclusive_def add_watcher_def Let_def dict_simps; metis option.distinct(1))
qed (simp add: add_watcher_def assms)

lemma exclusive_remove_watcher:
  assumes "ss_inv st" and "exclusive st"
  shows "exclusive (snd (remove_watcher w st))"
proof (cases "map_of (watching st) w")
  case (Some n)
  then obtain r where r: "get_session_by_num n st = Some r"
    using consistentD(8) [OF ss_inv_consistent [OF assms(1)]] get_session_by_num_iff [OF assms(1)] by blast
  then have p: "map_of (sessions st) (player_id r) = Some r"
    using get_session_by_num_iff [OF assms(1)] consistentD(1) [OF ss_inv_consistent [OF assms(1)]] by blast
  with Some r assms(2) show ?thesis
    by (auto simp: exclusive_def remove_watcher_def Let_def dict_simps; metis option.distinct(1))
qed (simp add: remove_watcher_def assms)

section \<open>The contract of the registry\<close>

definition ss_good :: "session_state \<Rightarrow> bool" where
  "ss_good st \<longleftrightarrow> ss_inv st \<and> exclusive st"

text \<open>
  A lobby machine refines the specification step by step. What the specification guarantees
  then holds of every state the machine reaches.
\<close>

definition lobby_wf :: "lobby \<Rightarrow> bool" where
  "lobby_wf l \<longleftrightarrow>
     (\<forall>w n. who l w = Watching n \<longrightarrow> (\<exists>p. who l p = Playing n)) \<and>
     (\<forall>p q n. who l p = Playing n \<longrightarrow> who l q = Playing n \<longrightarrow> p = q) \<and>
     (\<forall>p n. who l p = Playing n \<longrightarrow> n < fresh l) \<and>
     (\<forall>n. finite {v. who l v = Watching n} \<and> int (card {v. who l v = Watching n}) \<le> max 0 (room l))"

lemma lobby_wfI:
  assumes "\<And>w n. who l w = Watching n \<Longrightarrow> \<exists>p. who l p = Playing n"
    and "\<And>p q n. who l p = Playing n \<Longrightarrow> who l q = Playing n \<Longrightarrow> p = q"
    and "\<And>p n. who l p = Playing n \<Longrightarrow> n < fresh l"
    and "\<And>n. finite {v. who l v = Watching n} \<and> int (card {v. who l v = Watching n}) \<le> max 0 (room l)"
  shows "lobby_wf l"
  using assms unfolding lobby_wf_def by blast

lemma lobby_wfD:
  assumes "lobby_wf l"
  shows "who l w = Watching n \<Longrightarrow> \<exists>p. who l p = Playing n"
    and "who l p = Playing n \<Longrightarrow> who l q = Playing n \<Longrightarrow> p = q"
    and "who l p = Playing n \<Longrightarrow> n < fresh l"
    and "finite {v. who l v = Watching n}" and "int (card {v. who l v = Watching n}) \<le> max 0 (room l)"
  using assms unfolding lobby_wf_def by blast+

lemma lobby_wf_fewer_watchers:
  assumes "lobby_wf l" and "room l' = room l" and "\<And>v. who l' v = Watching n \<Longrightarrow> who l v = Watching n"
  shows "finite {v. who l' v = Watching n} \<and> int (card {v. who l' v = Watching n}) \<le> max 0 (room l')"
proof -
  have sub: "{v. who l' v = Watching n} \<subseteq> {v. who l v = Watching n}" using assms(3) by auto
  then have "card {v. who l' v = Watching n} \<le> card {v. who l v = Watching n}"
    using lobby_wfD(4) [OF assms(1)] card_mono by blast
  then show ?thesis
    using sub lobby_wfD(4,5) [OF assms(1), of n] assms(2) finite_subset by fastforce
qed

lemma lobby_wf_start:
  assumes "lobby_wf l" and "who l p = Idle"
  shows "lobby_wf (l\<lparr>who := (who l)(p := Playing (fresh l)), fresh := fresh l + 1\<rparr>)" (is "lobby_wf ?l")
proof (rule lobby_wfI)
  note d = lobby_wfD [OF assms(1)]
  show "\<exists>q. who ?l q = Playing n" if wn: "who ?l w = Watching n" for w n
  proof -
    obtain q where "who l q = Playing n" using wn d(1) [of w n] by (auto split: if_splits)
    with assms(2) show ?thesis by (intro exI [of _ q]) auto
  qed
  show "a = b" if "who ?l a = Playing n" "who ?l b = Playing n" for a b n
    using that d(2) [of a n b] d(3) [of a n] d(3) [of b n] by (auto split: if_splits)
  show "n < fresh ?l" if "who ?l a = Playing n" for a n
    using that d(3) [of a n] by (auto split: if_splits)
  show "finite {v. who ?l v = Watching n} \<and> int (card {v. who ?l v = Watching n}) \<le> max 0 (room ?l)" for n
    by (rule lobby_wf_fewer_watchers [OF assms(1)]) (auto split: if_splits)
qed

lemma lobby_wf_stop:
  assumes "lobby_wf l"
  shows "lobby_wf (l\<lparr>who := (\<lambda>q. if who l q = Playing k \<or> who l q = Watching k then Idle else who l q)\<rparr>)"
    (is "lobby_wf ?l")
proof (rule lobby_wfI)
  note d = lobby_wfD [OF assms]
  show "\<exists>q. who ?l q = Playing n" if "who ?l w = Watching n" for w n
  proof -
    have "n \<noteq> k" and "who l w = Watching n" using that by (auto split: if_splits)
    then obtain q where "who l q = Playing n" using d(1) by blast
    with \<open>n \<noteq> k\<close> show ?thesis by (intro exI [of _ q]) auto
  qed
  show "a = b" if "who ?l a = Playing n" "who ?l b = Playing n" for a b n
    using that d(2) by (auto split: if_splits)
  show "n < fresh ?l" if "who ?l a = Playing n" for a n
    using that d(3) [of a n] by (auto split: if_splits)
  show "finite {v. who ?l v = Watching n} \<and> int (card {v. who ?l v = Watching n}) \<le> max 0 (room ?l)" for n
    by (rule lobby_wf_fewer_watchers [OF assms]) (auto split: if_splits)
qed

lemma lobby_wf_watch:
  assumes "lobby_wf l" and "who l w = Idle" and "who l p = Playing k"
    and "int (card {v. who l v = Watching k}) < room l"
  shows "lobby_wf (l\<lparr>who := (who l)(w := Watching k)\<rparr>)" (is "lobby_wf ?l")
proof (rule lobby_wfI)
  note d = lobby_wfD [OF assms(1)]
  show "\<exists>q. who ?l q = Playing n" if vn: "who ?l v = Watching n" for v n
  proof -
    obtain q where "who l q = Playing n" using vn d(1) [of v n] assms(3) by (auto split: if_splits)
    with assms(2) show ?thesis by (intro exI [of _ q]) auto
  qed
  show "a = b" if "who ?l a = Playing n" "who ?l b = Playing n" for a b n
    using that d(2) by (auto split: if_splits)
  show "n < fresh ?l" if "who ?l a = Playing n" for a n
    using that d(3) [of a n] by (auto split: if_splits)
  show "finite {v. who ?l v = Watching n} \<and> int (card {v. who ?l v = Watching n}) \<le> max 0 (room ?l)" for n
  proof (cases "n = k")
    case True
    have "{v. who ?l v = Watching k} = insert w {v. who l v = Watching k}" by auto
    then show ?thesis using True d(4) [of k] assms(2,4) by (simp add: card_insert_if)
  next
    case False
    show ?thesis
      by (rule lobby_wf_fewer_watchers [OF assms(1)]) (use False in \<open>auto split: if_splits\<close>)
  qed
qed

lemma lobby_wf_unwatch:
  assumes "lobby_wf l" and "who l w = Watching k"
  shows "lobby_wf (l\<lparr>who := (who l)(w := Idle)\<rparr>)" (is "lobby_wf ?l")
proof (rule lobby_wfI)
  note d = lobby_wfD [OF assms(1)]
  show "\<exists>q. who ?l q = Playing n" if vn: "who ?l v = Watching n" for v n
  proof -
    obtain q where "who l q = Playing n" using vn d(1) [of v n] by (auto split: if_splits)
    with assms(2) show ?thesis by (intro exI [of _ q]) auto
  qed
  show "a = b" if "who ?l a = Playing n" "who ?l b = Playing n" for a b n
    using that d(2) by (auto split: if_splits)
  show "n < fresh ?l" if "who ?l a = Playing n" for a n
    using that d(3) [of a n] by (auto split: if_splits)
  show "finite {v. who ?l v = Watching n} \<and> int (card {v. who ?l v = Watching n}) \<le> max 0 (room ?l)" for n
    by (rule lobby_wf_fewer_watchers [OF assms(1)]) (auto split: if_splits)
qed

lemma lobby_wf_step:
  assumes "lobby_wf l"
  shows "lobby_wf (lobby_spec op l)"
  using assms lobby_wf_start [OF assms] lobby_wf_stop [OF assms] lobby_wf_watch [OF assms]
    lobby_wf_unwatch [OF assms]
  by (cases op) (auto split: player_status.splits)

locale lobby_machine =
  fixes step :: "lobby_op \<Rightarrow> 's \<Rightarrow> 's" and view :: "'s \<Rightarrow> lobby" and good :: "'s \<Rightarrow> bool"
  assumes step_good: "good s \<Longrightarrow> good (step op s)"
    and step_refines: "good s \<Longrightarrow> view (step op s) = lobby_spec op (view s)"
begin

lemma run_good: "good s \<Longrightarrow> good (fold step ops s)"
  by (induction ops arbitrary: s) (simp_all add: step_good)

lemma run_refines: "good s \<Longrightarrow> view (fold step ops s) = fold lobby_spec ops (view s)"
  by (induction ops arbitrary: s) (simp_all add: step_good step_refines)

lemma run_wf: "good s \<Longrightarrow> lobby_wf (view s) \<Longrightarrow> lobby_wf (view (fold step ops s))"
  by (induction ops arbitrary: s) (simp_all add: step_good step_refines lobby_wf_step)

end

lemma ss_good_step:
  assumes "ss_good st"
  shows "ss_good (lobby_step op st)"
proof -
  have idle: "map_of (sessions st) p = None \<and> map_of (watching st) p = None"
    if "active_state p st = ''none''" for p
    using that by (simp add: active_state_status(3) status_Idle)
  show ?thesis
    using assms idle unfolding ss_good_def
    by (cases op)
      (auto simp: ss_inv_add_session exclusive_add_session ss_inv_remove_session exclusive_remove_session
        ss_inv_add_watcher exclusive_add_watcher ss_inv_remove_watcher exclusive_remove_watcher)
qed

lemma lobby_params_step:
  "next_num (snd (add_session now wall p nm st)) = next_num st + 1"
  "max_watchers (snd (add_session now wall p nm st)) = max_watchers st"
  "next_num (snd (remove_session p reason st)) = next_num st"
  "max_watchers (snd (remove_session p reason st)) = max_watchers st"
  "next_num (snd (add_watcher w n st)) = next_num st"
  "max_watchers (snd (add_watcher w n st)) = max_watchers st"
  "next_num (snd (remove_watcher w st)) = next_num st"
  "max_watchers (snd (remove_watcher w st)) = max_watchers st"
  by (simp_all add: add_session_def remove_session_def add_watcher_def remove_watcher_def Let_def
      split: option.split)

lemma lobby_step_refines:
  assumes "ss_good st"
  shows "lobby_view (lobby_step op st) = lobby_spec op (lobby_view st)"
proof (cases op)
  case (Start p nm now wall)
  then show ?thesis
    by (simp add: lobby_view_def active_state_status(3) status_add_session lobby_params_step)
next
  case (Stop p reason)
  then show ?thesis
    using assms status_remove_session [of st p reason] unfolding ss_good_def
    by (auto simp: lobby_view_def lobby_params_step fun_eq_iff split: player_status.splits)
next
  case (Watch w n)
  then show ?thesis
    using assms status_add_watcher [of st w n] unfolding ss_good_def
    by (auto simp: lobby_view_def active_state_status(3) lobby_params_step)
next
  case (Unwatch w)
  show ?thesis
  proof (cases "status st w")
    case (Watching n)
    then have "map_of (watching st) w = Some n" "map_of (sessions st) w = None"
      by (auto simp: status_def split: option.splits)
    then show ?thesis
      using Unwatch assms Watching status_remove_watcher [of st w n] unfolding ss_good_def
      by (simp add: lobby_view_def active_state_status(2) lobby_params_step)
  qed (use Unwatch in \<open>simp_all add: lobby_view_def active_state_status(2)\<close>)
qed

interpretation registry: lobby_machine lobby_step lobby_view ss_good
  by unfold_locales (simp_all add: ss_good_step lobby_step_refines)

section \<open>What the event sink is told\<close>

definition started_nums :: "session_state \<Rightarrow> int list" where
  "started_nums st =
     concat (map (\<lambda>e. case e of Session_started r \<Rightarrow> [num r] | _ \<Rightarrow> []) (sink st))"

definition ended_nums :: "session_state \<Rightarrow> int list" where
  "ended_nums st =
     concat (map (\<lambda>e. case e of Session_ended r reason \<Rightarrow> [num r] | _ \<Rightarrow> []) (sink st))"

definition live_nums :: "session_state \<Rightarrow> int list" where
  "live_nums st = map num (all_sessions st)"

lemma alist_update_fresh: "map_of al k = None \<Longrightarrow> AList.update k v al = al @ [(k, v)]"
  by (induction al) (auto split: if_splits)

lemma map_num_update:
  "map_of al k = Some r \<Longrightarrow> num r' = num r \<Longrightarrow> map (num \<circ> snd) (AList.update k r' al) = map (num \<circ> snd) al"
  by (induction al) (auto split: if_splits)

lemma mset_num_delete:
  "distinct (map fst al) \<Longrightarrow> map_of al k = Some r \<Longrightarrow>
    add_mset (num r) (mset (map (num \<circ> snd) (AList.delete k al))) = mset (map (num \<circ> snd) al)"
proof (induction al)
  case (Cons kv al)
  show ?case
  proof (cases "fst kv = k")
    case True
    then have "AList.delete k al = al"
      using Cons.prems by (auto simp: AList.delete_eq filter_id_conv image_iff)
    then show ?thesis using True Cons.prems by (cases kv) simp
  next
    case False
    then show ?thesis using Cons by (cases kv) (auto simp: add_mset_commute)
  qed
qed simp

definition accounted :: "session_state \<Rightarrow> bool" where
  "accounted st \<longleftrightarrow>
     started_nums st = [1..next_num st - 1] \<and>
     mset (ended_nums st) + mset (live_nums st) = mset (started_nums st)"

lemma accounted_add_session:
  assumes "ss_inv st" and "accounted st" and "map_of (sessions st) p = None"
  shows "accounted (snd (add_session now wall p nm st))"
proof -
  have "[1..next_num st] = [1..next_num st - 1] @ [next_num st]"
    using assms(1) upto_rec2 [of 1 "next_num st"] by (simp add: ss_inv_def)
  then show ?thesis
    using assms(2,3) unfolding accounted_def started_nums_def ended_nums_def live_nums_def all_sessions_def
    by (simp add: add_session_def Let_def alist_update_fresh)
qed

lemma accounted_remove_session:
  assumes "ss_inv st" and "accounted st"
  shows "accounted (snd (remove_session p reason st))"
proof (cases "map_of (sessions st) p")
  case (Some r)
  let ?st' = "snd (remove_session p reason st)"
  have live: "add_mset (num r) (mset (live_nums ?st')) = mset (live_nums st)"
    using mset_num_delete [of "sessions st" p r] Some assms(1)
    by (simp add: live_nums_def all_sessions_def remove_session_def ss_inv_def del: map_of_eq_Some_iff)
  have "mset (ended_nums ?st') = add_mset (num r) (mset (ended_nums st))"
    and "started_nums ?st' = started_nums st" and "next_num ?st' = next_num st"
    using Some by (simp_all add: ended_nums_def started_nums_def remove_session_def del: map_of_eq_Some_iff)
  then show ?thesis
    using assms(2) live [symmetric] by (simp add: accounted_def)
qed (simp add: remove_session_def assms)

lemma accounted_watchers:
  assumes "ss_inv st" and "accounted st"
  shows "accounted (snd (add_watcher w n st))" and "accounted (snd (remove_watcher w st))"
proof -
  have upd: "map (num \<circ> snd) (AList.update (player_id r) r' (sessions st)) = map (num \<circ> snd) (sessions st)"
    if "get_session_by_num k st = Some r" "num r' = num r" for k r r'
    using that map_num_update get_session_by_num_iff [OF assms(1)]
      consistentD(1) [OF ss_inv_consistent [OF assms(1)]] by metis
  have same: "accounted st'" if "live_nums st' = live_nums st" "ended_nums st' = ended_nums st"
      "started_nums st' = started_nums st" "next_num st' = next_num st" for st'
    using that assms(2) by (simp add: accounted_def)
  show "accounted (snd (add_watcher w n st))"
    by (rule same)
      (simp_all add: add_watcher_def Let_def live_nums_def all_sessions_def ended_nums_def
        started_nums_def upd split: option.split)
  show "accounted (snd (remove_watcher w st))"
    by (rule same)
      (simp_all add: remove_watcher_def Let_def live_nums_def all_sessions_def ended_nums_def
        started_nums_def upd split: option.split)
qed

lemma accounted_step: "ss_good st \<Longrightarrow> accounted st \<Longrightarrow> accounted (lobby_step op st)"
  by (cases op)
    (auto simp: ss_good_def accounted_add_session accounted_remove_session accounted_watchers
      active_state_status(3) status_Idle)

lemma accounted_run: "ss_good st \<Longrightarrow> accounted st \<Longrightarrow> accounted (fold lobby_step ops st)"
  by (induction ops arbitrary: st) (simp_all add: accounted_step ss_good_step)

lemma fresh_registry: "ss_good (new_session_state m)" "accounted (new_session_state m)"
  "lobby_wf (lobby_view (new_session_state m))"
  by (simp_all add: ss_good_def exclusive_def accounted_def started_nums_def ended_nums_def live_nums_def
      all_sessions_def new_session_state_def lobby_wf_def lobby_view_def status_def ss_inv_def consistent_def)

section \<open>Changes\<close>

text \<open>The calls that open or close a session in the event sink.\<close>

fun boundary :: "sink_event \<Rightarrow> bool" where
  "boundary (Session_started r) = True"
| "boundary (Session_ended r reason) = True"
| "boundary ev = False"

text \<open>
  One operation on the registry, under the conditions its callers check, without the rule that a
  player is free before starting: \<open>!reset\<close> starts a session for somebody who may have begun to watch.
\<close>

inductive registry_change :: "session_state \<Rightarrow> session_state \<Rightarrow> bool" where
  change_started: "map_of (sessions st) p = None \<Longrightarrow> registry_change st (snd (add_session now wall p nm st))"
| change_ended: "registry_change st (snd (remove_session p reason st))"
| change_watched: "map_of (watching st) p = None \<Longrightarrow> registry_change st (snd (add_watcher p n st))"
| change_unwatched: "registry_change st (snd (remove_watcher p st))"
| change_noted: "\<not> boundary ev \<Longrightarrow> registry_change st (emit ev st)"

lemma registry_change_inv: "registry_change st st' \<Longrightarrow> ss_inv st \<Longrightarrow> ss_inv st'"
  by (induction rule: registry_change.induct)
    (simp_all add: ss_inv_add_session ss_inv_remove_session ss_inv_add_watcher ss_inv_remove_watcher)

lemma registry_change_accounted: "registry_change st st' \<Longrightarrow> ss_inv st \<Longrightarrow> accounted st \<Longrightarrow> accounted st'"
proof (induction rule: registry_change.induct)
  case (change_noted ev st)
  then show ?case by (cases ev) (simp_all add: accounted_def started_nums_def ended_nums_def live_nums_def all_sessions_def emit_def)
qed (simp_all add: accounted_add_session accounted_remove_session accounted_watchers)

lemma lobby_step_change: "registry_change\<^sup>*\<^sup>* st (lobby_step op st)"
  by (cases op) (auto simp: active_state_status(3) status_Idle intro: registry_change.intros)

text \<open>What any sequence of changes leads to from the empty registry.\<close>

definition reached :: "int \<Rightarrow> session_state \<Rightarrow> bool" where
  "reached m st \<longleftrightarrow> registry_change\<^sup>*\<^sup>* (new_session_state m) st"

lemma reached_inv: "reached m st \<Longrightarrow> ss_inv st \<and> accounted st"
  unfolding reached_def
proof (induction rule: rtranclp_induct)
  case base
  then show ?case using fresh_registry(1,2) by (simp add: ss_good_def)
qed (auto intro: registry_change_inv registry_change_accounted)

lemma reached_trans: "reached m st \<Longrightarrow> registry_change\<^sup>*\<^sup>* st st' \<Longrightarrow> reached m st'"
  unfolding reached_def by (rule rtranclp_trans)

lemma reached_run: "reached m (fold lobby_step ops (new_session_state m))"
proof (induction ops rule: rev_induct)
  case (snoc op ops)
  then show ?case unfolding reached_def by (auto intro: rtranclp_trans [OF _ lobby_step_change])
qed (simp add: reached_def)

text \<open>
  C10. Used under the guards of \<open>active_state\<close>, the registry refines the lobby specification:
  after any sequence of start, stop, watch and unwatch requests the status of every player is
  the one the specification gives. A start gives an idle player the next number, a stop frees
  the player and everyone watching them, a watch succeeds only for an idle player, a live session
  and a free watcher slot.
\<close>

theorem registry_refines_lobby:
  "lobby_view (fold lobby_step ops (new_session_state m)) =
     fold lobby_spec ops (lobby_view (new_session_state m))"
  by (rule registry.run_refines) (rule fresh_registry)

text \<open>
  C13. In every state reached that way the four tables agree with each other, nobody plays and
  watches at the same time, nobody watches a session that is not live, no two players share a
  session number and no session has more than the allowed number of watchers.
\<close>

theorem registry_invariant:
  fixes m :: int and ops :: "lobby_op list"
  defines "st \<equiv> fold lobby_step ops (new_session_state m)"
  shows "ss_inv st \<and> exclusive st \<and> lobby_wf (lobby_view st)"
  unfolding st_def
  using registry.run_good [OF fresh_registry(1)] registry.run_wf [OF fresh_registry(1,3)]
  by (simp add: ss_good_def)

text \<open>
  Session numbers are handed out consecutively from 1 and never reused, and the event sink
  is told about every session exactly once each way: the sessions announced as started are, as
  a multiset, those announced as ended together with those still live.
\<close>

theorem registry_accounts_sessions:
  fixes m :: int and ops :: "lobby_op list"
  defines "st \<equiv> fold lobby_step ops (new_session_state m)"
  shows "started_nums st = [1..next_num st - 1] \<and>
    mset (ended_nums st) + mset (live_nums st) = mset (started_nums st)"
  unfolding st_def using accounted_run [OF fresh_registry(1,2)] by (simp only: accounted_def)

end
