(* ===== verification/Message_Window.thy ===== *)
theory Message_Window
  imports Zork_Prelude
begin

text \<open>
  The windows of recent traffic, \<^verbatim>\<open>src/zorkbot/src/zorkbot/message_window.py\<close>.

  The reserved channel rings are a dictionary from channel index to ring, the pool of contacts an
  \<open>OrderedDict\<close> as an association list whose front is the least recently used entry.
  \<open>contact_window\<close> can raise: \<open>move_to_end\<close> of a key that the eviction loop has just removed
  is a \<open>KeyError\<close>, which happens when no contact may be kept at all.
\<close>

record window_message =
  msg_at :: int
  direction :: string
  msg_text :: string
  sender_name :: "string option"
  pubkey_prefix :: "string option"
  sender_verified :: bool

record message_windows =
  window :: nat
  max_contacts :: nat
  windows_bot_name :: string
  channels :: "(int \<times> window_message list) list"
  contacts :: "(string \<times> window_message list) list"

definition new_message_windows :: "int \<Rightarrow> int \<Rightarrow> int list \<Rightarrow> string \<Rightarrow> message_windows" where
  "new_message_windows w mc chans name =
     \<lparr>window = nat w, max_contacts = nat mc, windows_bot_name = name,
      channels = fold (\<lambda>i. AList.update i []) chans [], contacts = []\<rparr>"

section \<open>Recording\<close>

datatype key_error = KeyError string

text \<open>The eviction loop of \<open>_contact_window\<close>; \<open>popitem(last=False)\<close> drops the front.\<close>

fun evict :: "nat \<Rightarrow> ('k \<times> 'v) list \<Rightarrow> ('k \<times> 'v) list" where
  "evict n al = (if n < length al then evict n (tl al) else al)"

declare evict.simps [simp del]

definition move_to_end :: "'k \<Rightarrow> ('k \<times> 'v) list \<Rightarrow> ('k \<times> 'v) list option" where
  "move_to_end k al =
     (case map_of al k of None \<Rightarrow> None | Some v \<Rightarrow> Some (AList.delete k al @ [(k, v)]))"

definition contact_window :: "string \<Rightarrow> message_windows \<Rightarrow> (key_error + window_message list) \<times> message_windows" where
  "contact_window p ws =
     (let al = (case map_of (contacts ws) p of
                  Some _ \<Rightarrow> contacts ws
                | None \<Rightarrow> evict (max_contacts ws) (AList.update p [] (contacts ws)));
          ring = (case map_of (contacts ws) p of Some r \<Rightarrow> r | None \<Rightarrow> [])
      in case move_to_end p al of
           None \<Rightarrow> (Inl (KeyError p), ws\<lparr>contacts := al\<rparr>)
         | Some al' \<Rightarrow> (Inr ring, ws\<lparr>contacts := al'\<rparr>))"

definition append_message ::
  "string \<Rightarrow> int option \<Rightarrow> string option \<Rightarrow> window_message \<Rightarrow> message_windows \<Rightarrow>
     (key_error + unit) \<times> message_windows" where
  "append_message transport channel_idx pfx m ws =
     (if window ws = 0 then (Inr (), ws)
      else if transport = ''dm'' then
        (case pfx of
           None \<Rightarrow> (Inr (), ws)
         | Some p \<Rightarrow>
             if p = [] then (Inr (), ws)
             else (case contact_window p ws of
                     (Inl e, ws') \<Rightarrow> (Inl e, ws')
                   | (Inr ring, ws') \<Rightarrow>
                       (Inr (), ws'\<lparr>contacts :=
                          AList.update p (ring_append (window ws) m ring) (contacts ws')\<rparr>)))
      else
        (case channel_idx of
           None \<Rightarrow> (Inr (), ws)
         | Some i \<Rightarrow>
             (case map_of (channels ws) i of
                None \<Rightarrow> (Inr (), ws)
              | Some ring \<Rightarrow>
                  (Inr (), ws\<lparr>channels := AList.update i (ring_append (window ws) m ring) (channels ws)\<rparr>))))"

definition record_rx ::
  "real \<Rightarrow> string \<Rightarrow> int option \<Rightarrow> string option \<Rightarrow> string option \<Rightarrow> string \<Rightarrow> message_windows \<Rightarrow>
     (key_error + unit) \<times> message_windows" where
  "record_rx wall transport channel_idx pfx sender t ws =
     append_message transport channel_idx pfx
       \<lparr>msg_at = trunc wall, direction = ''rx'', msg_text = t, sender_name = sender,
        pubkey_prefix = pfx, sender_verified = (transport = ''dm'')\<rparr> ws"

definition record_tx ::
  "real \<Rightarrow> string \<Rightarrow> int option \<Rightarrow> string option \<Rightarrow> string \<Rightarrow> message_windows \<Rightarrow>
     (key_error + unit) \<times> message_windows" where
  "record_tx wall transport channel_idx pfx t ws =
     append_message transport channel_idx pfx
       \<lparr>msg_at = trunc wall, direction = ''tx'', msg_text = t, sender_name = Some (windows_bot_name ws),
        pubkey_prefix = None, sender_verified = True\<rparr> ws"

section \<open>Reading\<close>

definition tracks_channel :: "int \<Rightarrow> message_windows \<Rightarrow> bool" where
  "tracks_channel i ws \<longleftrightarrow> map_of (channels ws) i \<noteq> None"

definition contact_messages :: "string \<Rightarrow> message_windows \<Rightarrow> window_message list" where
  "contact_messages p ws = (case map_of (contacts ws) p of None \<Rightarrow> [] | Some ring \<Rightarrow> ring)"

definition channel_messages :: "int \<Rightarrow> message_windows \<Rightarrow> window_message list" where
  "channel_messages i ws = (case map_of (channels ws) i of None \<Rightarrow> [] | Some ring \<Rightarrow> ring)"

definition contact_count :: "string \<Rightarrow> message_windows \<Rightarrow> nat" where
  "contact_count p ws = (case map_of (contacts ws) p of None \<Rightarrow> 0 | Some ring \<Rightarrow> length ring)"

definition channel_count :: "int \<Rightarrow> message_windows \<Rightarrow> nat option" where
  "channel_count i ws = map_option length (map_of (channels ws) i)"

definition channel_last_at :: "int \<Rightarrow> message_windows \<Rightarrow> int option" where
  "channel_last_at i ws =
     (case map_of (channels ws) i of
        None \<Rightarrow> None
      | Some ring \<Rightarrow> if ring = [] then None else Some (msg_at (last ring)))"

section \<open>Traffic\<close>

text \<open>One recorded message: wall clock, transport, channel, contact, sender and text.\<close>

datatype traffic =
    Rx real string "int option" "string option" "string option" string
  | Tx real string "int option" "string option" string

fun record_traffic :: "traffic \<Rightarrow> message_windows \<Rightarrow> message_windows" where
  "record_traffic (Rx w tr ch p s t) ws = snd (record_rx w tr ch p s t ws)"
| "record_traffic (Tx w tr ch p t) ws = snd (record_tx w tr ch p t ws)"

fun traffic_message :: "string \<Rightarrow> traffic \<Rightarrow> window_message" where
  "traffic_message me (Rx w tr ch p s t) =
     \<lparr>msg_at = trunc w, direction = ''rx'', msg_text = t, sender_name = s,
      pubkey_prefix = p, sender_verified = (tr = ''dm'')\<rparr>"
| "traffic_message me (Tx w tr ch p t) =
     \<lparr>msg_at = trunc w, direction = ''tx'', msg_text = t, sender_name = Some me,
      pubkey_prefix = None, sender_verified = True\<rparr>"

fun traffic_contact :: "traffic \<Rightarrow> string option" where
  "traffic_contact (Rx w tr ch p s t) = (if tr = ''dm'' \<and> p \<noteq> Some [] then p else None)"
| "traffic_contact (Tx w tr ch p t) = (if tr = ''dm'' \<and> p \<noteq> Some [] then p else None)"

fun traffic_channel :: "traffic \<Rightarrow> int option" where
  "traffic_channel (Rx w tr ch p s t) = (if tr = ''dm'' then None else ch)"
| "traffic_channel (Tx w tr ch p t) = (if tr = ''dm'' then None else ch)"

text \<open>The history a window draws on, oldest message first.\<close>

definition channel_history :: "string \<Rightarrow> int \<Rightarrow> traffic list \<Rightarrow> window_message list" where
  "channel_history me i ops = map (traffic_message me) (filter (\<lambda>op. traffic_channel op = Some i) ops)"

definition contact_history :: "string \<Rightarrow> string \<Rightarrow> traffic list \<Rightarrow> window_message list" where
  "contact_history me p ops = map (traffic_message me) (filter (\<lambda>op. traffic_contact op = Some p) ops)"

section \<open>The pool of contacts\<close>

lemma evict_last_n: "evict n al = last_n n al"
proof (induction n al rule: evict.induct)
  case (1 n al)
  show ?case
  proof (cases "n < length al")
    case True
    then have "Suc (length al - Suc n) = length al - n" by simp
    then have "last_n n (tl al) = last_n n al"
      using True by (simp add: last_n_def drop_Suc [symmetric])
    with 1 True show ?thesis by (simp add: evict.simps [of n al])
  qed (simp add: evict.simps [of n al])
qed

lemma last_n_append_long: "n \<le> length zs \<Longrightarrow> last_n n (ys @ zs) = last_n n zs"
  by (simp add: last_n_def)

lemma last_n_snoc: "0 < n \<Longrightarrow> last_n n (xs @ [x]) = last_n (n - 1) xs @ [x]"
  by (cases n) (simp_all add: last_n_def)

lemma map_of_last_n:
  "distinct (map fst al) \<Longrightarrow> map_of (last_n n al) k = Some v \<Longrightarrow> map_of al k = Some v"
proof -
  assume d: "distinct (map fst al)" and v: "map_of (last_n n al) k = Some v"
  from map_of_SomeD [OF v] have "(k, v) \<in> set al" using set_last_n by fast
  with d show ?thesis by simp
qed

lemma distinct_last_n: "distinct (map fst al) \<Longrightarrow> distinct (map fst (last_n n al))"
  by (simp add: last_n_def drop_map [symmetric])

lemma delete_fresh: "map_of al k = None \<Longrightarrow> AList.delete k al = al"
  by (auto simp: AList.delete_eq filter_id_conv map_of_eq_None_iff image_iff)

lemma update_append_fresh: "map_of al k = None \<Longrightarrow> AList.update k v (al @ bs) = al @ AList.update k v bs"
  by (induction al) auto

lemma delete_snoc: "AList.delete k (al @ [(k, v)]) = AList.delete k al"
  by (simp add: AList.delete_eq)

lemma map_fst_delete: "map fst (AList.delete k al) = removeAll k (map fst al)"
  by (induction al) auto

lemma length_delete_member:
  "distinct (map fst al) \<Longrightarrow> map_of al k = Some v \<Longrightarrow> length (AList.delete k al) = length al - 1"
  by (metis length_map map_fst_delete distinct_remove1_removeAll length_remove1 map_of_SomeD
      fst_conv image_eqI set_map)

definition windows_ok :: "message_windows \<Rightarrow> bool" where
  "windows_ok ws \<longleftrightarrow> distinct (map fst (contacts ws)) \<and> length (contacts ws) \<le> max_contacts ws"

definition touched :: "string \<Rightarrow> window_message \<Rightarrow> message_windows \<Rightarrow> (string \<times> window_message list) list" where
  "touched p m ws = last_n (max_contacts ws)
     (AList.delete p (contacts ws) @ [(p, ring_append (window ws) m (contact_messages p ws))])"

lemma append_dm:
  assumes "windows_ok ws" and "window ws \<noteq> 0" and "p \<noteq> []"
  shows "append_message ''dm'' ch (Some p) m ws =
    (if max_contacts ws = 0 then Inl (KeyError p) else Inr (), ws\<lparr>contacts := touched p m ws\<rparr>)"
proof (cases "map_of (contacts ws) p")
  case (Some r)
  let ?rest = "AList.delete p (contacts ws)"
  have fresh: "map_of ?rest p = None" by (simp add: dict_simps)
  have pos: "0 < max_contacts ws" "0 < length (contacts ws)"
    using Some assms(1) by (cases "contacts ws"; simp add: windows_ok_def)+
  then have "length (?rest @ [(p, x)]) \<le> max_contacts ws" for x :: "window_message list"
    using assms(1) length_delete_member [OF _ Some] by (simp add: windows_ok_def)
  then show ?thesis
    using Some assms(2,3) pos update_append_fresh [OF fresh]
    by (simp add: append_message_def contact_window_def move_to_end_def touched_def contact_messages_def Let_def)
next
  case None
  let ?n = "max_contacts ws" and ?al = "contacts ws"
  have upd: "AList.update p [] ?al = ?al @ [(p, [])]"
    using update_append_fresh [OF None, of "[]" "[]"] by simp
  show ?thesis
  proof (cases "?n = 0")
    case True
    then show ?thesis using None assms
      by (simp add: append_message_def contact_window_def move_to_end_def touched_def evict_last_n windows_ok_def)
  next
    case False
    have fresh: "map_of (last_n (?n - 1) ?al) p = None"
      using None set_last_n [of "?n - 1" ?al] by (auto simp: map_of_eq_None_iff)
    then have look: "map_of (last_n (?n - 1) ?al @ [(p, [])]) p = Some []"
      by (simp add: map_add_def)
    from fresh show ?thesis
      using None False assms(2,3) look
      by (simp del: map_of_append add: append_message_def contact_window_def move_to_end_def touched_def contact_messages_def
          evict_last_n upd last_n_snoc delete_fresh update_append_fresh delete_snoc Let_def)
  qed
qed

lemma record_traffic_eq:
  assumes "windows_ok ws" and "window ws \<noteq> 0"
  shows "record_traffic op ws =
    (case traffic_contact op of
       Some p \<Rightarrow> ws\<lparr>contacts := touched p (traffic_message (windows_bot_name ws) op) ws\<rparr>
     | None \<Rightarrow>
         (case traffic_channel op of
            None \<Rightarrow> ws
          | Some i \<Rightarrow>
              (case map_of (channels ws) i of
                 None \<Rightarrow> ws
               | Some ring \<Rightarrow> ws\<lparr>channels := AList.update i
                   (ring_append (window ws) (traffic_message (windows_bot_name ws) op) ring) (channels ws)\<rparr>)))"
proof (cases op)
  case (Rx w tr ch p s t)
  then show ?thesis
    using assms by (cases p) (auto simp: record_rx_def append_dm, auto simp: append_message_def split: option.split)
next
  case (Tx w tr ch p t)
  then show ?thesis
    using assms by (cases p) (auto simp: record_tx_def append_dm, auto simp: append_message_def split: option.split)
qed

lemma record_traffic_disabled: "window ws = 0 \<Longrightarrow> record_traffic op ws = ws"
  by (cases op) (simp_all add: record_rx_def record_tx_def append_message_def)

lemma record_traffic_keeps:
  "windows_ok ws \<Longrightarrow> window (record_traffic op ws) = window ws \<and>
    max_contacts (record_traffic op ws) = max_contacts ws \<and>
    windows_bot_name (record_traffic op ws) = windows_bot_name ws"
  by (cases "window ws = 0") (simp_all add: record_traffic_disabled record_traffic_eq split: option.split)

lemma windows_ok_touched:
  assumes "windows_ok ws"
  shows "windows_ok (ws\<lparr>contacts := touched p m ws\<rparr>)"
proof -
  have "distinct (map fst (AList.delete p (contacts ws) @ [(p, x)]))" for x :: "window_message list"
    using assms by (simp add: windows_ok_def map_fst_delete distinct_removeAll)
  from distinct_last_n [OF this] show ?thesis
    by (simp add: windows_ok_def touched_def)
qed

lemma windows_ok_record: "windows_ok ws \<Longrightarrow> windows_ok (record_traffic op ws)"
  by (cases "window ws = 0")
    (simp_all add: record_traffic_disabled record_traffic_eq windows_ok_touched split: option.split,
     auto simp: windows_ok_def)

lemma windows_ok_new: "windows_ok (new_message_windows w mc chans me)"
  by (simp add: windows_ok_def new_message_windows_def)

section \<open>The channel windows are the tails of the channel histories\<close>

definition tracking :: "nat \<Rightarrow> string \<Rightarrow> int \<Rightarrow> message_windows \<Rightarrow> bool" where
  "tracking n me i ws \<longleftrightarrow> windows_ok ws \<and> window ws = n \<and> windows_bot_name ws = me \<and> tracks_channel i ws \<and>
     length (channel_messages i ws) \<le> n"

definition channel_entry :: "string \<Rightarrow> int \<Rightarrow> traffic \<Rightarrow> window_message option" where
  "channel_entry me i op = (if traffic_channel op = Some i then Some (traffic_message me op) else None)"

lemma traffic_one_target: "traffic_channel op = Some i \<Longrightarrow> traffic_contact op = None"
  by (cases op) (auto split: if_splits)

interpretation channel_log: bounded_log record_traffic "channel_messages i" "channel_entry me i" n "tracking n me i"
proof
  fix ws op assume t: "tracking n me i ws"
  then have ok: "windows_ok ws" by (simp add: tracking_def)
  show view: "channel_messages i (record_traffic op ws) =
      (case channel_entry me i op of None \<Rightarrow> channel_messages i ws
       | Some x \<Rightarrow> ring_append n x (channel_messages i ws))"
  proof (cases "n = 0")
    case False
    with t show ?thesis
      by (auto simp: tracking_def record_traffic_eq channel_messages_def tracks_channel_def channel_entry_def
          dict_simps dest: traffic_one_target split: option.split)
  next
    case True
    with t show ?thesis
      by (simp add: tracking_def record_traffic_disabled ring_append_last_n split: option.split)
  qed
  have "tracks_channel i (record_traffic op ws)"
    using t by (cases "window ws = 0")
      (auto simp: tracking_def record_traffic_disabled record_traffic_eq tracks_channel_def dict_simps split: option.split)
  then show "tracking n me i (record_traffic op ws)"
    using t windows_ok_record [OF ok] record_traffic_keeps [OF ok] view
    by (simp add: tracking_def ring_append_last_n split: option.split)
qed

lemma tracking_new:
  "i \<in> set chans \<Longrightarrow> tracking (nat w) me i (new_message_windows w mc chans me)"
  "channel_messages i (new_message_windows w mc chans me) = []"
proof -
  have look: "map_of (fold (\<lambda>i. AList.update i []) chans al) i =
      (if i \<in> set chans then Some [] else map_of al i)" for al :: "(int \<times> window_message list) list"
    by (induction chans arbitrary: al) (auto simp: dict_simps)
  show empty: "channel_messages i (new_message_windows w mc chans me) = []"
    by (simp add: channel_messages_def new_message_windows_def look)
  show "i \<in> set chans \<Longrightarrow> tracking (nat w) me i (new_message_windows w mc chans me)"
    using windows_ok_new [of w mc chans me] empty
    by (simp add: tracking_def tracks_channel_def new_message_windows_def look)
qed

lemma channel_entries: "List.map_filter (channel_entry me i) ops = channel_history me i ops"
  by (induction ops) (simp_all add: channel_history_def channel_entry_def map_filter_simps)

section \<open>The pool keeps the most recently active contacts\<close>

lemma last_n_touch:
  assumes "distinct xs"
  shows "last_n n (removeAll p (last_n n xs) @ [p]) = last_n n (removeAll p xs @ [p])"
proof (cases "length xs \<le> n")
  case False
  define ys where "ys = take (length xs - n) xs"
  define l where "l = last_n n xs"
  have split: "xs = ys @ l" by (simp add: ys_def l_def last_n_def)
  have len: "length l = n" using False by (simp add: l_def)
  have "n \<le> length (removeAll p l @ [p])"
    using assms len distinct_remove1_removeAll [of l p] length_remove1 [of p l] by (auto simp: split)
  then have "last_n n (removeAll p ys @ removeAll p l @ [p]) = last_n n (removeAll p l @ [p])"
    by (rule last_n_append_long)
  then show ?thesis by (simp add: split [symmetric] l_def [symmetric] flip: append_assoc)
       (simp add: split l_def [symmetric])
qed simp

lemma remdups_snoc: "remdups (xs @ [p]) = removeAll p (remdups xs) @ [p]"
  by (induction xs) auto

lemma pool_keys_step:
  assumes "windows_ok ws" and "window ws \<noteq> 0"
    and "map fst (contacts ws) = last_n (max_contacts ws) (remdups h)"
  shows "map fst (contacts (record_traffic op ws)) =
    last_n (max_contacts ws) (remdups (h @ (case traffic_contact op of None \<Rightarrow> [] | Some p \<Rightarrow> [p])))"
proof (cases "traffic_contact op")
  case (Some p)
  have mapl: "map fst (last_n n al) = last_n n (map fst al)" for n and al :: "(string \<times> window_message list) list"
    by (simp add: last_n_def drop_map)
  show ?thesis
    using Some assms(3) last_n_touch [of "remdups h" "max_contacts ws" p]
    by (simp add: record_traffic_eq assms(1,2) touched_def mapl map_fst_delete remdups_snoc)
qed (use assms in \<open>simp add: record_traffic_eq split: option.split\<close>)

lemma pool_keys_run:
  assumes "0 < w"
  shows "map fst (contacts (fold record_traffic ops (new_message_windows w mc chans me))) =
    last_n (nat mc) (remdups (List.map_filter traffic_contact ops))"
proof -
  let ?ws = "\<lambda>ops. fold record_traffic ops (new_message_windows w mc chans me)"
  have "windows_ok (?ws ops) \<and> window (?ws ops) = nat w \<and> max_contacts (?ws ops) = nat mc \<and>
    map fst (contacts (?ws ops)) = last_n (nat mc) (remdups (List.map_filter traffic_contact ops))"
  proof (induction ops rule: rev_induct)
    case Nil
    show ?case by (simp add: windows_ok_def new_message_windows_def map_filter_simps)
  next
    case (snoc op ops)
    then have ok: "windows_ok (?ws ops)" and "window (?ws ops) \<noteq> 0" using assms by simp_all
    with snoc pool_keys_step [of "?ws ops" "List.map_filter traffic_contact ops" op]
    show ?case
      using windows_ok_record [OF ok] record_traffic_keeps [OF ok]
      by (cases "traffic_contact op") (simp_all add: map_filter_def)
  qed
  then show ?thesis by simp
qed

lemma contact_history_snoc:
  "contact_history me p (ops @ [op]) =
    contact_history me p ops @ (if traffic_contact op = Some p then [traffic_message me op] else [])"
  by (simp add: contact_history_def)

lemma touched_lookup:
  assumes "windows_ok ws" and "map_of (touched p m ws) q = Some r"
  shows "if q = p then r = ring_append (window ws) m (contact_messages p ws) else map_of (contacts ws) q = Some r"
proof -
  let ?x = "ring_append (window ws) m (contact_messages p ws)"
  have "distinct (map fst (AList.delete p (contacts ws) @ [(p, ?x)]))"
    using assms(1) by (simp add: windows_ok_def map_fst_delete distinct_removeAll)
  from map_of_last_n [OF this] assms(2)
  have "map_of (AList.delete p (contacts ws) @ [(p, ?x)]) q = Some r"
    unfolding touched_def by blast
  then show ?thesis
    by (auto simp: map_add_Some_iff dict_simps split: if_splits)
qed

text \<open>Every ring of the pool is a non-empty tail of its contact's history, at most \<open>window\<close> long.\<close>

definition faithful_rings :: "string \<Rightarrow> traffic list \<Rightarrow> message_windows \<Rightarrow> bool" where
  "faithful_rings me h ws \<longleftrightarrow> (\<forall>p r. map_of (contacts ws) p = Some r \<longrightarrow>
     suffix r (contact_history me p h) \<and> r \<noteq> [] \<and> length r \<le> window ws)"

lemma suffix_ring_append: "suffix r h \<Longrightarrow> suffix (ring_append n x r) (h @ [x])"
  by (metis ring_append_last_n suffix_last_n suffix_order.trans suffix_snoc same_suffix_suffix snoc_suffix_snoc)

lemma faithful_rings_step:
  assumes ok: "windows_ok ws" and w: "window ws \<noteq> 0" and f: "faithful_rings me h ws"
    and me: "windows_bot_name ws = me"
  shows "faithful_rings me (h @ [op]) (record_traffic op ws)"
proof -
  have win: "window (record_traffic op ws) = window ws"
    using record_traffic_keeps [OF ok] by blast
  have "suffix r (contact_history me q (h @ [op])) \<and> r \<noteq> [] \<and> length r \<le> window ws"
    if r: "map_of (contacts (record_traffic op ws)) q = Some r" for q r
  proof (cases "traffic_contact op = Some q")
    case True
    then have "map_of (touched q (traffic_message me op) ws) q = Some r"
      using r me by (simp add: record_traffic_eq ok w)
    from touched_lookup [OF ok this]
    have r': "r = ring_append (window ws) (traffic_message me op) (contact_messages q ws)" by simp
    have "suffix (contact_messages q ws) (contact_history me q h)"
      using f by (auto simp: contact_messages_def faithful_rings_def split: option.split)
    from suffix_ring_append [OF this] have "suffix r (contact_history me q h @ [traffic_message me op])"
      unfolding r' .
    moreover have "r \<noteq> []" "length r \<le> window ws"
      using w by (auto simp: r' ring_append_last_n last_n_snoc)
    ultimately show ?thesis using True by (simp add: contact_history_snoc)
  next
    case False
    then have "map_of (contacts ws) q = Some r"
      using r touched_lookup [OF ok, of _ _ q r]
      by (auto simp: record_traffic_eq ok w split: option.splits if_splits)
    then show ?thesis using f False by (simp add: contact_history_snoc faithful_rings_def)
  qed
  then show ?thesis by (simp add: faithful_rings_def win)
qed

lemma windows_run_ok:
  "windows_ok ws \<Longrightarrow> windows_ok (fold record_traffic ops ws) \<and>
    window (fold record_traffic ops ws) = window ws \<and>
    max_contacts (fold record_traffic ops ws) = max_contacts ws \<and>
    windows_bot_name (fold record_traffic ops ws) = windows_bot_name ws"
  by (induction ops arbitrary: ws) (simp_all add: windows_ok_record record_traffic_keeps)

lemma windows_new_run_ok:
  fixes ops :: "traffic list" and w mc :: int and chans :: "int list" and me :: string
  defines "ws \<equiv> fold record_traffic ops (new_message_windows w mc chans me)"
  shows "windows_ok ws" "window ws = nat w" "max_contacts ws = nat mc" "windows_bot_name ws = me"
  using windows_run_ok [OF windows_ok_new [of w mc chans me], of ops]
  unfolding ws_def by (simp_all add: new_message_windows_def)

lemma faithful_rings_run:
  assumes "0 < w"
  shows "faithful_rings me ops (fold record_traffic ops (new_message_windows w mc chans me))"
proof (induction ops rule: rev_induct)
  case Nil
  show ?case by (simp add: faithful_rings_def new_message_windows_def)
next
  case (snoc op ops)
  with assms show ?case
    using faithful_rings_step [OF windows_new_run_ok(1) _ snoc windows_new_run_ok(4)]
    by (simp add: windows_new_run_ok)
qed

lemma touched_no_eviction:
  assumes "length (AList.delete p (contacts ws)) < max_contacts ws"
  shows "map_of (touched p m ws) =
    (map_of (contacts ws))(p \<mapsto> ring_append (window ws) m (contact_messages p ws))"
  using assms by (auto simp: touched_def fun_eq_iff dict_simps map_add_def split: option.split)

lemma whole_history_run:
  assumes "0 < w" and "length (remdups (List.map_filter traffic_contact ops)) \<le> nat mc"
  shows "contact_messages p (fold record_traffic ops (new_message_windows w mc chans me)) =
    last_n (nat w) (contact_history me p ops)"
  using assms(2)
proof (induction ops rule: rev_induct)
  case Nil
  show ?case by (simp add: contact_messages_def contact_history_def new_message_windows_def)
next
  case (snoc op ops)
  let ?h = "List.map_filter traffic_contact ops" and ?ws = "fold record_traffic ops (new_message_windows w mc chans me)"
  note ok = windows_new_run_ok [of ops w mc chans me]
  have w: "window ?ws \<noteq> 0" using assms(1) ok(2) by simp
  show ?case
  proof (cases "traffic_contact op")
    case None
    then have "contacts (record_traffic op ?ws) = contacts ?ws"
      by (simp add: record_traffic_eq ok(1) w split: option.split)
    with None snoc show ?thesis
      by (simp add: contact_messages_def contact_history_snoc map_filter_def)
  next
    case (Some q)
    then have few: "length (removeAll q (remdups ?h)) < nat mc"
      using snoc.prems by (simp add: map_filter_def remdups_snoc)
    moreover have "length (remdups ?h) \<le> Suc (length (removeAll q (remdups ?h)))"
      using distinct_remove1_removeAll [of "remdups ?h" q] length_remove1 [of q "remdups ?h"] by (auto split: if_splits)
    ultimately have le: "length (remdups ?h) \<le> nat mc" by simp
    have "map fst (contacts ?ws) = remdups ?h"
      using pool_keys_run [OF assms(1), of ops mc chans me] le by simp
    then have "length (AList.delete q (contacts ?ws)) < max_contacts ?ws"
      using few by (metis length_map map_fst_delete ok(3))
    from touched_no_eviction [OF this]
    have "contact_messages p (record_traffic op ?ws) =
        (if p = q then ring_append (nat w) (traffic_message me op) (contact_messages q ?ws) else contact_messages p ?ws)"
      using Some ok(2,4) by (simp add: record_traffic_eq [OF ok(1) w] contact_messages_def)
    then show ?thesis
      using Some snoc.IH [OF le]
      by (auto simp: contact_history_snoc ring_append_last_n last_n_last_n_append)
  qed
qed

section \<open>Properties\<close>

text \<open>
  C40. A served channel's window holds exactly the newest \<open>window\<close> messages of that channel, in
  order, after any traffic: neither traffic on other channels nor any amount of direct messages
  can displace one of them, and with \<open>window = 0\<close> it is always empty.
\<close>

theorem channel_window_exact:
  assumes "i \<in> set chans"
  shows "channel_messages i (fold record_traffic ops (new_message_windows w mc chans me)) =
    last_n (nat w) (channel_history me i ops)"
  using channel_log.run_view [OF tracking_new(1) [OF assms, of w me mc], of ops]
  by (simp add: tracking_new(2) channel_entries)

theorem channel_window_exact_witness:
  "map msg_text (channel_messages 7 (fold record_traffic
      [Rx 10 ''channel'' (Some 7) None (Some ''Al'') ''!list'', Rx 11 ''dm'' None (Some ''ab'') None ''look'',
       Tx 12 ''channel'' (Some 7) None ''none'', Rx 13 ''channel'' (Some 7) None (Some ''Al'') ''!help'']
      (new_message_windows 2 1 [7] ''zork''))) = [''none'', ''!help'']"
  by (subst channel_window_exact) (simp_all add: last_n_def channel_history_def)

text \<open>
  The pool of contacts is a least-recently-used cache: after any traffic the contacts that
  have a window are exactly the \<open>max_contacts\<close> most recently active ones, least recent first.
\<close>

theorem contact_pool_is_lru:
  assumes "0 < w"
  shows "map fst (contacts (fold record_traffic ops (new_message_windows w mc chans me))) =
    last_n (nat mc) (remdups (List.map_filter traffic_contact ops))"
  using assms by (rule pool_keys_run)

theorem contact_pool_is_lru_witness:
  "map fst (contacts (fold record_traffic
      [Rx 1 ''dm'' None (Some ''aa'') None ''x'', Rx 2 ''dm'' None (Some ''bb'') None ''y'',
       Tx 3 ''dm'' None (Some ''aa'') ''z'', Rx 4 ''dm'' None (Some ''cc'') None ''w'']
      (new_message_windows 5 2 [] ''zork''))) = [''aa'', ''cc'']"
  by (subst contact_pool_is_lru) (simp_all add: last_n_def map_filter_def)

text \<open>
  The window of a contact in the pool is a non-empty tail of that contact's history, of at
  most \<open>window\<close> messages, so it ends with the newest message exchanged; and as long as no more
  than \<open>max_contacts\<close> different contacts have been active it is the whole tail, the newest
  \<open>window\<close> messages.
\<close>

theorem contact_window_content:
  fixes ops :: "traffic list" and w mc :: int and chans :: "int list" and me :: string
  defines "ws \<equiv> fold record_traffic ops (new_message_windows w mc chans me)"
    and "active \<equiv> remdups (List.map_filter traffic_contact ops)"
  assumes "0 < w" and "p \<in> set (last_n (nat mc) active)"
  shows "suffix (contact_messages p ws) (contact_history me p ops) \<and> contact_messages p ws \<noteq> [] \<and>
    length (contact_messages p ws) \<le> nat w \<and>
    (length active \<le> nat mc \<longrightarrow> contact_messages p ws = last_n (nat w) (contact_history me p ops))"
proof -
  have "p \<in> set (map fst (contacts ws))"
    using pool_keys_run [OF assms(3), of ops mc chans me] assms(4) by (simp add: ws_def active_def)
  then obtain r where r: "map_of (contacts ws) p = Some r"
    by (metis image_set map_of_eq_None_iff not_None_eq)
  then have "contact_messages p ws = r" by (simp add: contact_messages_def)
  moreover have "suffix r (contact_history me p ops) \<and> r \<noteq> [] \<and> length r \<le> nat w"
    using faithful_rings_run [OF assms(3), of me ops mc chans] r windows_new_run_ok(2) [of ops w mc chans me]
    by (simp add: faithful_rings_def ws_def)
  ultimately show ?thesis
    using whole_history_run [OF assms(3), of ops mc p chans me] by (simp add: ws_def active_def)
qed

theorem contact_window_content_witness:
  "contact_messages ''aa'' (fold record_traffic
      [Rx 1 ''dm'' None (Some ''aa'') None ''x'', Rx 2 ''dm'' None (Some ''bb'') None ''y'', Tx 3 ''dm'' None (Some ''aa'') ''z'']
      (new_message_windows 1 2 [] ''zork'')) =
    last_n (nat 1) (contact_history ''zork'' ''aa''
      [Rx 1 ''dm'' None (Some ''aa'') None ''x'', Rx 2 ''dm'' None (Some ''bb'') None ''y'', Tx 3 ''dm'' None (Some ''aa'') ''z''])"
  using contact_window_content [of 1 "''aa''" 2
      "[Rx 1 ''dm'' None (Some ''aa'') None ''x'', Rx 2 ''dm'' None (Some ''bb'') None ''y'', Tx 3 ''dm'' None (Some ''aa'') ''z'']"
      "[]" "''zork''"]
  by (simp add: map_filter_def)

text \<open>
  Recording a received message succeeds except in one configuration: with capture switched on
  and no contact allowed (\<open>max_contacts = 0\<close>), every direct message raises \<open>KeyError\<close>, because
  the new ring is evicted before it is moved to the end.
\<close>

theorem record_rx_raises_iff:
  "fst (record_rx wall tr ch pfx sender t (fold record_traffic ops (new_message_windows w mc chans me))) =
     (if 0 < w \<and> mc \<le> 0 \<and> tr = ''dm'' \<and> pfx \<noteq> None \<and> pfx \<noteq> Some [] then Inl (KeyError (the pfx)) else Inr ())"
proof -
  note ok = windows_new_run_ok [of ops w mc chans me]
  show ?thesis
  proof (cases "tr = ''dm'' \<and> pfx \<noteq> None \<and> pfx \<noteq> Some [] \<and> 0 < w")
    case True
    then obtain p where "pfx = Some p" "p \<noteq> []" by auto
    then show ?thesis
      using True append_dm [OF ok(1), of p] ok by (simp add: record_rx_def)
  next
    case False
    then show ?thesis
      using ok(2) by (auto simp: record_rx_def append_message_def split: option.split)
  qed
qed

end
