(* ===== verification/Config.thy ===== *)
theory Config
  imports Addressing "HOL-Library.Char_ord" "HOL-Library.List_Lexorder"
begin

text \<open>
  Configuration, \<^verbatim>\<open>src/zorkbot/src/zorkbot/config.py\<close>: the dataclasses with their defaults, the
  application of a parsed TOML document and the environment overrides.

  \<open>tomllib\<close> is not modelled: a document is given as its parsed form, a \<open>toml_doc\<close>, in which
  the four sections the program reads are tables (a section that is missing is the empty table).
  Infinite and NaN floats are outside the model, and so are dates. Conversions that raise
  (\<open>int\<close>, \<open>float\<close>, iteration of a scalar) are values of \<open>config_error\<close>; an exception leaves
  \<open>load_config\<close> without a configuration, so the partly updated object is not represented.
  \<open>rep\<close> stands for \<open>str()\<close> of floats and collections, which the program applies only when a
  document gives a number with a fraction, a list or a table where a text is expected.
\<close>

section \<open>Values\<close>

datatype toml_value =
    TString string
  | TInt int
  | TFloat real
  | TBool bool
  | TList "toml_value list"
  | TTable "(string \<times> toml_value) list"

type_synonym toml_table = "(string \<times> toml_value) list"

record toml_doc =
  doc_root :: toml_table
  doc_admin :: toml_table
  doc_admin_ui :: toml_table
  doc_channel :: toml_table
  doc_bots_channel :: toml_table

datatype config_error = ConfigValueError | ConfigTypeError

text \<open>\<open>bool(x)\<close>, \<open>int(x)\<close>, \<open>float(x)\<close> and \<open>str(x)\<close> of a TOML value.\<close>

fun to_bool :: "toml_value \<Rightarrow> bool" where
  "to_bool (TString s) = (s \<noteq> [])"
| "to_bool (TInt i) = (i \<noteq> 0)"
| "to_bool (TFloat x) = (x \<noteq> 0)"
| "to_bool (TBool b) = b"
| "to_bool (TList xs) = (xs \<noteq> [])"
| "to_bool (TTable t) = (t \<noteq> [])"

fun to_int :: "toml_value \<Rightarrow> config_error + int" where
  "to_int (TString s) = (case parse_int s of None \<Rightarrow> Inl ConfigValueError | Some i \<Rightarrow> Inr i)"
| "to_int (TInt i) = Inr i"
| "to_int (TFloat x) = Inr (trunc x)"
| "to_int (TBool b) = Inr (if b then 1 else 0)"
| "to_int (TList xs) = Inl ConfigTypeError"
| "to_int (TTable t) = Inl ConfigTypeError"

text \<open>\<open>float(s)\<close>: an optional sign, digits with an optional fraction, an optional exponent.\<close>

definition mantissa :: "string \<Rightarrow> (string \<times> nat) option" where
  "mantissa s =
     (case partition_on CHR ''.'' s of (ip, dot, fp) \<Rightarrow>
        (case (if dot \<and> ip = [] then Some [] else digits_go False ip,
               if fp = [] then Some [] else digits_go False fp) of
           (Some a, Some b) \<Rightarrow> if a = [] \<and> b = [] then None else Some (a @ b, length b)
         | _ \<Rightarrow> None))"

definition exponent :: "bool \<Rightarrow> string \<Rightarrow> int option" where
  "exponent given s =
     (if \<not> given then Some 0
      else case s of
             [] \<Rightarrow> None
           | c # cs \<Rightarrow>
               (case digits_go False (if c \<in> {CHR ''+'', CHR ''-''} then cs else s) of
                  None \<Rightarrow> None
                | Some ds \<Rightarrow> Some (if c = CHR ''-'' then - int (digits_value ds) else int (digits_value ds))))"

definition parse_float :: "string \<Rightarrow> real option" where
  "parse_float s =
     (let t = strip s;
          neg = (t \<noteq> [] \<and> hd t = CHR ''-'');
          body = (if t \<noteq> [] \<and> hd t \<in> {CHR ''+'', CHR ''-''} then tl t else t)
      in case partition_on CHR ''e'' (lower body) of (m, e, x) \<Rightarrow>
           (case (mantissa m, exponent e x) of
              (Some (ds, k), Some n) \<Rightarrow>
                (let v = real (digits_value ds) / 10 ^ k;
                     w = (if 0 \<le> n then v * 10 ^ nat n else v / 10 ^ nat (- n))
                 in Some (if neg then - w else w))
            | _ \<Rightarrow> None))"

fun to_float :: "toml_value \<Rightarrow> config_error + real" where
  "to_float (TString s) = (case parse_float s of None \<Rightarrow> Inl ConfigValueError | Some x \<Rightarrow> Inr x)"
| "to_float (TInt i) = Inr (of_int i)"
| "to_float (TFloat x) = Inr x"
| "to_float (TBool b) = Inr (if b then 1 else 0)"
| "to_float (TList xs) = Inl ConfigTypeError"
| "to_float (TTable t) = Inl ConfigTypeError"

fun to_str :: "(toml_value \<Rightarrow> string) \<Rightarrow> toml_value \<Rightarrow> string" where
  "to_str rep (TString s) = s"
| "to_str rep (TInt i) = str_int i"
| "to_str rep (TBool b) = (if b then ''True'' else ''False'')"
| "to_str rep v = rep v"

text \<open>\<open>[str(pk) for pk in pubkeys]\<close>: strings iterate over their characters, tables over their keys.\<close>

fun to_str_list :: "(toml_value \<Rightarrow> string) \<Rightarrow> toml_value \<Rightarrow> config_error + string list" where
  "to_str_list rep (TList xs) = Inr (map (to_str rep) xs)"
| "to_str_list rep (TString s) = Inr (map (\<lambda>c. [c]) s)"
| "to_str_list rep (TTable t) = Inr (map fst t)"
| "to_str_list rep v = Inl ConfigTypeError"

section \<open>The configuration\<close>

record admin_config =
  pubkeys :: "string list"

record admin_ui_config =
  ui_enabled :: bool
  ui_bind :: string
  ui_port :: int
  ui_db_path :: string
  access_token_ttl_seconds :: int
  refresh_token_ttl_seconds :: int
  event_retention_days :: int
  event_queue_size :: int
  live_buffer_events :: int
  max_live_streams :: int
  log_buffer_lines :: int
  max_log_streams :: int
  radio_cache_seconds :: real
  radio_message_window :: int
  radio_message_contacts :: int
  radio_write_enabled :: bool
  radio_write_min_interval_seconds :: real

record bot_config =
  bot_name :: string
  channel :: channel_config
  game_url :: string
  admin :: admin_config
  admin_ui :: admin_ui_config
  log_level :: "string option"
  packet_max_chars :: int
  announce_on_start :: bool
  max_watchers_per_session :: int
  session_poll_seconds :: int
  advert_enabled :: bool
  advert_flood :: bool
  advert_interval_seconds :: int
  advert_cooldown_seconds :: int
  send_spacing_seconds :: real
  max_send_queue_depth :: int
  channel_rx_guard_seconds :: real
  dm_ack_enabled :: bool
  dm_ack_max_attempts :: int
  dm_ack_max_flood_attempts :: int
  dm_ack_flood_after :: int
  dm_ack_timeout_seconds :: real
  dm_ack_abandon_response :: bool
  bots_enabled :: bool
  bots_channel :: "channel_config option"
  bots_cooldown_seconds :: real

definition ZORK_CHANNEL_NAME :: string where
  "ZORK_CHANNEL_NAME = ''#zork''"

definition BOTS_CHANNEL_NAME :: string where
  "BOTS_CHANNEL_NAME = ''#bots''"

definition default_admin_ui :: admin_ui_config where
  "default_admin_ui =
     \<lparr>ui_enabled = False, ui_bind = ''0.0.0.0'', ui_port = 8081, ui_db_path = ''/data/admin.db'',
      access_token_ttl_seconds = 1800, refresh_token_ttl_seconds = 2592000, event_retention_days = 90,
      event_queue_size = 1024, live_buffer_events = 50, max_live_streams = 4, log_buffer_lines = 500,
      max_log_streams = 2, radio_cache_seconds = 30, radio_message_window = 20, radio_message_contacts = 50,
      radio_write_enabled = False, radio_write_min_interval_seconds = 2\<rparr>"

definition default_config :: bot_config where
  "default_config =
     \<lparr>bot_name = ''zorkbot'', channel = \<lparr>chan_index = 1, chan_name = ZORK_CHANNEL_NAME, chan_secret = None\<rparr>,
      game_url = ''http://game:8080'', admin = \<lparr>pubkeys = []\<rparr>, admin_ui = default_admin_ui,
      log_level = None, packet_max_chars = 120, announce_on_start = False,
      max_watchers_per_session = 2, session_poll_seconds = 30,
      advert_enabled = False, advert_flood = True, advert_interval_seconds = 300, advert_cooldown_seconds = 300,
      send_spacing_seconds = 2, max_send_queue_depth = 64, channel_rx_guard_seconds = 2,
      dm_ack_enabled = True, dm_ack_max_attempts = 3, dm_ack_max_flood_attempts = 2, dm_ack_flood_after = 2,
      dm_ack_timeout_seconds = 0, dm_ack_abandon_response = True,
      bots_enabled = False, bots_channel = None, bots_cooldown_seconds = 12\<rparr>"

definition admin_pubkeys :: "bot_config \<Rightarrow> string set" where
  "admin_pubkeys cfg = set (map lower (pubkeys (admin cfg)))"

section \<open>Applying a document\<close>

definition ADMIN_KEYS :: "string list" where
  "ADMIN_KEYS = [''pubkeys'']"

definition ADMIN_UI_KEYS :: "string list" where
  "ADMIN_UI_KEYS =
     [''enabled'', ''bind'', ''port'', ''db_path'',
      ''access_token_ttl_seconds'', ''refresh_token_ttl_seconds'',
      ''event_retention_days'', ''event_queue_size'',
      ''live_buffer_events'', ''max_live_streams'',
      ''log_buffer_lines'', ''max_log_streams'',
      ''radio_cache_seconds'', ''radio_message_window'', ''radio_message_contacts'',
      ''radio_write_enabled'', ''radio_write_min_interval_seconds'']"

definition CHANNEL_KEYS :: "string list" where
  "CHANNEL_KEYS = [''index'', ''name'', ''secret'']"

definition ROOT_OPTIONAL_KEYS :: "string list" where
  "ROOT_OPTIONAL_KEYS =
     [''log_level'', ''packet_max_chars'', ''announce_on_start'', ''bots_cooldown_seconds'',
      ''max_watchers_per_session'', ''advert_enabled'', ''advert_flood'', ''advert_interval_seconds'',
      ''advert_cooldown_seconds'', ''send_spacing_seconds'', ''max_send_queue_depth'',
      ''channel_rx_guard_seconds'', ''dm_ack_enabled'', ''dm_ack_max_attempts'',
      ''dm_ack_max_flood_attempts'', ''dm_ack_flood_after'', ''dm_ack_timeout_seconds'',
      ''dm_ack_abandon_response'', ''bots_enabled'', ''session_poll_seconds'']"

datatype config_warning = Misplaced string string | Unknown_key string string

definition warn_misplaced_section_keys :: "string \<Rightarrow> toml_table \<Rightarrow> string list \<Rightarrow> config_warning list" where
  "warn_misplaced_section_keys section values allowed =
     concat (map (\<lambda>key.
        if key \<in> set allowed then []
        else if key \<in> set ROOT_OPTIONAL_KEYS then [Misplaced key section]
        else [Unknown_key section key]) (sort (map fst values)))"

definition root_value :: "toml_doc \<Rightarrow> string \<Rightarrow> toml_value option" where
  "root_value doc key =
     (case map_of (doc_root doc) key of
        Some v \<Rightarrow> Some v
      | None \<Rightarrow>
          (case map_of (doc_channel doc) key of
             Some v \<Rightarrow> Some v
           | None \<Rightarrow> map_of (doc_admin doc) key))"

text \<open>The two settings of the roll call may also stand under \<open>[bots_channel]\<close>.\<close>

definition bots_value :: "toml_doc \<Rightarrow> string \<Rightarrow> toml_value option" where
  "bots_value doc key =
     (case root_value doc key of Some v \<Rightarrow> Some v | None \<Rightarrow> map_of (doc_bots_channel doc) key)"

text \<open>
  The two shapes of an assignment: \<open>if x := value:\<close> assigns when the value is present and true,
  \<open>if value is not None:\<close> whenever it is present. \<open>run_steps\<close> is the sequence of statements, left
  by the first exception.
\<close>

definition if_given ::
  "toml_value option \<Rightarrow> (toml_value \<Rightarrow> config_error + 'x) \<Rightarrow> ('x \<Rightarrow> 'c \<Rightarrow> 'c) \<Rightarrow> 'c \<Rightarrow> config_error + 'c" where
  "if_given v conv put c =
     (case v of None \<Rightarrow> Inr c | Some x \<Rightarrow> (case conv x of Inl e \<Rightarrow> Inl e | Inr y \<Rightarrow> Inr (put y c)))"

definition if_truthy ::
  "toml_value option \<Rightarrow> (toml_value \<Rightarrow> config_error + 'x) \<Rightarrow> ('x \<Rightarrow> 'c \<Rightarrow> 'c) \<Rightarrow> 'c \<Rightarrow> config_error + 'c" where
  "if_truthy v conv put c =
     (case v of None \<Rightarrow> Inr c | Some x \<Rightarrow> if to_bool x then if_given v conv put c else Inr c)"

fun run_steps :: "('c \<Rightarrow> 'e + 'c) list \<Rightarrow> 'c \<Rightarrow> 'e + 'c" where
  "run_steps [] c = Inr c"
| "run_steps (f # fs) c = (case f c of Inl e \<Rightarrow> Inl e | Inr c' \<Rightarrow> run_steps fs c')"

definition root_steps :: "(toml_value \<Rightarrow> string) \<Rightarrow> toml_doc \<Rightarrow> (bot_config \<Rightarrow> config_error + bot_config) list" where
  "root_steps rep doc =
     [if_truthy (map_of (doc_root doc) ''name'') (Inr \<circ> to_str rep) (\<lambda>x. bot_name_update (\<lambda>_. x)),
      if_truthy (map_of (doc_root doc) ''game_url'') (Inr \<circ> to_str rep) (\<lambda>x. game_url_update (\<lambda>_. x)),
      if_truthy (root_value doc ''log_level'') (Inr \<circ> Some \<circ> to_str rep) (\<lambda>x. log_level_update (\<lambda>_. x)),
      if_truthy (root_value doc ''packet_max_chars'') to_int (\<lambda>x. packet_max_chars_update (\<lambda>_. x)),
      if_given (root_value doc ''announce_on_start'') (Inr \<circ> to_bool) (\<lambda>x. announce_on_start_update (\<lambda>_. x)),
      if_truthy (root_value doc ''max_watchers_per_session'') to_int (\<lambda>x. max_watchers_per_session_update (\<lambda>_. x)),
      if_given (root_value doc ''session_poll_seconds'') to_int (\<lambda>x. session_poll_seconds_update (\<lambda>_. x)),
      if_given (root_value doc ''advert_enabled'') (Inr \<circ> to_bool) (\<lambda>x. advert_enabled_update (\<lambda>_. x)),
      if_given (root_value doc ''advert_flood'') (Inr \<circ> to_bool) (\<lambda>x. advert_flood_update (\<lambda>_. x)),
      if_truthy (root_value doc ''advert_interval_seconds'') to_int (\<lambda>x. advert_interval_seconds_update (\<lambda>_. x)),
      if_truthy (root_value doc ''advert_cooldown_seconds'') to_int (\<lambda>x. advert_cooldown_seconds_update (\<lambda>_. x)),
      if_truthy (root_value doc ''send_spacing_seconds'') to_float (\<lambda>x. send_spacing_seconds_update (\<lambda>_. x)),
      if_truthy (root_value doc ''max_send_queue_depth'') to_int (\<lambda>x. max_send_queue_depth_update (\<lambda>_. x)),
      if_given (root_value doc ''channel_rx_guard_seconds'') to_float (\<lambda>x. channel_rx_guard_seconds_update (\<lambda>_. x)),
      if_given (root_value doc ''dm_ack_enabled'') (Inr \<circ> to_bool) (\<lambda>x. dm_ack_enabled_update (\<lambda>_. x)),
      if_given (root_value doc ''dm_ack_max_attempts'') to_int (\<lambda>x. dm_ack_max_attempts_update (\<lambda>_. x)),
      if_given (root_value doc ''dm_ack_max_flood_attempts'') to_int (\<lambda>x. dm_ack_max_flood_attempts_update (\<lambda>_. x)),
      if_given (root_value doc ''dm_ack_flood_after'') to_int (\<lambda>x. dm_ack_flood_after_update (\<lambda>_. x)),
      if_given (root_value doc ''dm_ack_timeout_seconds'') to_float (\<lambda>x. dm_ack_timeout_seconds_update (\<lambda>_. x)),
      if_given (root_value doc ''dm_ack_abandon_response'') (Inr \<circ> to_bool) (\<lambda>x. dm_ack_abandon_response_update (\<lambda>_. x)),
      if_given (bots_value doc ''bots_enabled'') (Inr \<circ> to_bool) (\<lambda>x. bots_enabled_update (\<lambda>_. x)),
      if_given (bots_value doc ''bots_cooldown_seconds'') to_float (\<lambda>x. bots_cooldown_seconds_update (\<lambda>_. x))]"

definition channel_of :: "(toml_value \<Rightarrow> string) \<Rightarrow> toml_table \<Rightarrow> int \<Rightarrow> string \<Rightarrow> config_error + channel_config" where
  "channel_of rep section default_index default_name =
     (case to_int (case map_of section ''index'' of None \<Rightarrow> TInt default_index | Some v \<Rightarrow> v) of
        Inl e \<Rightarrow> Inl e
      | Inr i \<Rightarrow> Inr \<lparr>chan_index = i,
          chan_name = to_str rep (case map_of section ''name'' of None \<Rightarrow> TString default_name | Some v \<Rightarrow> v),
          chan_secret = None\<rparr>)"

definition channel_step :: "(toml_value \<Rightarrow> string) \<Rightarrow> toml_doc \<Rightarrow> bot_config \<Rightarrow> config_error + bot_config" where
  "channel_step rep doc c =
     (if doc_channel doc = [] then Inr c
      else case channel_of rep (doc_channel doc) (chan_index (channel c)) ZORK_CHANNEL_NAME of
             Inl e \<Rightarrow> Inl e
           | Inr ch \<Rightarrow> Inr (c\<lparr>channel := ch\<rparr>))"

definition bots_channel_step :: "(toml_value \<Rightarrow> string) \<Rightarrow> toml_doc \<Rightarrow> bot_config \<Rightarrow> config_error + bot_config" where
  "bots_channel_step rep doc c =
     (if doc_bots_channel doc = [] then Inr c
      else case channel_of rep (doc_bots_channel doc) 0 BOTS_CHANNEL_NAME of
             Inl e \<Rightarrow> Inl e
           | Inr ch \<Rightarrow> Inr (c\<lparr>bots_channel := Some ch\<rparr>))"

definition admin_ui_steps :: "(toml_value \<Rightarrow> string) \<Rightarrow> toml_doc \<Rightarrow> (admin_ui_config \<Rightarrow> config_error + admin_ui_config) list" where
  "admin_ui_steps rep doc =
     [if_given (map_of (doc_admin_ui doc) ''enabled'') (Inr \<circ> to_bool) (\<lambda>x. ui_enabled_update (\<lambda>_. x)),
      if_given (map_of (doc_admin_ui doc) ''bind'') (Inr \<circ> to_str rep) (\<lambda>x. ui_bind_update (\<lambda>_. x)),
      if_given (map_of (doc_admin_ui doc) ''port'') to_int (\<lambda>x. ui_port_update (\<lambda>_. x)),
      if_given (map_of (doc_admin_ui doc) ''db_path'') (Inr \<circ> to_str rep) (\<lambda>x. ui_db_path_update (\<lambda>_. x)),
      if_given (map_of (doc_admin_ui doc) ''access_token_ttl_seconds'') to_int (\<lambda>x. access_token_ttl_seconds_update (\<lambda>_. x)),
      if_given (map_of (doc_admin_ui doc) ''refresh_token_ttl_seconds'') to_int (\<lambda>x. refresh_token_ttl_seconds_update (\<lambda>_. x)),
      if_given (map_of (doc_admin_ui doc) ''event_retention_days'') to_int (\<lambda>x. event_retention_days_update (\<lambda>_. x)),
      if_given (map_of (doc_admin_ui doc) ''event_queue_size'') to_int (\<lambda>x. event_queue_size_update (\<lambda>_. x)),
      if_given (map_of (doc_admin_ui doc) ''live_buffer_events'') to_int (\<lambda>x. live_buffer_events_update (\<lambda>_. x)),
      if_given (map_of (doc_admin_ui doc) ''max_live_streams'') to_int (\<lambda>x. max_live_streams_update (\<lambda>_. x)),
      if_given (map_of (doc_admin_ui doc) ''log_buffer_lines'') to_int (\<lambda>x. log_buffer_lines_update (\<lambda>_. x)),
      if_given (map_of (doc_admin_ui doc) ''max_log_streams'') to_int (\<lambda>x. max_log_streams_update (\<lambda>_. x)),
      if_given (map_of (doc_admin_ui doc) ''radio_cache_seconds'') to_float (\<lambda>x. radio_cache_seconds_update (\<lambda>_. x)),
      if_given (map_of (doc_admin_ui doc) ''radio_message_window'') to_int (\<lambda>x. radio_message_window_update (\<lambda>_. x)),
      if_given (map_of (doc_admin_ui doc) ''radio_message_contacts'') to_int (\<lambda>x. radio_message_contacts_update (\<lambda>_. x)),
      if_given (map_of (doc_admin_ui doc) ''radio_write_enabled'') (Inr \<circ> to_bool) (\<lambda>x. radio_write_enabled_update (\<lambda>_. x)),
      if_given (map_of (doc_admin_ui doc) ''radio_write_min_interval_seconds'') to_float (\<lambda>x. radio_write_min_interval_seconds_update (\<lambda>_. x))]"

definition admin_ui_step :: "(toml_value \<Rightarrow> string) \<Rightarrow> toml_doc \<Rightarrow> bot_config \<Rightarrow> config_error + bot_config" where
  "admin_ui_step rep doc c =
     (case run_steps (admin_ui_steps rep doc) (admin_ui c) of
        Inl e \<Rightarrow> Inl e
      | Inr ui \<Rightarrow> Inr (c\<lparr>admin_ui := ui\<rparr>))"

definition pubkeys_step :: "(toml_value \<Rightarrow> string) \<Rightarrow> toml_doc \<Rightarrow> bot_config \<Rightarrow> config_error + bot_config" where
  "pubkeys_step rep doc =
     if_truthy (map_of (doc_admin doc) ''pubkeys'') (to_str_list rep) (\<lambda>x. admin_update (\<lambda>_. \<lparr>pubkeys = x\<rparr>))"

definition apply_warnings :: "toml_doc \<Rightarrow> config_warning list" where
  "apply_warnings doc =
     warn_misplaced_section_keys ''admin'' (doc_admin doc) ADMIN_KEYS @
     warn_misplaced_section_keys ''admin_ui'' (doc_admin_ui doc) ADMIN_UI_KEYS @
     warn_misplaced_section_keys ''channel'' (doc_channel doc) CHANNEL_KEYS @
     warn_misplaced_section_keys ''bots_channel'' (doc_bots_channel doc) CHANNEL_KEYS"

definition apply_toml ::
  "(toml_value \<Rightarrow> string) \<Rightarrow> toml_doc \<Rightarrow> bot_config \<Rightarrow> config_warning list \<times> (config_error + bot_config)" where
  "apply_toml rep doc c =
     (apply_warnings doc,
      run_steps (root_steps rep doc @
        [channel_step rep doc, bots_channel_step rep doc, pubkeys_step rep doc, admin_ui_step rep doc]) c)"

definition env_steps :: "(string \<Rightarrow> string option) \<Rightarrow> (bot_config \<Rightarrow> config_error + bot_config) list" where
  "env_steps getenv =
     [if_truthy (map_option TString (getenv ''GAME_URL'')) (Inr \<circ> to_str (\<lambda>_. [])) (\<lambda>x. game_url_update (\<lambda>_. x)),
      if_truthy (map_option TString (getenv ''ADMIN_UI_ENABLED''))
        (\<lambda>v. Inr (lower (strip (to_str (\<lambda>_. []) v)) \<in> {''1'', ''true'', ''yes'', ''on''}))
        (\<lambda>x. admin_ui_update (ui_enabled_update (\<lambda>_. x))),
      if_truthy (map_option TString (getenv ''ADMIN_UI_BIND'')) (Inr \<circ> to_str (\<lambda>_. []))
        (\<lambda>x. admin_ui_update (ui_bind_update (\<lambda>_. x))),
      if_truthy (map_option TString (getenv ''ADMIN_UI_PORT'')) to_int
        (\<lambda>x. admin_ui_update (ui_port_update (\<lambda>_. x))),
      if_truthy (map_option TString (getenv ''ADMIN_UI_DB'')) (Inr \<circ> to_str (\<lambda>_. []))
        (\<lambda>x. admin_ui_update (ui_db_path_update (\<lambda>_. x)))]"

text \<open>\<open>load_config\<close>, with the file already read and parsed (\<open>None\<close> when no path is given).\<close>

definition load_config ::
  "(toml_value \<Rightarrow> string) \<Rightarrow> (string \<Rightarrow> string option) \<Rightarrow> toml_doc option \<Rightarrow> config_warning list \<times> (config_error + bot_config)" where
  "load_config rep getenv file =
     (let (warnings, base) = (case file of None \<Rightarrow> ([], Inr default_config) | Some doc \<Rightarrow> apply_toml rep doc default_config)
      in (warnings, case base of Inl e \<Rightarrow> Inl e | Inr c \<Rightarrow> run_steps (env_steps getenv) c))"

section \<open>Facts about the statement sequences\<close>

lemma run_steps_append:
  "run_steps (fs @ gs) c = (case run_steps fs c of Inl e \<Rightarrow> Inl e | Inr c' \<Rightarrow> run_steps gs c')"
  by (induction fs arbitrary: c) (simp_all split: sum.split)

lemma run_steps_keeps:
  assumes "list_all (\<lambda>f. \<forall>c c'. f c = Inr c' \<longrightarrow> g c' = g c) fs" and "run_steps fs c = Inr c'"
  shows "g c' = g c"
  using assms by (induction fs arbitrary: c) (auto split: sum.splits)

lemma if_given_keeps:
  "(\<And>x c. g (put x c) = g c) \<Longrightarrow> \<forall>c c'. if_given v conv put c = Inr c' \<longrightarrow> g c' = g c"
  by (auto simp: if_given_def split: option.splits sum.splits)

lemma if_truthy_keeps:
  "(\<And>x c. g (put x c) = g c) \<Longrightarrow> \<forall>c c'. if_truthy v conv put c = Inr c' \<longrightarrow> g c' = g c"
  by (auto simp: if_truthy_def if_given_def split: option.splits sum.splits if_splits)

lemma root_steps_keep_channels:
  "list_all (\<lambda>f. \<forall>c c'. f c = Inr c' \<longrightarrow> channel c' = channel c) (root_steps rep doc)"
  "list_all (\<lambda>f. \<forall>c c'. f c = Inr c' \<longrightarrow> bots_channel c' = bots_channel c) (root_steps rep doc)"
  unfolding root_steps_def list.pred_inject
  by (intro conjI TrueI if_given_keeps if_truthy_keeps; simp)+

lemma root_steps_cong:
  assumes "root_value doc = root_value doc'" and "doc_bots_channel doc = doc_bots_channel doc'"
    and "map_of (doc_root doc) ''name'' = map_of (doc_root doc') ''name''"
    and "map_of (doc_root doc) ''game_url'' = map_of (doc_root doc') ''game_url''"
  shows "root_steps rep doc = root_steps rep doc'"
  by (simp only: root_steps_def bots_value_def assms)

lemma admin_ui_steps_cong:
  assumes "list_all (\<lambda>key. map_of (doc_admin_ui doc) key = map_of (doc_admin_ui doc') key) ADMIN_UI_KEYS"
  shows "admin_ui_steps rep doc = admin_ui_steps rep doc'"
  using assms by (simp only: admin_ui_steps_def ADMIN_UI_KEYS_def list.pred_inject)

lemma optional_keys_disjoint:
  assumes "k \<in> set ROOT_OPTIONAL_KEYS"
  shows "k \<notin> set ADMIN_UI_KEYS" "k \<notin> set CHANNEL_KEYS" "k \<notin> set ADMIN_KEYS" "k \<notin> {''name'', ''game_url''}"
proof -
  have "list_all (\<lambda>k. k \<notin> set ADMIN_UI_KEYS \<and> k \<notin> set CHANNEL_KEYS \<and> k \<notin> set ADMIN_KEYS \<and>
      k \<notin> {''name'', ''game_url''}) ROOT_OPTIONAL_KEYS"
    by code_simp
  then show "k \<notin> set ADMIN_UI_KEYS" "k \<notin> set CHANNEL_KEYS" "k \<notin> set ADMIN_KEYS" "k \<notin> {''name'', ''game_url''}"
    using assms by (auto simp: list_all_iff)
qed

text \<open>A document with the setting \<open>k = v\<close> moved out of \<open>[channel]\<close> to the top level.\<close>

definition hoist :: "string \<Rightarrow> toml_value \<Rightarrow> toml_doc \<Rightarrow> toml_doc" where
  "hoist k v doc = doc\<lparr>doc_root := doc_root doc @ [(k, v)], doc_channel := AList.delete k (doc_channel doc)\<rparr>"

lemma root_value_hoist:
  assumes "map_of (doc_root doc) k = None" and "map_of (doc_channel doc) k = Some v"
  shows "root_value (hoist k v doc) = root_value doc"
  using assms by (auto simp: hoist_def root_value_def fun_eq_iff dict_simps map_add_def split: option.split)

lemma channel_step_hoist:
  assumes "k \<in> set ROOT_OPTIONAL_KEYS" and "map_of (doc_channel doc) k = Some v"
    and "channel c = channel default_config"
  shows "channel_step rep (hoist k v doc) c = channel_step rep doc c"
proof -
  have k: "k \<noteq> ''index''" "k \<noteq> ''name''"
    using optional_keys_disjoint(2) [OF assms(1)] by (auto simp: CHANNEL_KEYS_def)
  have "doc_channel doc \<noteq> []" using assms(2) by auto
  moreover have "channel_of rep (AList.delete k (doc_channel doc)) n nm = channel_of rep (doc_channel doc) n nm" for n nm
  proof -
    have "map_of (AList.delete k (doc_channel doc)) key = map_of (doc_channel doc) key" if "key \<noteq> k" for key
      using that by (simp add: dict_simps)
    from this [OF k(1) [symmetric]] this [OF k(2) [symmetric]] show ?thesis by (simp only: channel_of_def)
  qed
  moreover have "channel_of rep (doc_channel doc) (chan_index (channel c)) ZORK_CHANNEL_NAME = Inr (channel c)"
    if "AList.delete k (doc_channel doc) = []"
  proof -
    have "map_of (doc_channel doc) key = None" if "key \<noteq> k" for key
      using \<open>AList.delete k (doc_channel doc) = []\<close> that
      by (metis fun_upd_other map_of.simps(1) map_of_alist_delete)
    with k show ?thesis using assms(3) by (simp add: channel_of_def default_config_def)
  qed
  ultimately show ?thesis by (simp add: channel_step_def hoist_def)
qed

text \<open>What a configuration says about the two channels, and that no statement gives one a secret.\<close>

definition no_secrets :: "bot_config \<Rightarrow> bool" where
  "no_secrets c \<longleftrightarrow> chan_secret (channel c) = None \<and>
     (case bots_channel c of None \<Rightarrow> True | Some ch \<Rightarrow> chan_secret ch = None)"

lemma channel_of_no_secret: "channel_of rep t n nm = Inr ch \<Longrightarrow> chan_secret ch = None"
  by (auto simp: channel_of_def split: sum.splits)

lemma no_secrets_eq: "channel c' = channel c \<Longrightarrow> bots_channel c' = bots_channel c \<Longrightarrow> no_secrets c' = no_secrets c"
  by (simp add: no_secrets_def)

lemma apply_toml_no_secrets:
  assumes "no_secrets c" and "snd (apply_toml rep doc c) = Inr c'"
  shows "no_secrets c'"
proof -
  obtain c1 where c1: "run_steps (root_steps rep doc) c = Inr c1"
    and rest: "run_steps [channel_step rep doc, bots_channel_step rep doc, pubkeys_step rep doc, admin_ui_step rep doc] c1 = Inr c'"
    using assms(2) by (auto simp: apply_toml_def run_steps_append split: sum.splits)
  from c1 have "no_secrets c1"
    using assms(1) no_secrets_eq run_steps_keeps [OF root_steps_keep_channels(1)]
      run_steps_keeps [OF root_steps_keep_channels(2)] by metis
  moreover have "no_secrets y" if "channel_step rep doc x = Inr y" "no_secrets x" for x y
    using that by (auto simp: channel_step_def no_secrets_def dest: channel_of_no_secret split: if_splits sum.splits)
  moreover have "no_secrets y" if "bots_channel_step rep doc x = Inr y" "no_secrets x" for x y
    using that by (auto simp: bots_channel_step_def no_secrets_def dest: channel_of_no_secret split: if_splits sum.splits)
  moreover have "no_secrets y" if "pubkeys_step rep doc x = Inr y" "no_secrets x" for x y
    using that by (auto simp: pubkeys_step_def if_truthy_def if_given_def no_secrets_def split: if_splits sum.splits option.splits)
  moreover have "no_secrets y" if "admin_ui_step rep doc x = Inr y" "no_secrets x" for x y
    using that by (auto simp: admin_ui_step_def no_secrets_def split: sum.splits)
  ultimately show ?thesis using rest by (auto split: sum.splits)
qed

lemma env_steps_keep_channels:
  "list_all (\<lambda>f. \<forall>c c'. f c = Inr c' \<longrightarrow> channel c' = channel c) (env_steps getenv)"
  "list_all (\<lambda>f. \<forall>c c'. f c = Inr c' \<longrightarrow> bots_channel c' = bots_channel c) (env_steps getenv)"
  unfolding env_steps_def list.pred_inject
  by (intro conjI TrueI if_given_keeps if_truthy_keeps; simp)+

section \<open>Properties\<close>

text \<open>
  A top-level setting written under \<open>[channel]\<close> takes effect exactly as if it stood at the top
  level: loading the document gives the same configuration (or the same error) as loading the
  document with that setting moved, whatever else the document and the environment contain.
\<close>

theorem config_misplaced_applies:
  assumes "k \<in> set ROOT_OPTIONAL_KEYS"
    and "map_of (doc_root doc) k = None" and "map_of (doc_channel doc) k = Some v"
  shows "snd (load_config rep getenv (Some doc)) = snd (load_config rep getenv (Some (hoist k v doc)))"
proof -
  note d = optional_keys_disjoint(4) [OF assms(1)]
  have roots: "root_steps rep (hoist k v doc) = root_steps rep doc"
    by (rule root_steps_cong [OF root_value_hoist [OF assms(2,3)]])
      (use d in \<open>auto simp: hoist_def map_add_def split: option.split\<close>)
  have rest: "bots_channel_step rep (hoist k v doc) = bots_channel_step rep doc"
    "pubkeys_step rep (hoist k v doc) = pubkeys_step rep doc"
    "admin_ui_step rep (hoist k v doc) = admin_ui_step rep doc"
    by (simp_all add: hoist_def bots_channel_step_def pubkeys_step_def admin_ui_step_def admin_ui_steps_def fun_eq_iff)
  have "channel_step rep (hoist k v doc) c = channel_step rep doc c"
    if "run_steps (root_steps rep doc) default_config = Inr c" for c
    using channel_step_hoist [OF assms(1,3)] run_steps_keeps [OF root_steps_keep_channels(1) that] by blast
  then have "snd (apply_toml rep (hoist k v doc) default_config) = snd (apply_toml rep doc default_config)"
    by (simp add: apply_toml_def roots rest run_steps_append split: sum.split)
  then show ?thesis by (simp add: load_config_def case_prod_beta)
qed

theorem config_misplaced_applies_witness:
  "snd (load_config (\<lambda>_. []) (\<lambda>_. None) (Some \<lparr>doc_root = [], doc_admin = [], doc_admin_ui = [],
      doc_channel = [(''packet_max_chars'', TInt 90)], doc_bots_channel = []\<rparr>)) =
   snd (load_config (\<lambda>_. []) (\<lambda>_. None) (Some \<lparr>doc_root = [(''packet_max_chars'', TInt 90)], doc_admin = [],
      doc_admin_ui = [], doc_channel = [], doc_bots_channel = []\<rparr>))"
  using config_misplaced_applies [of "''packet_max_chars''"
      "\<lparr>doc_root = [], doc_admin = [], doc_admin_ui = [],
      doc_channel = [(''packet_max_chars'', TInt 90)], doc_bots_channel = []\<rparr>" "TInt 90" "\<lambda>_. []" "\<lambda>_. None"]
  by (simp add: hoist_def ROOT_OPTIONAL_KEYS_def)

text \<open>
  The same setting under \<open>[admin_ui]\<close> draws the same warning, which says it is applied
  anyway, but it has no effect at all: the outcome is that of the document without it.
\<close>

theorem config_admin_ui_misplaced_ignored:
  assumes "k \<in> set ROOT_OPTIONAL_KEYS" and "map_of (doc_admin_ui doc) k = Some v"
  shows "Misplaced k ''admin_ui'' \<in> set (fst (apply_toml rep doc c)) \<and>
    snd (apply_toml rep doc c) = snd (apply_toml rep (doc\<lparr>doc_admin_ui := AList.delete k (doc_admin_ui doc)\<rparr>) c)"
proof
  let ?doc = "doc\<lparr>doc_admin_ui := AList.delete k (doc_admin_ui doc)\<rparr>"
  note d = optional_keys_disjoint(1) [OF assms(1)]
  have "k \<in> fst ` set (doc_admin_ui doc)" using assms(2) by (force dest: map_of_SomeD)
  then show "Misplaced k ''admin_ui'' \<in> set (fst (apply_toml rep doc c))"
    using d assms(1) by (auto simp: apply_toml_def apply_warnings_def warn_misplaced_section_keys_def)
  have ui: "admin_ui_steps rep ?doc = admin_ui_steps rep doc"
    by (rule admin_ui_steps_cong) (use d in \<open>auto simp: list_all_iff dict_simps\<close>)
  have roots: "root_steps rep ?doc = root_steps rep doc"
    by (rule root_steps_cong) (simp_all add: root_value_def fun_eq_iff split: option.split)
  have "channel_step rep ?doc = channel_step rep doc" "bots_channel_step rep ?doc = bots_channel_step rep doc"
    "pubkeys_step rep ?doc = pubkeys_step rep doc" "admin_ui_step rep ?doc = admin_ui_step rep doc"
    by (simp_all add: channel_step_def bots_channel_step_def pubkeys_step_def admin_ui_step_def ui fun_eq_iff)
  then show "snd (apply_toml rep doc c) = snd (apply_toml rep ?doc c)"
    by (simp add: apply_toml_def roots)
qed

theorem config_admin_ui_misplaced_ignored_witness:
  "snd (apply_toml (\<lambda>_. []) \<lparr>doc_root = [], doc_admin = [], doc_admin_ui = [(''log_level'', TString ''DEBUG'')],
      doc_channel = [], doc_bots_channel = []\<rparr> default_config) =
   snd (apply_toml (\<lambda>_. []) \<lparr>doc_root = [], doc_admin = [], doc_admin_ui = [],
      doc_channel = [], doc_bots_channel = []\<rparr> default_config)"
  using config_admin_ui_misplaced_ignored [of "''log_level''" "\<lparr>doc_root = [], doc_admin = [],
      doc_admin_ui = [(''log_level'', TString ''DEBUG'')], doc_channel = [], doc_bots_channel = []\<rparr>"
      "TString ''DEBUG''" "\<lambda>_. []" default_config]
  by (simp add: ROOT_OPTIONAL_KEYS_def)

text \<open>
  No document can give a channel a secret: whatever \<open>[channel]\<close> and \<open>[bots_channel]\<close> say
  under \<open>secret\<close>, a key they accept without a warning, a loaded configuration has none.
\<close>

theorem config_channel_secret_ignored:
  assumes "snd (load_config rep getenv file) = Inr cfg"
  shows "chan_secret (channel cfg) = None \<and>
    (case bots_channel cfg of None \<Rightarrow> True | Some ch \<Rightarrow> chan_secret ch = None)"
proof -
  have def: "no_secrets default_config" by (simp add: no_secrets_def default_config_def)
  obtain c where c: "no_secrets c" and env: "run_steps (env_steps getenv) c = Inr cfg"
    using assms def apply_toml_no_secrets [OF def]
    by (cases "file") (auto simp: load_config_def case_prod_beta split: sum.splits)
  have "no_secrets cfg"
    using c no_secrets_eq [OF run_steps_keeps [OF env_steps_keep_channels(1) env]
        run_steps_keeps [OF env_steps_keep_channels(2) env]] by simp
  then show ?thesis by (simp add: no_secrets_def)
qed

theorem config_channel_secret_ignored_witness:
  "chan_secret (channel (default_config\<lparr>channel := \<lparr>chan_index = 3, chan_name = ''#cave'', chan_secret = None\<rparr>\<rparr>)) = None"
proof -
  let ?doc = "\<lparr>doc_root = [], doc_admin = [], doc_admin_ui = [],
      doc_channel = [(''index'', TInt 3), (''name'', TString ''#cave''), (''secret'', TString ''00ff'')],
      doc_bots_channel = []\<rparr>"
  let ?cfg = "default_config\<lparr>channel := \<lparr>chan_index = 3, chan_name = ''#cave'', chan_secret = None\<rparr>\<rparr>"
  have "snd (load_config (\<lambda>_. []) (\<lambda>_. None) (Some ?doc)) = Inr ?cfg"
    by (simp add: load_config_def apply_toml_def root_steps_def root_value_def bots_value_def if_truthy_def
        if_given_def channel_step_def channel_of_def bots_channel_step_def pubkeys_step_def admin_ui_step_def
        admin_ui_steps_def env_steps_def default_config_def)
  from config_channel_secret_ignored [OF this] show ?thesis by simp
qed

end
