(* ===== verification/Bot_IO.thy ===== *)
theory Bot_IO
  imports Session_State Config
begin

text \<open>
  The setting in which the command handlers run: contexts (\<^verbatim>\<open>src/zorkbot/src/zorkbot/context.py\<close>)
  and an explicit model of what a coroutine can do.

  A handler is a function of an environment and a world. The world holds the session registry,
  the trace of external effects so far and the fan-out jobs queued so far. The environment gives,
  as functions of that trace, everything the program cannot compute: what a reply or a direct
  message returned, how the game service answered, the clocks, the radio's contact table. Every
  \<open>await\<close> is an \<open>await_eff\<close>: the effect is recorded and then \<open>interfere\<close> may change the
  registry, which is what other tasks do while this one is suspended. Code between two awaits
  runs without interference, as on the single asyncio thread.

  \<open>own_steps\<close> is a specification device: the registry before and after each update the coroutine
  itself made, so that what it does to the registry can be told from what others did. \<open>moves\<close> has these
  updates (\<open>True\<close>) and those of others at each await (\<open>False\<close>) in the order they happened.

  Exceptions are values; \<open>Other_exn\<close> stands for every exception class the handlers do not name.
\<close>

section \<open>Messages and contexts\<close>

record incoming_message =
  im_text :: string
  im_sender_name :: "string option"
  im_pubkey_prefix :: "string option"
  im_is_dm :: bool
  im_channel_idx :: int

record bot_context =
  ctx_message :: incoming_message
  ctx_args :: string
  ctx_config :: bot_config

abbreviation ctx_pubkey_prefix :: "bot_context \<Rightarrow> string option" where
  "ctx_pubkey_prefix ctx \<equiv> im_pubkey_prefix (ctx_message ctx)"

abbreviation ctx_sender_name :: "bot_context \<Rightarrow> string option" where
  "ctx_sender_name ctx \<equiv> im_sender_name (ctx_message ctx)"

abbreviation ctx_is_dm :: "bot_context \<Rightarrow> bool" where
  "ctx_is_dm ctx \<equiv> im_is_dm (ctx_message ctx)"

definition is_admin :: "bot_context \<Rightarrow> bool" where
  "is_admin ctx \<longleftrightarrow>
     (case ctx_pubkey_prefix ctx of
        None \<Rightarrow> False
      | Some p \<Rightarrow> p \<noteq> [] \<and> lower p \<in> admin_pubkeys (ctx_config ctx))"

section \<open>Effects, environments and worlds\<close>

datatype exn =
    GameServiceError string
  | SessionFullError string
  | SessionNotFoundError string
  | Other_exn string

text \<open>\<open>except GameServiceError\<close>: the other two classes derive from it.\<close>

fun is_game_error :: "exn \<Rightarrow> bool" where
  "is_game_error (Other_exn _) = False"
| "is_game_error _ = True"

text \<open>\<open>str(exc)\<close>.\<close>

fun exn_text :: "exn \<Rightarrow> string" where
  "exn_text (GameServiceError m) = m"
| "exn_text (SessionFullError m) = m"
| "exn_text (SessionNotFoundError m) = m"
| "exn_text (Other_exn m) = m"

record http_request =
  http_method :: string
  path :: string
  json_body :: "(string \<times> string) list"

text \<open>
  The JSON object of a response, with the fields the client reads; a field that is absent is
  \<open>None\<close>. The fields have the types the service documents.
\<close>

record session_entry =
  se_num :: "int option"
  se_player_id :: "string option"
  se_started_at :: "string option"
  se_last_command_at :: "string option"

record payload =
  pl_ok :: "bool option"
  pl_output :: "string option"
  pl_error :: "string option"
  pl_sessions :: "session_entry list option"

text \<open>
  A response: its status, the content type header, the body (\<open>None\<close> when it is not a JSON object)
  and the text of the exception \<open>raise_for_status\<close> would raise.
\<close>

record http_response =
  status_code :: int
  content_type :: string
  body :: "payload option"
  status_text :: string

datatype http_outcome = Http_failure string | Http_response http_response

datatype effect =
    Eff_reply string
  | Eff_dm string string
  | Eff_watcher_dm string string
  | Eff_request http_request
  | Eff_advert
  | Eff_sleep real

type_synonym contact = "(string \<times> string) list"

record env =
  ans_reply :: "effect list \<Rightarrow> string \<Rightarrow> exn + bool option"
  ans_dm :: "effect list \<Rightarrow> string \<Rightarrow> string \<Rightarrow> exn + bool option"
  ans_watcher_dm :: "effect list \<Rightarrow> string \<Rightarrow> string \<Rightarrow> exn + bool option"
  has_dm_sender :: bool
  has_watcher_sender :: bool
  ans_http :: "effect list \<Rightarrow> http_request \<Rightarrow> http_outcome"
  monotonic :: "effect list \<Rightarrow> real"
  wall_time :: "effect list \<Rightarrow> real"
  contact_by_prefix :: "effect list \<Rightarrow> string \<Rightarrow> contact option"
  jitter :: "effect list \<Rightarrow> real"
  interfere :: "effect list \<Rightarrow> session_state \<Rightarrow> session_state"

text \<open>The coroutines given to \<open>_fanout\<close>: an end-of-session notice, or one command's output.\<close>

datatype fan_job = Notify_ended session_record | Fan_output session_record "string list"

record world =
  reg :: session_state
  trace :: "effect list"
  fanouts :: "(int \<times> fan_job) list"
  own_steps :: "(session_state \<times> session_state) list"
  moves :: "(bool \<times> session_state \<times> session_state) list"

type_synonym 'a io = "env \<Rightarrow> world \<Rightarrow> (exn + 'a) \<times> world"

section \<open>Coroutines\<close>

definition ret :: "'a \<Rightarrow> 'a io" where
  "ret x env w = (Inr x, w)"

definition throw :: "exn \<Rightarrow> 'a io" where
  "throw e env w = (Inl e, w)"

definition bind_io :: "'a io \<Rightarrow> ('a \<Rightarrow> 'b io) \<Rightarrow> 'b io" where
  "bind_io m k env w = (case m env w of (Inl e, w') \<Rightarrow> (Inl e, w') | (Inr x, w') \<Rightarrow> k x env w')"

definition catch_io :: "'a io \<Rightarrow> (exn \<Rightarrow> 'a io) \<Rightarrow> 'a io" where
  "catch_io m h env w = (case m env w of (Inl e, w') \<Rightarrow> h e env w' | (Inr x, w') \<Rightarrow> (Inr x, w'))"

definition read_reg :: "(session_state \<Rightarrow> 'a) \<Rightarrow> 'a io" where
  "read_reg f env w = (Inr (f (reg w)), w)"

definition did :: "(session_state \<Rightarrow> 'a \<times> session_state) \<Rightarrow> world \<Rightarrow> world" where
  "did f w = w\<lparr>reg := snd (f (reg w)), own_steps := own_steps w @ [(reg w, snd (f (reg w)))],
     moves := moves w @ [(True, reg w, snd (f (reg w)))]\<rparr>"

definition upd_reg :: "(session_state \<Rightarrow> 'a \<times> session_state) \<Rightarrow> 'a io" where
  "upd_reg f env w = (Inr (fst (f (reg w))), did f w)"

definition ask :: "(env \<Rightarrow> effect list \<Rightarrow> 'a) \<Rightarrow> 'a io" where
  "ask f env w = (Inr (f env (trace w)), w)"

definition queue_fanout :: "int \<Rightarrow> fan_job \<Rightarrow> unit io" where
  "queue_fanout n job env w = (Inr (), w\<lparr>fanouts := fanouts w @ [(n, job)]\<rparr>)"

definition after :: "env \<Rightarrow> effect \<Rightarrow> world \<Rightarrow> world" where
  "after env eff w =
     w\<lparr>trace := trace w @ [eff], reg := interfere env (trace w @ [eff]) (reg w),
       moves := moves w @ [(False, reg w, interfere env (trace w @ [eff]) (reg w))]\<rparr>"

definition await_eff :: "effect \<Rightarrow> (env \<Rightarrow> effect list \<Rightarrow> exn + 'a) \<Rightarrow> 'a io" where
  "await_eff eff ans env w = (ans env (trace w), after env eff w)"

text \<open>\<open>Context.reply\<close> and \<open>Context.reply_many\<close> over the context's sender.\<close>

definition send_reply :: "string \<Rightarrow> bool option io" where
  "send_reply t = await_eff (Eff_reply t) (\<lambda>env tr. ans_reply env tr t)"

definition reply :: "string \<Rightarrow> bool io" where
  "reply t = bind_io (send_reply t) (\<lambda>r. ret (r \<noteq> Some False))"

primrec reply_many :: "bot_context \<Rightarrow> string list \<Rightarrow> bool io" where
  "reply_many ctx [] = ret True"
| "reply_many ctx (t # ts) =
     bind_io (send_reply t) (\<lambda>r.
       if r = Some False \<and> dm_ack_abandon_response (ctx_config ctx) then ret False
       else reply_many ctx ts)"

lemma did_simps [simp]: "reg (did f w) = snd (f (reg w))" "trace (did f w) = trace w" "fanouts (did f w) = fanouts w"
  "moves (did f w) = moves w @ [(True, reg w, snd (f (reg w)))]"
  by (simp_all add: did_def)

lemma after_simps [simp]: "reg (after env eff w) = interfere env (trace w @ [eff]) (reg w)"
  "trace (after env eff w) = trace w @ [eff]" "fanouts (after env eff w) = fanouts w"
  "own_steps (after env eff w) = own_steps w"
  "moves (after env eff w) = moves w @ [(False, reg w, interfere env (trace w @ [eff]) (reg w))]"
  by (simp_all add: after_def)

section \<open>Triples\<close>

text \<open>
  \<open>triple E P m Q R\<close>: run from a world satisfying \<open>P\<close> in an environment satisfying \<open>E\<close>, the
  coroutine ends in a world satisfying \<open>Q\<close> of its result, or \<open>R\<close> if it raises.
\<close>

definition triple ::
  "(env \<Rightarrow> bool) \<Rightarrow> (world \<Rightarrow> bool) \<Rightarrow> 'a io \<Rightarrow> ('a \<Rightarrow> world \<Rightarrow> bool) \<Rightarrow> (world \<Rightarrow> bool) \<Rightarrow> bool" where
  "triple E P m Q R \<longleftrightarrow>
     (\<forall>env w. E env \<longrightarrow> P w \<longrightarrow> (case m env w of (Inr x, w') \<Rightarrow> Q x w' | (Inl e, w') \<Rightarrow> R w'))"

definition keeps :: "(env \<Rightarrow> bool) \<Rightarrow> (world \<Rightarrow> bool) \<Rightarrow> 'a io \<Rightarrow> bool" where
  "keeps E I m \<longleftrightarrow> triple E I m (\<lambda>_. I) I"

named_theorems keeps_intros \<open>syntax-directed rules for invariants of coroutines\<close>

lemma triple_iff:
  "triple E P m Q R \<longleftrightarrow> (\<forall>env w. E env \<longrightarrow> P w \<longrightarrow>
     (\<forall>x w'. m env w = (Inr x, w') \<longrightarrow> Q x w') \<and> (\<forall>e w'. m env w = (Inl e, w') \<longrightarrow> R w'))"
  unfolding triple_def by (intro iff_allI imp_cong refl) (auto split: sum.split prod.split)

lemma bind_io_cases:
  "bind_io m k env w = (r, w') \<longleftrightarrow>
     (\<exists>e. m env w = (Inl e, w') \<and> r = Inl e) \<or> (\<exists>x w1. m env w = (Inr x, w1) \<and> k x env w1 = (r, w'))"
  by (auto simp: bind_io_def split: sum.splits prod.splits)

lemma catch_io_cases:
  "catch_io m h env w = (r, w') \<longleftrightarrow>
     (\<exists>x. m env w = (Inr x, w') \<and> r = Inr x) \<or> (\<exists>e w1. m env w = (Inl e, w1) \<and> h e env w1 = (r, w'))"
  by (auto simp: catch_io_def split: sum.splits prod.splits)

lemma triple_weaken:
  "triple E P' m Q' R' \<Longrightarrow> (\<And>w. P w \<Longrightarrow> P' w) \<Longrightarrow> (\<And>x w. Q' x w \<Longrightarrow> Q x w) \<Longrightarrow> (\<And>w. R' w \<Longrightarrow> R w) \<Longrightarrow>
    triple E P m Q R"
  unfolding triple_iff by blast

lemma triple_bind:
  "triple E P m Q' R \<Longrightarrow> (\<And>x. triple E (Q' x) (k x) Q R) \<Longrightarrow> triple E P (bind_io m k) Q R"
  unfolding triple_iff bind_io_cases by blast

lemma triple_read:
  "(\<And>x. triple E (\<lambda>w. P w \<and> x = f (reg w)) (k x) Q R) \<Longrightarrow> triple E P (bind_io (read_reg f) k) Q R"
  unfolding triple_def bind_io_def read_reg_def by simp

lemma triple_upd:
  "(\<And>w. P w \<Longrightarrow> P' (did f w)) \<Longrightarrow> (\<And>x. triple E P' (k x) Q R) \<Longrightarrow> triple E P (bind_io (upd_reg f) k) Q R"
  unfolding triple_def bind_io_def upd_reg_def by simp

lemma triple_ask: "(\<And>x. triple E P (k x) Q R) \<Longrightarrow> triple E P (bind_io (ask f) k) Q R"
  unfolding triple_def bind_io_def ask_def by simp

lemma triple_branch:
  "(b \<Longrightarrow> triple E P m Q R) \<Longrightarrow> (\<not> b \<Longrightarrow> triple E P n Q R) \<Longrightarrow> triple E P (if b then m else n) Q R"
  by simp

lemma triple_prod: "(\<And>a b. x = (a, b) \<Longrightarrow> triple E P (f a b) Q R) \<Longrightarrow> triple E P (case x of (a, b) \<Rightarrow> f a b) Q R"
  by (simp split: prod.split)

lemma triple_option:
  "(x = None \<Longrightarrow> triple E P m Q R) \<Longrightarrow> (\<And>v. x = Some v \<Longrightarrow> triple E P (f v) Q R) \<Longrightarrow>
    triple E P (case x of None \<Rightarrow> m | Some v \<Rightarrow> f v) Q R"
  by (simp split: option.split)

lemma triple_keeps: "keeps E I m \<Longrightarrow> (\<And>w. P w \<Longrightarrow> I w) \<Longrightarrow> triple E P m (\<lambda>_. I) I"
  unfolding keeps_def by (rule triple_weaken)

lemma keeps_bind [keeps_intros]: "keeps E I m \<Longrightarrow> (\<And>x. keeps E I (k x)) \<Longrightarrow> keeps E I (bind_io m k)"
  unfolding keeps_def by (rule triple_bind)

lemma keeps_catch [keeps_intros]: "keeps E I m \<Longrightarrow> (\<And>e. keeps E I (h e)) \<Longrightarrow> keeps E I (catch_io m h)"
  unfolding keeps_def triple_iff catch_io_cases by blast

lemma keeps_pure [keeps_intros]:
  "keeps E I (ret x)" "keeps E I (throw e)" "keeps E I (read_reg f)" "keeps E I (ask g)"
  by (simp_all add: keeps_def triple_def ret_def throw_def read_reg_def ask_def)

lemma keeps_branch [keeps_intros]:
  "(b \<Longrightarrow> keeps E I m) \<Longrightarrow> (\<not> b \<Longrightarrow> keeps E I n) \<Longrightarrow> keeps E I (if b then m else n)"
  by simp

lemma keeps_option [keeps_intros]:
  "(x = None \<Longrightarrow> keeps E I m) \<Longrightarrow> (\<And>v. x = Some v \<Longrightarrow> keeps E I (f v)) \<Longrightarrow>
    keeps E I (case x of None \<Rightarrow> m | Some v \<Rightarrow> f v)"
  by (simp split: option.split)

lemma keeps_sum [keeps_intros]:
  "(\<And>e. x = Inl e \<Longrightarrow> keeps E I (f e)) \<Longrightarrow> (\<And>v. x = Inr v \<Longrightarrow> keeps E I (g v)) \<Longrightarrow>
    keeps E I (case x of Inl e \<Rightarrow> f e | Inr v \<Rightarrow> g v)"
  by (simp split: sum.split)

lemma keeps_prod [keeps_intros]: "(\<And>a b. keeps E I (f a b)) \<Longrightarrow> keeps E I (case x of (a, b) \<Rightarrow> f a b)"
  by (simp split: prod.split)

lemma keeps_exn [keeps_intros]:
  "(\<And>m. keeps E I (f m)) \<Longrightarrow> (\<And>m. keeps E I (g m)) \<Longrightarrow> (\<And>m. keeps E I (h m)) \<Longrightarrow> (\<And>m. keeps E I (k m)) \<Longrightarrow>
    keeps E I (case e of GameServiceError m \<Rightarrow> f m | SessionFullError m \<Rightarrow> g m | SessionNotFoundError m \<Rightarrow> h m | Other_exn m \<Rightarrow> k m)"
  by (simp split: exn.split)

lemma keeps_await:
  "(\<And>env w. E env \<Longrightarrow> I w \<Longrightarrow> I (after env eff w)) \<Longrightarrow> keeps E I (await_eff eff ans)"
  unfolding keeps_def triple_def await_eff_def by (simp split: sum.split)

lemma keeps_upd: "(\<And>w. I w \<Longrightarrow> I (did f w)) \<Longrightarrow> keeps E I (upd_reg f)"
  unfolding keeps_def triple_def upd_reg_def by simp

lemma keeps_queue: "(\<And>w. I w \<Longrightarrow> I (w\<lparr>fanouts := fanouts w @ [(n, job)]\<rparr>)) \<Longrightarrow> keeps E I (queue_fanout n job)"
  unfolding keeps_def triple_def queue_fanout_def by simp

lemma keepsD:
  assumes "keeps E I m" and "E env" and "I w"
  shows "I (snd (m env w))"
proof (cases "m env w")
  case (Pair r w')
  have "(\<forall>x w'. m env w = (Inr x, w') \<longrightarrow> I w') \<and> (\<forall>e w'. m env w = (Inl e, w') \<longrightarrow> I w')"
    using assms unfolding keeps_def triple_iff by blast
  with Pair show ?thesis by (cases r) simp_all
qed

end
