(* ===== verification/Game_Client.thy ===== *)
theory Game_Client
  imports Bot_IO
begin

text \<open>
  The client of the game service, \<^verbatim>\<open>src/zorkbot/src/zorkbot/game_client.py\<close>. The HTTP library is a
  parameter (\<open>ans_http\<close> of the environment): a request either fails without a response or gets
  one, and \<open>raise_for_status\<close> raises on every status outside 200 .. 299, as httpx documents.
  The HTTP clients it opens and closes are the subject of \<open>Client_Pool\<close>.
\<close>

record command_result =
  cr_ok :: bool
  cr_output :: string
  cr_error :: string

record session_info =
  si_num :: int
  si_player_id :: string
  si_started_at :: string
  si_last_command_at :: string

definition is_success :: "int \<Rightarrow> bool" where
  "is_success st \<longleftrightarrow> 200 \<le> st \<and> st \<le> 299"

definition json_error :: exn where
  "json_error = Other_exn ''JSONDecodeError''"

definition raise_status :: "int \<Rightarrow> string \<Rightarrow> exn" where
  "raise_status st message =
     (if st = 503 then SessionFullError message
      else if st = 404 then SessionNotFoundError message
      else GameServiceError message)"

definition client_request :: "http_request \<Rightarrow> http_response io" where
  "client_request rq =
     bind_io (await_eff (Eff_request rq) (\<lambda>env tr. Inr (ans_http env tr rq))) (\<lambda>out.
       case out of
         Http_failure m \<Rightarrow> throw (Other_exn m)
       | Http_response resp \<Rightarrow>
           if is_success (status_code resp) then ret resp
           else if startswith (content_type resp) ''application/json'' then
             (case body resp of
                None \<Rightarrow> throw json_error
              | Some pl \<Rightarrow> throw (raise_status (status_code resp)
                  (case pl_error pl of None \<Rightarrow> status_text resp | Some m \<Rightarrow> m)))
           else throw (raise_status (status_code resp) (status_text resp)))"

definition response_json :: "http_response \<Rightarrow> payload io" where
  "response_json resp = (case body resp of None \<Rightarrow> throw json_error | Some pl \<Rightarrow> ret pl)"

definition or_default :: "'a option \<Rightarrow> 'a \<Rightarrow> 'a" where
  "or_default x d = (case x of None \<Rightarrow> d | Some v \<Rightarrow> v)"

definition start_session_request :: "string \<Rightarrow> http_request" where
  "start_session_request p = \<lparr>http_method = ''POST'', path = ''/sessions'', json_body = [(''player_id'', p)]\<rparr>"

definition end_session_request :: "string \<Rightarrow> http_request" where
  "end_session_request p = \<lparr>http_method = ''DELETE'', path = ''/sessions/'' @ p, json_body = []\<rparr>"

definition reset_session_request :: "string \<Rightarrow> http_request" where
  "reset_session_request p = \<lparr>http_method = ''DELETE'', path = ''/sessions/'' @ p @ ''/save'', json_body = []\<rparr>"

definition command_request :: "string \<Rightarrow> string \<Rightarrow> http_request" where
  "command_request p t = \<lparr>http_method = ''POST'', path = ''/sessions/'' @ p @ ''/command'', json_body = [(''text'', t)]\<rparr>"

definition list_sessions_request :: http_request where
  "list_sessions_request = \<lparr>http_method = ''GET'', path = ''/sessions'', json_body = []\<rparr>"

definition health_request :: http_request where
  "health_request = \<lparr>http_method = ''GET'', path = ''/health'', json_body = []\<rparr>"

definition start_session :: "string \<Rightarrow> unit io" where
  "start_session p =
     bind_io (client_request (start_session_request p)) (\<lambda>resp.
     bind_io (response_json resp) (\<lambda>pl.
       if \<not> or_default (pl_ok pl) False then
         (let error = or_default (pl_error pl) ''start failed''
          in if status_code resp = 503 then throw (SessionFullError error) else throw (GameServiceError error))
       else ret ()))"

definition end_session :: "string \<Rightarrow> unit io" where
  "end_session p =
     bind_io (client_request (end_session_request p)) (\<lambda>resp.
     bind_io (response_json resp) (\<lambda>pl.
       if \<not> or_default (pl_ok pl) False then throw (GameServiceError (or_default (pl_error pl) ''end failed''))
       else ret ()))"

definition reset_session :: "string \<Rightarrow> unit io" where
  "reset_session p =
     bind_io (client_request (reset_session_request p)) (\<lambda>resp.
     bind_io (response_json resp) (\<lambda>pl.
       if \<not> or_default (pl_ok pl) False then throw (GameServiceError (or_default (pl_error pl) ''reset failed''))
       else ret ()))"

text \<open>\<open>s["num"]\<close> and its like raise \<open>KeyError\<close> on an entry that lacks the field.\<close>

definition session_info_of :: "session_entry \<Rightarrow> session_info option" where
  "session_info_of s =
     (case (se_num s, se_player_id s, se_started_at s) of
        (Some n, Some p, Some t) \<Rightarrow>
          Some \<lparr>si_num = n, si_player_id = p, si_started_at = t,
                si_last_command_at = or_default (se_last_command_at s) []\<rparr>
      | _ \<Rightarrow> None)"

definition list_sessions :: "session_info list io" where
  "list_sessions =
     bind_io (client_request list_sessions_request) (\<lambda>resp.
     bind_io (response_json resp) (\<lambda>pl.
       let infos = map session_info_of (or_default (pl_sessions pl) [])
       in if None \<in> set infos then throw (Other_exn ''KeyError'') else ret (map the infos)))"

definition game_command :: "string \<Rightarrow> string \<Rightarrow> command_result io" where
  "game_command p t =
     bind_io (client_request (command_request p t)) (\<lambda>resp.
     bind_io (response_json resp) (\<lambda>pl.
       ret \<lparr>cr_ok = or_default (pl_ok pl) False, cr_output = or_default (pl_output pl) [],
            cr_error = or_default (pl_error pl) []\<rparr>))"

definition health :: "bool io" where
  "health = bind_io (client_request health_request) (\<lambda>resp. ret (status_code resp = 200))"

end
