(* ===== verification/Commands.thy ===== *)
theory Commands
  imports Game_Client Packetize Sanitize "HOL-Library.Product_Lexorder"
begin

text \<open>
  The command handlers, \<^verbatim>\<open>src/zorkbot/src/zorkbot/commands/*.py\<close>, and the end-of-session notice,
  \<^verbatim>\<open>watcher_notify.py\<close>. Each handler is the whole coroutine: every reply, every call of the game
  service and every change of the registry, in the order of the code, with the early returns as
  branches. Log lines are left out.

  A watcher job reads the watchers of its session when it runs, not when it is queued:
  \<open>current_record\<close> is the record object as it is then. Two characters outside Latin-1 occur in
  the texts (an arrow in \<open>!watchers\<close> and a penguin in \<open>!author\<close>); each is represented by the
  character SUBSTITUTE, one code point for one.
\<close>

section \<open>Texts\<close>

definition NL :: string where
  "NL = [CHR 0x0A]"

definition cannot_identify :: string where
  "cannot_identify = ''Cannot identify you - please send an Advert.''"

definition HELP_LINES_1 :: "string list" where
  "HELP_LINES_1 =
     [''!start - begin/resume game'',
      ''!end - save & quit'',
      ''!list - active sessions'',
      ''!watch <N> - observe session'']"

definition HELP_PACKET_1 :: string where
  "HELP_PACKET_1 = join NL HELP_LINES_1"

definition CHANNEL_HELP_LINES_2 :: "string list" where
  "CHANNEL_HELP_LINES_2 =
     [''!watchers - list all observers'',
      ''!author - bot info & source'',
      ''!uptime - bot uptime'']"

definition channel_help_packets :: "int \<Rightarrow> string list" where
  "channel_help_packets max_chars = add_sequence_prefixes (HELP_PACKET_1 # pack_lines CHANNEL_HELP_LINES_2 max_chars)"

definition dm_help_lines_2 :: "string \<Rightarrow> bool \<Rightarrow> string list" where
  "dm_help_lines_2 channel_name in_session =
     [''!watchers - list all observers'', ''!reset - wipe save & restart''] @
     (if in_session then [''!rules - basic rules''] else []) @
     [''Join '' @ channel_name @ '' and send !help for more info'']"

definition dm_help_packets :: "string \<Rightarrow> bool \<Rightarrow> int \<Rightarrow> string list" where
  "dm_help_packets channel_name in_session max_chars =
     add_sequence_prefixes (HELP_PACKET_1 # pack_lines (dm_help_lines_2 channel_name in_session) max_chars)"

definition AUTHOR_TEXT :: string where
  "AUTHOR_TEXT = ''Meshcore: phr5'' @ [CHR 0x1A] @ NL @ ''Discord: @phosphor_radio'' @ NL @
     ''Source: https://github.com/phosphor-radio/zorkbot''"

definition RULES_TEXT :: string where
  "RULES_TEXT = join NL
     [''You are in Zork I - a text adventure'', ''Use commands such as:'', ''look'', ''look at leaflet'',
      ''north'', ''ne'', ''inventory'', ''take axe'']"

definition build_reply_text :: "string \<Rightarrow> string" where
  "build_reply_text game_channel_name =
     ''Private Zork I game sessions over mesh DMs.'' @ NL @
     ''Join '' @ game_channel_name @ '' and send !help for commands.''"

definition format_uptime :: "real \<Rightarrow> string" where
  "format_uptime total_seconds =
     (let t = trunc total_seconds;
          days = t div 86400; rem1 = t mod 86400;
          hours = rem1 div 3600; rem2 = rem1 mod 3600;
          minutes = rem2 div 60; seconds = rem2 mod 60
      in if days \<noteq> 0 then str_int days @ ''d '' @ str_int hours @ ''h '' @ str_int minutes @ ''m''
         else if hours \<noteq> 0 then str_int hours @ ''h '' @ str_int minutes @ ''m''
         else if minutes \<noteq> 0 then str_int minutes @ ''m '' @ str_int seconds @ ''s''
         else str_int seconds @ ''s'')"

section \<open>Simple handlers\<close>

definition handle_bots :: "bot_context \<Rightarrow> unit io" where
  "handle_bots ctx =
     bind_io (ask (\<lambda>env tr. 5 + jitter env tr)) (\<lambda>delay.
     bind_io (await_eff (Eff_sleep delay) (\<lambda>_ _. Inr ())) (\<lambda>_.
     bind_io (reply (build_reply_text (chan_name (channel (ctx_config ctx))))) (\<lambda>_. ret ())))"

definition handle_uptime :: "real \<Rightarrow> unit io" where
  "handle_uptime uptime_seconds =
     bind_io (reply (''Uptime: '' @ format_uptime uptime_seconds)) (\<lambda>_. ret ())"

definition handle_rules :: "bot_context \<Rightarrow> unit io" where
  "handle_rules ctx =
     (if \<not> ctx_is_dm ctx then bind_io (reply ''!rules is only available via DM.'') (\<lambda>_. ret ())
      else if \<not> truthy (ctx_pubkey_prefix ctx) then bind_io (reply cannot_identify) (\<lambda>_. ret ())
      else bind_io (read_reg (active_state (the (ctx_pubkey_prefix ctx)))) (\<lambda>active.
        if active \<noteq> ''playing'' then bind_io (reply ''No active session - send !start to begin.'') (\<lambda>_. ret ())
        else bind_io (reply RULES_TEXT) (\<lambda>_. ret ())))"

definition session_age :: "real \<Rightarrow> session_record \<Rightarrow> string" where
  "session_age now s =
     (let elapsed = trunc (now - started_at s); mins = elapsed div 60; secs = elapsed mod 60
      in if mins \<noteq> 0 then str_int mins @ ''m'' else str_int secs @ ''s'')"

definition handle_list :: "unit io" where
  "handle_list =
     bind_io (read_reg all_sessions) (\<lambda>sessions.
       if sessions = [] then bind_io (reply ''No active sessions right now.'') (\<lambda>_. ret ())
       else bind_io (ask monotonic) (\<lambda>now.
         bind_io (reply (''Active sessions: '' @ join ''  ''
           (map (\<lambda>s. ''#'' @ str_int (num s) @ '' '' @ player_name s @ '' ('' @ session_age now s @ '')'')
             (sort_key num sessions)))) (\<lambda>_. ret ())))"

definition watcher_label :: "(string \<Rightarrow> contact option) \<Rightarrow> string \<times> int \<Rightarrow> string option" where
  "watcher_label look p =
     (case look (fst p) of
        None \<Rightarrow> Some (take 8 (fst p))
      | Some c \<Rightarrow> if c = [] then Some (take 8 (fst p)) else map_of c ''adv_name'')"

definition handle_watchers :: "unit io" where
  "handle_watchers =
     bind_io (read_reg all_watchers) (\<lambda>pairs.
       if pairs = [] then bind_io (reply ''No active watchers right now.'') (\<lambda>_. ret ())
       else bind_io (ask contact_by_prefix) (\<lambda>look.
         let sorted_pairs = sort_key (\<lambda>p. (snd p, fst p)) pairs;
             labels = map (watcher_label look) sorted_pairs
         in if None \<in> set labels then throw (Other_exn ''KeyError'')
            else bind_io (reply (''Watchers: '' @ join ''  ''
              (map (\<lambda>(name, p). the name @ '' '' @ [CHR 0x1A] @ '' #'' @ str_int (snd p)) (zip labels sorted_pairs))))
              (\<lambda>_. ret ())))"

definition handle_watch :: "bot_context \<Rightarrow> string \<Rightarrow> unit io" where
  "handle_watch ctx args =
     (if \<not> truthy (ctx_pubkey_prefix ctx) then bind_io (reply cannot_identify) (\<lambda>_. ret ())
      else let player_id = the (ctx_pubkey_prefix ctx); arg = strip args
      in if arg = [] then
           bind_io (reply ''Usage: !watch <session number>  (see !list for active sessions)'') (\<lambda>_. ret ())
         else case parse_int arg of
           None \<Rightarrow> bind_io (reply (''Invalid session number: '' @ py_repr arg)) (\<lambda>_. ret ())
         | Some session_num \<Rightarrow>
             bind_io (read_reg (\<lambda>st. (active_state player_id st, get_session player_id st, watching_session player_id st)))
               (\<lambda>(active, session, watched).
               if active = ''playing'' then
                 bind_io (reply (''You have an active session (#'' @
                     (case session of None \<Rightarrow> ''?'' | Some s \<Rightarrow> str_int (num s)) @
                     ''). Send !end first to start watching.'')) (\<lambda>_. ret ())
               else if active = ''watching'' then
                 bind_io (reply (''You are already watching session #'' @
                     (case watched of None \<Rightarrow> ''None'' | Some n \<Rightarrow> str_int n) @ ''. Send !end first.'')) (\<lambda>_. ret ())
               else if (case session of None \<Rightarrow> False | Some own \<Rightarrow> num own = session_num) then
                 bind_io (reply ''You cannot watch your own session.'') (\<lambda>_. ret ())
               else
                 bind_io (upd_reg (add_watcher player_id session_num)) (\<lambda>error.
                 if truthy error then bind_io (reply (the error)) (\<lambda>_. ret ())
                 else bind_io (read_reg (get_session_by_num session_num)) (\<lambda>record.
                   bind_io (reply (''Watching session #'' @ str_int session_num @ '' ('' @
                     (case record of None \<Rightarrow> str_int session_num | Some r \<Rightarrow> player_name r) @
                     ''). Game output will arrive in your DMs. Send !end to stop.'')) (\<lambda>_. ret ())))))"

section \<open>Senders\<close>

text \<open>The closures \<open>_handle\<close> gives the handlers: without an injected sender nothing is sent.\<close>

definition send_dm :: "string \<Rightarrow> string \<Rightarrow> bool io" where
  "send_dm p t =
     bind_io (ask (\<lambda>env _. has_dm_sender env)) (\<lambda>present.
       if \<not> present then ret True
       else bind_io (await_eff (Eff_dm p t) (\<lambda>env tr. ans_dm env tr p t)) (\<lambda>r. ret (r \<noteq> Some False)))"

definition send_watcher_dm :: "string \<Rightarrow> string \<Rightarrow> unit io" where
  "send_watcher_dm p t =
     bind_io (ask (\<lambda>env _. (has_watcher_sender env, has_dm_sender env))) (\<lambda>(watcher, dm).
       if watcher then
         bind_io (await_eff (Eff_watcher_dm p t) (\<lambda>env tr. ans_watcher_dm env tr p t)) (\<lambda>_. ret ())
       else if dm then
         bind_io (await_eff (Eff_dm p t) (\<lambda>env tr. ans_dm env tr p t)) (\<lambda>_. ret ())
       else ret ())"

definition send_advert :: "unit io" where
  "send_advert = await_eff Eff_advert (\<lambda>_ _. Inr ())"

definition packets_io :: "string \<Rightarrow> int \<Rightarrow> string option \<Rightarrow> string list io" where
  "packets_io t max_chars first_line =
     (case packetize t max_chars None first_line True of
        Inl e \<Rightarrow> throw (Other_exn ''ValueError'')
      | Inr packets \<Rightarrow> ret packets)"

section \<open>Session handlers\<close>

text \<open>The loop of \<open>send_initial_look\<close> for a player who asked on the channel.\<close>

primrec look_packets :: "bool \<Rightarrow> (string \<Rightarrow> string \<Rightarrow> bool io) \<Rightarrow> string \<Rightarrow> string list \<Rightarrow> bool io" where
  "look_packets abandon send p [] = ret True"
| "look_packets abandon send p (t # ts) =
     bind_io (send p t) (\<lambda>delivered.
       if \<not> delivered \<and> abandon then ret False else look_packets abandon send p ts)"

definition send_initial_look :: "bot_context \<Rightarrow> string \<Rightarrow> (string \<Rightarrow> string \<Rightarrow> bool io) \<Rightarrow> bool io" where
  "send_initial_look ctx p send =
     bind_io (catch_io (bind_io (game_command p ''look'') (\<lambda>r. ret (Some r)))
       (\<lambda>e. if is_game_error e then ret None else throw e)) (\<lambda>result.
       case result of
         None \<Rightarrow> ret True
       | Some r \<Rightarrow>
           if \<not> cr_ok r then ret True
           else bind_io (packets_io (cr_output r) (packet_max_chars (ctx_config ctx)) None) (\<lambda>packets.
             if packets = [] then ret True
             else if ctx_is_dm ctx then reply_many ctx packets
             else look_packets (dm_ack_abandon_response (ctx_config ctx)) send p packets))"

text \<open>\<open>handle_start\<close> once the session is registered: the introduction and the first look.\<close>

definition start_registered :: "bot_context \<Rightarrow> string \<Rightarrow> string \<Rightarrow> session_record \<Rightarrow> unit io" where
  "start_registered ctx player name record =
     (let intro = ''Zork I Session #'' @ str_int (num record) @ '' started. Type your commands here in DM!'' in
      bind_io
        (if ctx_is_dm ctx then reply intro
         else bind_io (reply (''Zork I Session #'' @ str_int (num record) @ '' started for '' @ name @ '' - check your DMs!''))
                (\<lambda>_. send_dm player intro))
        (\<lambda>delivered.
        if \<not> delivered \<and> dm_ack_abandon_response (ctx_config ctx) then ret ()
        else bind_io (send_initial_look ctx player send_dm) (\<lambda>_. ret ())))"

text \<open>The failures of the game service that the handlers turn into a reply.\<close>

definition game_failure :: "string \<Rightarrow> string \<Rightarrow> exn \<Rightarrow> string option io" where
  "game_failure full_text other_text e =
     (case e of
        SessionFullError _ \<Rightarrow> ret (Some full_text)
      | _ \<Rightarrow> if is_game_error e then ret (Some (other_text @ exn_text e)) else throw e)"

text \<open>\<open>handle_start\<close> after its checks: advert, game service, registration.\<close>

definition start_checked :: "bot_context \<Rightarrow> string \<Rightarrow> unit io" where
  "start_checked ctx player =
     bind_io send_advert (\<lambda>_.
     bind_io (catch_io (bind_io (start_session player) (\<lambda>_. ret None))
       (game_failure ''All game slots are active right now - try again shortly.'' ''Could not start game: ''))
       (\<lambda>failure.
       case failure of
         Some t \<Rightarrow> bind_io (reply t) (\<lambda>_. ret ())
       | None \<Rightarrow>
           let name = or_else (ctx_sender_name ctx) (take 8 player) in
           bind_io (ask (\<lambda>env tr. (monotonic env tr, wall_time env tr))) (\<lambda>clock.
           bind_io (upd_reg (add_session (fst clock) (snd clock) player name)) (start_registered ctx player name))))"

definition handle_start :: "bot_context \<Rightarrow> unit io" where
  "handle_start ctx =
     (if \<not> truthy (ctx_pubkey_prefix ctx) then bind_io (reply cannot_identify) (\<lambda>_. ret ())
      else let player = the (ctx_pubkey_prefix ctx) in
      bind_io (read_reg (\<lambda>st. (active_state player st, get_session player st, watching_session player st)))
        (\<lambda>(active, session, watched).
        if active = ''playing'' then
          bind_io (reply (''You already have an active session (#'' @
            (case session of None \<Rightarrow> ''?'' | Some s \<Rightarrow> str_int (num s)) @ ''). Send !end to stop.'')) (\<lambda>_. ret ())
        else if active = ''watching'' then
          bind_io (reply (''You are currently watching session #'' @
            (case watched of None \<Rightarrow> ''None'' | Some n \<Rightarrow> str_int n) @ ''. Send !end first.'')) (\<lambda>_. ret ())
        else bind_io (ask contact_by_prefix) (\<lambda>look.
          if \<not> ctx_is_dm ctx \<and> look player = None then
            bind_io (reply ''DM me !start - I don't have you in my contacts yet.'') (\<lambda>_. ret ())
          else start_checked ctx player)))"

definition handle_admin_end :: "bot_context \<Rightarrow> string \<Rightarrow> unit io" where
  "handle_admin_end ctx arg =
     (if \<not> is_admin ctx then bind_io (reply ''You are not authorized for that command.'') (\<lambda>_. ret ())
      else case parse_int arg of
        None \<Rightarrow> bind_io (reply (''Invalid session number: '' @ py_repr arg)) (\<lambda>_. ret ())
      | Some session_num \<Rightarrow>
          bind_io (read_reg (get_session_by_num session_num)) (\<lambda>found.
          case found of
            None \<Rightarrow> bind_io (reply (''Zork I Session #'' @ str_int session_num @ '' is not active.'')) (\<lambda>_. ret ())
          | Some record \<Rightarrow>
              bind_io (upd_reg (remove_session (player_id record) ''admin_end'')) (\<lambda>_.
              bind_io (catch_io (end_session (player_id record)) (\<lambda>e. if is_game_error e then ret () else throw e)) (\<lambda>_.
              bind_io (reply (''Zork I Session #'' @ str_int session_num @ '' ('' @ player_name record @ '') has been ended.'')) (\<lambda>_.
              queue_fanout session_num (Notify_ended record))))))"

definition handle_end :: "bot_context \<Rightarrow> string \<Rightarrow> unit io" where
  "handle_end ctx args =
     (if \<not> truthy (ctx_pubkey_prefix ctx) then bind_io (reply cannot_identify) (\<lambda>_. ret ())
      else if strip args \<noteq> [] then handle_admin_end ctx (strip args)
      else let player = the (ctx_pubkey_prefix ctx) in
      bind_io (read_reg (active_state player)) (\<lambda>active.
        if active = ''watching'' then
          bind_io (upd_reg (remove_watcher player)) (\<lambda>session_num.
          bind_io (reply (''Stopped watching session #'' @
            (case session_num of None \<Rightarrow> ''None'' | Some n \<Rightarrow> str_int n) @ ''.'')) (\<lambda>_. ret ()))
        else if active = ''playing'' then
          bind_io (upd_reg (remove_session player ''player_end'')) (\<lambda>record.
          bind_io (catch_io (end_session player) (\<lambda>e. if is_game_error e then ret () else throw e)) (\<lambda>_.
          bind_io (reply (''Zork I Session #'' @ (case record of None \<Rightarrow> ''?'' | Some r \<Rightarrow> str_int (num r)) @
            '' saved and ended.'')) (\<lambda>_.
          case record of None \<Rightarrow> ret () | Some r \<Rightarrow> queue_fanout (num r) (Notify_ended r))))
        else bind_io (reply ''You don't have an active session or watch to end.'') (\<lambda>_. ret ())))"

text \<open>\<open>handle_reset\<close> after its checks.\<close>

definition reset_registered :: "bot_context \<Rightarrow> string \<Rightarrow> session_record \<Rightarrow> unit io" where
  "reset_registered ctx player new_record =
     bind_io (reply (''Game reset. Zork I Session #'' @ str_int (num new_record) @ '' started fresh.'')) (\<lambda>delivered.
     if \<not> delivered \<and> dm_ack_abandon_response (ctx_config ctx) then ret ()
     else bind_io (send_initial_look ctx player (\<lambda>_ _. throw (Other_exn ''TypeError''))) (\<lambda>_. ret ()))"

definition reset_checked :: "bot_context \<Rightarrow> string \<Rightarrow> unit io" where
  "reset_checked ctx player =
     bind_io (upd_reg (remove_session player ''reset'')) (\<lambda>_.
     bind_io (catch_io (bind_io (reset_session player) (\<lambda>_. ret None))
       (game_failure ''All game slots are active - could not restart. Try again shortly.'' ''Reset failed: ''))
       (\<lambda>failure.
       case failure of
         Some t \<Rightarrow> bind_io (reply t) (\<lambda>_. ret ())
       | None \<Rightarrow>
           bind_io (ask (\<lambda>env tr. (monotonic env tr, wall_time env tr))) (\<lambda>clock.
           bind_io (upd_reg (add_session (fst clock) (snd clock) player (or_else (ctx_sender_name ctx) (take 8 player))))
             (reset_registered ctx player))))"

definition handle_reset :: "bot_context \<Rightarrow> unit io" where
  "handle_reset ctx =
     (if \<not> ctx_is_dm ctx then bind_io (reply ''!reset is only available via DM.'') (\<lambda>_. ret ())
      else if \<not> truthy (ctx_pubkey_prefix ctx) then bind_io (reply cannot_identify) (\<lambda>_. ret ())
      else reset_checked ctx (the (ctx_pubkey_prefix ctx)))"

section \<open>Game commands and watcher jobs\<close>

text \<open>
  The record object as it is now: the registered one while the session lives, afterwards as it was
  when the session ended (the registry hands it to the event sink then and nobody changes it any
  more).
\<close>

definition ended_record :: "int \<Rightarrow> session_state \<Rightarrow> session_record option" where
  "ended_record n st =
     (case filter (\<lambda>ev. case ev of Session_ended r _ \<Rightarrow> num r = n | _ \<Rightarrow> False) (sink st) of
        Session_ended r _ # _ \<Rightarrow> Some r
      | _ \<Rightarrow> None)"

definition current_record :: "session_record \<Rightarrow> session_state \<Rightarrow> session_record" where
  "current_record r st =
     (case get_session_by_num (num r) st of
        Some r' \<Rightarrow> r'
      | None \<Rightarrow> or_default (ended_record (num r) st) r)"

definition handle_game_command :: "bot_context \<Rightarrow> string \<Rightarrow> unit io" where
  "handle_game_command ctx command_text =
     (if \<not> truthy (ctx_pubkey_prefix ctx) then bind_io (reply cannot_identify) (\<lambda>_. ret ())
      else let player = the (ctx_pubkey_prefix ctx) in
      bind_io (read_reg (get_session player)) (\<lambda>found.
      case found of
        None \<Rightarrow> bind_io (reply ''No active session - send !start to begin.'') (\<lambda>_. ret ())
      | Some record \<Rightarrow>
          (case validate command_text False of
             Inl _ \<Rightarrow> bind_io (reply ''That command isn't allowed.'') (\<lambda>_. ret ())
           | Inr _ \<Rightarrow>
               bind_io (catch_io (bind_io (game_command player command_text) (\<lambda>r. ret (Inr r)))
                 (\<lambda>e. if is_game_error e then ret (Inl e) else throw e)) (\<lambda>outcome.
               case outcome of
                 Inl (SessionNotFoundError _) \<Rightarrow>
                   bind_io (upd_reg (remove_session player ''server_side'')) (\<lambda>_.
                   bind_io (reply ''Your session has ended due to inactivity. Send !start to resume.'') (\<lambda>_. ret ()))
               | Inl e \<Rightarrow>
                   bind_io (reply (if contains (lower (exn_text e)) ''busy''
                     then ''The game is busy - try again in a moment.'' else ''Game error: '' @ exn_text e)) (\<lambda>_. ret ())
               | Inr result \<Rightarrow>
                   if \<not> cr_ok result then
                     bind_io (reply (if cr_error result = [] then ''That command isn't allowed.'' else cr_error result)) (\<lambda>_. ret ())
                   else
                     bind_io (upd_reg (\<lambda>st. ((), emit (Transcript (num record) (player_name record) (Some command_text)
                       (cr_output result)) st))) (\<lambda>_.
                     bind_io (packets_io (cr_output result) (packet_max_chars (ctx_config ctx)) None) (\<lambda>packets.
                     if packets = [] then ret ()
                     else
                       bind_io (reply_many ctx packets) (\<lambda>_.
                       bind_io (read_reg (current_record record)) (\<lambda>now_record.
                       if watchers now_record = [] then ret ()
                       else
                         bind_io (packets_io (cr_output result) (packet_max_chars (ctx_config ctx))
                           (Some (''['' @ player_name record @ ''] > '' @ command_text))) (\<lambda>watcher_packets.
                         queue_fanout (num record) (Fan_output record watcher_packets))))))))))"

fun each_io :: "('a \<Rightarrow> unit io) \<Rightarrow> 'a list \<Rightarrow> unit io" where
  "each_io f [] = ret ()"
| "each_io f (x # xs) = bind_io (f x) (\<lambda>_. each_io f xs)"

definition ended_text :: "session_record \<Rightarrow> string" where
  "ended_text r = ''Zork I Session #'' @ str_int (num r) @ '' ('' @ player_name r @
     '') has ended. You are no longer watching.''"

definition notify_watchers_session_ended :: "session_record \<Rightarrow> unit io" where
  "notify_watchers_session_ended record =
     bind_io (read_reg (current_record record)) (\<lambda>r.
       if watchers r = [] then ret ()
       else each_io (\<lambda>w. send_watcher_dm w (ended_text record)) (watchers r))"

text \<open>\<open>_notify_watchers\<close>, the coroutine queued by a game command.\<close>

definition notify_watchers :: "session_record \<Rightarrow> string list \<Rightarrow> unit io" where
  "notify_watchers record packets =
     bind_io (read_reg (current_record record)) (\<lambda>r.
       each_io (\<lambda>w. each_io (send_watcher_dm w) packets) (watchers r))"

fun run_job :: "fan_job \<Rightarrow> unit io" where
  "run_job (Notify_ended record) = notify_watchers_session_ended record"
| "run_job (Fan_output record packets) = notify_watchers record packets"

end
