(* ===== verification/Handler_Laws.thy ===== *)
theory Handler_Laws
  imports Commands
begin

text \<open>
  What every command handler guarantees, proved once. The locale \<open>talk_laws\<close> is the contract
  between coroutines that only talk and an invariant: which effects the invariant tolerates, and
  that interference keeps it; \<open>effect_laws\<close> adds the requests about one player's game. \<open>handler_laws\<close> adds that each registry operation a
  handler may perform keeps the invariant under the condition the handler has just checked;
  \<open>ready\<close> is what must still hold when a session is registered after several awaits.
  \<open>reset_laws\<close> adds what \<open>!reset\<close> needs on top (that
  removing one's session is enough to start another) and \<open>admin_laws\<close> what the administrator's
  \<open>!end\<close> needs (the operations on another player's session).
\<close>

section \<open>The requests a player's own commands make\<close>

definition own_requests :: "string \<Rightarrow> http_request set" where
  "own_requests p = {start_session_request p, end_session_request p, reset_session_request p} \<union> range (command_request p)"

lemma active_state_none: "active_state p st \<noteq> ''playing'' \<Longrightarrow> active_state p st \<noteq> ''watching'' \<Longrightarrow> active_state p st = ''none''"
  by (simp add: active_state_def split: if_splits)

text \<open>The client's operations are as good as the requests they make.\<close>

definition tolerates :: "(env \<Rightarrow> bool) \<Rightarrow> (world \<Rightarrow> bool) \<Rightarrow> effect \<Rightarrow> bool" where
  "tolerates E I eff \<longleftrightarrow> (\<forall>env w. E env \<longrightarrow> I w \<longrightarrow> I (after env eff w))"

lemma k_tolerates: "tolerates E I eff \<Longrightarrow> keeps E I (await_eff eff ans)"
  by (rule keeps_await) (simp add: tolerates_def)

lemma k_request: "tolerates E I (Eff_request rq) \<Longrightarrow> keeps E I (client_request rq)"
  unfolding client_request_def
  by (intro keeps_bind k_tolerates) (auto split: http_outcome.split option.split intro: keeps_intros)

lemma k_json: "keeps E I (response_json r)"
  unfolding response_json_def by (intro keeps_intros)

lemma k_client:
  "tolerates E I (Eff_request (start_session_request q)) \<Longrightarrow> keeps E I (start_session q)"
  "tolerates E I (Eff_request (end_session_request q)) \<Longrightarrow> keeps E I (end_session q)"
  "tolerates E I (Eff_request (reset_session_request q)) \<Longrightarrow> keeps E I (reset_session q)"
  "tolerates E I (Eff_request (command_request q t)) \<Longrightarrow> keeps E I (game_command q t)"
  unfolding start_session_def end_session_def reset_session_def game_command_def Let_def
  by (intro keeps_intros k_request k_json; assumption)+

lemma k_failure: "keeps E I (game_failure a b e)"
  unfolding game_failure_def by (intro keeps_intros)

locale talk_laws =
  fixes E :: "env \<Rightarrow> bool"
    and I :: "world \<Rightarrow> bool"
    and A :: "effect \<Rightarrow> bool"
  assumes talk: "(\<And>r. eff \<noteq> Eff_request r) \<Longrightarrow> A eff"
    and await: "E env \<Longrightarrow> I w \<Longrightarrow> A eff \<Longrightarrow> I (after env eff w)"
begin

lemma tolerated: "A eff \<Longrightarrow> tolerates E I eff"
  unfolding tolerates_def using await by blast

lemma k_talk: "(\<And>r. eff \<noteq> Eff_request r) \<Longrightarrow> keeps E I (await_eff eff a)"
  using tolerated [OF talk] by (simp add: k_tolerates)

lemma k_reply: "keeps E I (send_reply t)" "keeps E I (reply t)"
  unfolding reply_def send_reply_def by (intro keeps_intros k_talk; simp)+

lemma k_reply_many: "keeps E I (reply_many ctx ts)"
proof (induction ts)
  case (Cons t ts)
  then show ?case by (simp del: if_split) (intro keeps_intros k_reply)
qed (simp add: keeps_intros)

lemma k_senders: "keeps E I (send_dm q t)" "keeps E I (send_watcher_dm q t)" "keeps E I send_advert"
  unfolding send_dm_def send_watcher_dm_def send_advert_def
  by (intro keeps_intros k_talk; simp)+

lemma k_packets: "keeps E I (packets_io t m f)"
  unfolding packets_io_def by (intro keeps_intros)

lemmas k_talks = keeps_intros k_reply k_reply_many k_senders k_packets

lemma k_simple: "keeps E I (handle_bots ctx)" "keeps E I (handle_uptime x)" "keeps E I (handle_rules ctx)"
  "keeps E I handle_list" "keeps E I handle_watchers"
  unfolding handle_bots_def handle_uptime_def handle_rules_def handle_list_def handle_watchers_def Let_def
  by (intro k_talks k_talk; simp)+

lemma k_jobs: "keeps E I (run_job job)"
proof -
  have each: "keeps E I (each_io f xs)" if "\<And>x. keeps E I (f x)" for f :: "'b \<Rightarrow> unit io" and xs
    by (induction xs) (simp_all add: keeps_intros that)
  show ?thesis
    by (cases job) (simp_all add: notify_watchers_session_ended_def notify_watchers_def, (intro k_talks each)+)
qed

end

locale effect_laws = talk_laws +
  fixes p :: string
  assumes own: "r \<in> own_requests p \<Longrightarrow> A (Eff_request r)"
begin

lemma own_members: "start_session_request p \<in> own_requests p" "end_session_request p \<in> own_requests p"
  "reset_session_request p \<in> own_requests p" "command_request p t \<in> own_requests p"
  by (simp_all add: own_requests_def)

lemma k_game:
  "keeps E I (end_session p)" "keeps E I (game_command p t)" "keeps E I (start_session p)" "keeps E I (reset_session p)"
  by (intro k_client tolerated own own_members)+

lemmas k_effects = k_talks k_game

lemma k_look: "(\<And>q t. keeps E I (send q t)) \<Longrightarrow> keeps E I (send_initial_look ctx p send)"
proof -
  assume send: "\<And>q t. keeps E I (send q t)"
  have "keeps E I (look_packets b send p ts)" for b ts
  proof (induction ts)
    case (Cons t ts)
    then show ?case by (simp del: if_split) (intro keeps_intros send)
  qed (simp add: keeps_intros)
  then show ?thesis unfolding send_initial_look_def by (intro k_effects)
qed

lemma k_start_registered: "keeps E I (start_registered ctx p name r)"
  unfolding start_registered_def Let_def by (intro k_effects k_look)

lemma k_reset_registered: "keeps E I (reset_registered ctx p r)"
  unfolding reset_registered_def by (intro k_effects k_look)

end

locale handler_laws = effect_laws +
  fixes ready :: "world \<Rightarrow> bool"
  assumes await_ready: "E env \<Longrightarrow> I w \<Longrightarrow> ready w \<Longrightarrow> ready (after env eff w)"
    and none_ready: "I w \<Longrightarrow> active_state p (reg w) = ''none'' \<Longrightarrow> ready w"
    and add_law: "I w \<Longrightarrow> ready w \<Longrightarrow> I (did (add_session now wall p nm) w)"
    and remove_law: "I w \<Longrightarrow> I (did (remove_session p reason) w)"
    and watch_law: "I w \<Longrightarrow> active_state p (reg w) = ''none'' \<Longrightarrow> I (did (add_watcher p n) w)"
    and unwatch_law: "I w \<Longrightarrow> I (did (remove_watcher p) w)"
    and emit_law: "I w \<Longrightarrow> \<not> boundary ev \<Longrightarrow> I (did (\<lambda>st. ((), emit ev st)) w)"
    and queue_law: "I w \<Longrightarrow> I (w\<lparr>fanouts := fanouts w @ [(k, job)]\<rparr>)"

sublocale handler_laws \<subseteq> prepared: effect_laws E "\<lambda>w. I w \<and> ready w" A p
  by unfold_locales (auto intro: talk own await await_ready)

context handler_laws
begin

lemma k_queue: "keeps E I (queue_fanout n job)"
  by (rule keeps_queue) (rule queue_law)

lemma k_upd: "keeps E I (upd_reg (remove_session p reason))" "keeps E I (upd_reg (remove_watcher p))"
  by (rule keeps_upd, rule remove_law unwatch_law, assumption)+

lemma k_emit: "\<not> boundary ev \<Longrightarrow> keeps E I (upd_reg (\<lambda>st. ((), emit ev st)))"
  by (rule keeps_upd) (rule emit_law)

lemma k_reports: "keeps E I (upd_reg (\<lambda>st. ((), emit (Command_event p1 c t i a r) st)))"
  "keeps E I (upd_reg (\<lambda>st. ((), emit (Transcript n nm q t') st)))"
  by (simp_all add: k_emit)

lemmas k_rules = k_effects k_queue k_upd k_reports

text \<open>Registration after a successful call of the game service, from a world in which \<open>p\<close> is ready.\<close>

lemma k_register:
  assumes "keeps E (\<lambda>w. I w \<and> ready w) m" and "\<And>r. keeps E I (k r)"
  shows "triple E (\<lambda>w. I w \<and> ready w)
    (bind_io (catch_io (bind_io m (\<lambda>_. ret None)) (game_failure a b)) (\<lambda>failure.
       case failure of
         Some t \<Rightarrow> bind_io (reply t) (\<lambda>_. ret ())
       | None \<Rightarrow> bind_io (ask (\<lambda>env tr. (monotonic env tr, wall_time env tr))) (\<lambda>clock.
           bind_io (upd_reg (add_session (fst clock) (snd clock) p name)) k)))
    (\<lambda>_. I) I"
proof (rule triple_bind)
  have "keeps E (\<lambda>w. I w \<and> ready w) (catch_io (bind_io m (\<lambda>_. ret None)) (game_failure a b))"
    by (intro keeps_intros assms(1) k_failure)
  then show "triple E (\<lambda>w. I w \<and> ready w) (catch_io (bind_io m (\<lambda>_. ret None)) (game_failure a b))
      (\<lambda>_ w. I w \<and> ready w) I"
    unfolding keeps_def by (rule triple_weaken) simp_all
  fix failure :: "string option"
  show "triple E (\<lambda>w. I w \<and> ready w)
      (case failure of
         Some t \<Rightarrow> bind_io (reply t) (\<lambda>_. ret ())
       | None \<Rightarrow> bind_io (ask (\<lambda>env tr. (monotonic env tr, wall_time env tr))) (\<lambda>clock.
           bind_io (upd_reg (add_session (fst clock) (snd clock) p name)) k)) (\<lambda>_. I) I"
  proof (cases failure)
    case (Some t)
    then show ?thesis
      by simp (rule triple_keeps, intro k_rules, simp)
  next
    case None
    have "triple E (\<lambda>w. I w \<and> ready w) (bind_io (upd_reg (add_session x y p name)) k) (\<lambda>_. I) I" for x y
      by (rule triple_upd [where P' = I]) (use add_law assms(2) in \<open>auto simp: keeps_def\<close>)
    moreover have "triple E (\<lambda>w. I w \<and> ready w) (ask (\<lambda>env tr. (monotonic env tr, wall_time env tr)))
        (\<lambda>_ w. I w \<and> ready w) I"
      by (simp add: triple_def ask_def)
    ultimately show ?thesis by (simp add: None triple_bind)
  qed
qed

lemma k_start_checked: "triple E (\<lambda>w. I w \<and> ready w) (start_checked ctx p) (\<lambda>_. I) I"
  unfolding start_checked_def Let_def
proof (rule triple_bind)
  show "triple E (\<lambda>w. I w \<and> ready w) send_advert (\<lambda>_ w. I w \<and> ready w) I"
    using prepared.k_senders(3) unfolding keeps_def by (rule triple_weaken) simp_all
qed (rule k_register [OF prepared.k_game(3) k_start_registered])

lemma k_say: "(\<And>w. P w \<Longrightarrow> I w) \<Longrightarrow> triple E P (bind_io (reply t) (\<lambda>_. ret ())) (\<lambda>_. I) I"
  by (rule triple_keeps) (intro k_rules)

lemma k_start:
  assumes "ctx_pubkey_prefix ctx = Some p"
  shows "keeps E I (handle_start ctx)"
  unfolding handle_start_def keeps_def Let_def assms option.sel
proof (intro triple_branch triple_read triple_prod triple_ask k_say)
  fix x look active sw and session :: "session_record option" and watched :: "int option"
  assume "x = (active, sw)" "sw = (session, watched)" "active \<noteq> ''playing''" "active \<noteq> ''watching''"
  then show "triple E (\<lambda>w. I w \<and> x = (active_state p (reg w), get_session p (reg w), watching_session p (reg w)))
      (start_checked ctx p) (\<lambda>_. I) I"
    by (intro triple_weaken [OF k_start_checked]) (auto intro: none_ready active_state_none)
qed simp_all

lemma k_watch:
  assumes "ctx_pubkey_prefix ctx = Some p"
  shows "keeps E I (handle_watch ctx args)"
  unfolding handle_watch_def keeps_def Let_def assms option.sel
proof (intro triple_branch triple_read triple_prod triple_option triple_ask k_say)
  fix n x active sw and session :: "session_record option" and watched :: "int option"
  assume "x = (active, sw)" "sw = (session, watched)" "active \<noteq> ''playing''" "active \<noteq> ''watching''"
  then show "triple E (\<lambda>w. I w \<and> x = (active_state p (reg w), get_session p (reg w), watching_session p (reg w)))
      (bind_io (upd_reg (add_watcher p n)) (\<lambda>error.
         if truthy error then bind_io (reply (the error)) (\<lambda>_. ret ())
         else bind_io (read_reg (get_session_by_num n)) (\<lambda>record.
           bind_io (reply (''Watching session #'' @ str_int n @ '' ('' @
             (case record of None \<Rightarrow> str_int n | Some r \<Rightarrow> player_name r) @
             ''). Game output will arrive in your DMs. Send !end to stop.'')) (\<lambda>_. ret ())))) (\<lambda>_. I) I"
    by (intro triple_upd [where P' = I] triple_keeps [where I = I] k_rules) (auto intro!: watch_law active_state_none)
qed simp_all

lemma k_end:
  assumes "ctx_pubkey_prefix ctx = Some p" and "keeps E I (handle_admin_end ctx (strip args))"
  shows "keeps E I (handle_end ctx args)"
  unfolding handle_end_def Let_def assms(1) option.sel by (intro k_rules assms(2))

lemma k_not_admin: "\<not> is_admin ctx \<Longrightarrow> keeps E I (handle_admin_end ctx arg)"
  unfolding handle_admin_end_def by (simp add: k_rules)

lemma k_game_command:
  assumes "ctx_pubkey_prefix ctx = Some p"
  shows "keeps E I (handle_game_command ctx t)"
  unfolding handle_game_command_def Let_def assms option.sel by (intro k_rules)

end

end
