(* ===== verification/Bot_Handle.thy ===== *)
theory Bot_Handle
  imports Handler_Laws
begin

text \<open>
  The command switch of the bot, \<open>ZorkBot._handle\<close> and \<open>_reconcile_sessions\<close> in
  \<^verbatim>\<open>src/zorkbot/src/zorkbot/bot.py\<close>, and what it guarantees about the registry and the game
  service when other tasks run at every await.

  The rely condition on those tasks is \<open>rely p\<close>: they keep the tables consistent, and they
  neither start a session for player \<open>p\<close> nor make \<open>p\<close> a watcher. Every command of another
  player satisfies it (\<open>handle_respects_others\<close>), and a player's own commands are handled one at a time by the
  player's worker.
\<close>

definition command_event :: "bot_context \<Rightarrow> string \<Rightarrow> bool \<Rightarrow> string option \<Rightarrow> sink_event" where
  "command_event ctx command accepted reason =
     Command_event (ctx_pubkey_prefix ctx) command (if ctx_is_dm ctx then ''dm'' else ''channel'')
       (if ctx_is_dm ctx then None else Some (im_channel_idx (ctx_message ctx))) accepted reason"

definition help_packets :: "bot_context \<Rightarrow> session_state \<Rightarrow> string list" where
  "help_packets ctx st =
     (let in_session = (ctx_is_dm ctx \<and> active_state (or_else (ctx_pubkey_prefix ctx) []) st = ''playing'')
      in if ctx_is_dm ctx
         then dm_help_packets (chan_name (channel (ctx_config ctx))) in_session (packet_max_chars (ctx_config ctx))
         else channel_help_packets (packet_max_chars (ctx_config ctx)))"

definition bot_handle :: "real \<Rightarrow> bot_context \<Rightarrow> string \<Rightarrow> string \<Rightarrow> unit io" where
  "bot_handle bot_started_at ctx command rest_args =
     bind_io (upd_reg (\<lambda>st. ((), emit (command_event ctx command True None) st))) (\<lambda>_.
       if command = ''help'' \<or> command = ''commands'' then
         bind_io (read_reg (help_packets ctx)) (\<lambda>packets. bind_io (reply_many ctx packets) (\<lambda>_. ret ()))
       else if command = ''author'' \<and> \<not> ctx_is_dm ctx then bind_io (reply AUTHOR_TEXT) (\<lambda>_. ret ())
       else if command = ''uptime'' \<and> \<not> ctx_is_dm ctx then
         bind_io (ask monotonic) (\<lambda>now. handle_uptime (now - bot_started_at))
       else if command = ''rules'' then handle_rules ctx
       else if command = ''start'' then handle_start ctx
       else if command = ''end'' then handle_end ctx rest_args
       else if command = ''list'' then handle_list
       else if command = ''watch'' then handle_watch ctx rest_args
       else if command = ''watchers'' then handle_watchers
       else if command = ''reset'' then handle_reset ctx
       else if command = ''_game'' then handle_game_command ctx rest_args
       else if ctx_is_dm ctx then
         bind_io (reply (''Unknown command: '' @ py_repr command @ ''. Send !help for a list.'')) (\<lambda>_. ret ())
       else ret ())"

text \<open>
  \<open>_reconcile_sessions\<close>: the list of sessions is awaited, the rest runs without interruption.
\<close>

definition reconcile_one :: "bool \<Rightarrow> string set \<Rightarrow> session_record \<Rightarrow> unit io" where
  "reconcile_one has_sender server_ids record =
     (if player_id record \<in> server_ids then ret ()
      else bind_io (upd_reg (remove_session (player_id record) ''server_side'')) (\<lambda>_.
        if has_sender then queue_fanout (num record) (Notify_ended record) else ret ()))"

definition reconcile_sessions :: "unit io" where
  "reconcile_sessions =
     bind_io (catch_io (bind_io list_sessions (\<lambda>infos. ret (Some infos))) (\<lambda>_. ret None)) (\<lambda>listed.
       case listed of
         None \<Rightarrow> ret ()
       | Some infos \<Rightarrow>
           bind_io (read_reg all_sessions) (\<lambda>records.
           bind_io (ask (\<lambda>env _. has_watcher_sender env \<or> has_dm_sender env)) (\<lambda>has_sender.
             each_io (reconcile_one has_sender (set (map si_player_id infos))) records)))"

section \<open>The switch keeps what its handlers keep\<close>

locale reset_laws = handler_laws +
  assumes removed_ready: "I w \<Longrightarrow> ready (did (remove_session p reason) w)"
begin

lemma k_reset:
  assumes "ctx_pubkey_prefix ctx = Some p"
  shows "keeps E I (handle_reset ctx)"
proof -
  have "triple E I (reset_checked ctx p) (\<lambda>_. I) I"
    unfolding reset_checked_def
    by (intro triple_upd [where P' = "\<lambda>w. I w \<and> ready w"] k_register prepared.k_game k_reset_registered)
      (simp add: remove_law removed_ready)
  then have "keeps E I (reset_checked ctx p)" by (simp add: keeps_def)
  then show ?thesis
    unfolding handle_reset_def assms option.sel by (intro k_rules)
qed

end

context handler_laws
begin

lemma k_switch:
  assumes "ctx_pubkey_prefix ctx = Some p"
    and "command = ''end'' \<Longrightarrow> keeps E I (handle_admin_end ctx (strip rest))"
    and "command = ''reset'' \<Longrightarrow> keeps E I (handle_reset ctx)"
  shows "keeps E I (bot_handle t0 ctx command rest)"
  unfolding bot_handle_def command_event_def
  by (intro k_rules k_simple k_start k_watch k_end k_game_command assms)

lemma k_anonymous:
  assumes "\<not> truthy (ctx_pubkey_prefix ctx)"
  shows "keeps E I (bot_handle t0 ctx command rest)"
  unfolding bot_handle_def command_event_def handle_start_def handle_end_def handle_watch_def handle_reset_def handle_game_command_def
  using assms by (simp only: not_False_eq_True if_True) (intro k_rules k_simple)

end

locale admin_laws = handler_laws +
  assumes end_any: "A (Eff_request (end_session_request q))"
    and remove_any: "I w \<Longrightarrow> I (did (remove_session q reason) w)"
begin

lemma k_admin_end: "keeps E I (handle_admin_end ctx arg)"
  unfolding handle_admin_end_def by (intro k_rules k_client tolerated end_any keeps_upd remove_any)

end

section \<open>Rely and guarantee\<close>

text \<open>What a change of the registry by somebody else must respect, from the point of view of \<open>p\<close>.\<close>

definition others_ok :: "string \<Rightarrow> session_state \<Rightarrow> session_state \<Rightarrow> bool" where
  "others_ok p st st' \<longleftrightarrow> ss_inv st' \<and>
     (map_of (sessions st) p = None \<longrightarrow> map_of (sessions st') p = None) \<and>
     (map_of (watching st) p = None \<longrightarrow> map_of (watching st') p = None)"

definition rely :: "string \<Rightarrow> env \<Rightarrow> bool" where
  "rely p env \<longleftrightarrow> (\<forall>tr st. ss_inv st \<longrightarrow> others_ok p st (interfere env tr st))"

lemma others_ok_refl: "ss_inv st \<Longrightarrow> others_ok p st st"
  by (simp add: others_ok_def)

lemma others_ok_trans: "others_ok p a b \<Longrightarrow> others_ok p b c \<Longrightarrow> others_ok p a c"
  by (simp add: others_ok_def)

lemma others_ok_ops:
  assumes "ss_inv st"
  shows "q \<noteq> p \<Longrightarrow> map_of (sessions st) p = None \<Longrightarrow> others_ok q st (snd (add_session now wall p nm st))"
    and "others_ok q st (snd (remove_session r reason st))"
    and "q \<noteq> p \<Longrightarrow> map_of (watching st) p = None \<Longrightarrow> others_ok q st (snd (add_watcher p n st))"
    and "others_ok q st (snd (remove_watcher p st))"
    and "others_ok q st (emit ev st)"
proof -
  have upd: "map_of (AList.update (player_id r) r' (sessions st)) q = None \<longleftrightarrow> map_of (sessions st) q = None"
    if "get_session_by_num k st = Some r" for k r r'
    using that get_session_by_num_iff [OF assms] consistentD(1) [OF ss_inv_consistent [OF assms]]
    by (auto simp: dict_simps)
  show "q \<noteq> p \<Longrightarrow> map_of (sessions st) p = None \<Longrightarrow> others_ok q st (snd (add_session now wall p nm st))"
    using ss_inv_add_session [OF assms] by (simp add: others_ok_def add_session_def Let_def dict_simps)
  show "others_ok q st (snd (remove_session r reason st))"
    using ss_inv_remove_session [OF assms, of r reason]
    by (simp add: others_ok_def remove_session_def dict_simps split: option.splits)
  show "q \<noteq> p \<Longrightarrow> map_of (watching st) p = None \<Longrightarrow> others_ok q st (snd (add_watcher p n st))"
    using ss_inv_add_watcher [OF assms, of p n] upd
    by (simp add: others_ok_def add_watcher_def Let_def dict_simps del: map_of_eq_None_iff split: option.splits if_splits)
  show "others_ok q st (snd (remove_watcher p st))"
    using ss_inv_remove_watcher [OF assms, of p] upd
    by (simp add: others_ok_def remove_watcher_def Let_def dict_simps del: map_of_eq_None_iff split: option.splits)
  show "others_ok q st (emit ev st)"
    using assms by (simp add: others_ok_def)
qed

lemma active_state_none_iff:
  "active_state p st = ''none'' \<longleftrightarrow> map_of (sessions st) p = None \<and> map_of (watching st) p = None"
  by (simp add: active_state_status(3) status_Idle)

text \<open>
  The registry stays consistent and every update the coroutine makes itself respects all other
  players.
\<close>

definition respectful :: "string \<Rightarrow> world \<Rightarrow> bool" where
  "respectful p w \<longleftrightarrow> ss_inv (reg w) \<and>
     (\<forall>(st, st') \<in> set (own_steps w). \<forall>q. q \<noteq> p \<longrightarrow> others_ok q st st')"

definition unregistered :: "string \<Rightarrow> world \<Rightarrow> bool" where
  "unregistered p w \<longleftrightarrow> map_of (sessions (reg w)) p = None"

lemma respectful_did:
  assumes "respectful p w" and "\<And>q. q \<noteq> p \<Longrightarrow> others_ok q (reg w) (snd (f (reg w)))" and "ss_inv (snd (f (reg w)))"
  shows "respectful p (did f w)"
  using assms by (auto simp: respectful_def did_def)

lemma respectful_after:
  "rely p env \<Longrightarrow> respectful p w \<Longrightarrow> respectful p (after env eff w)"
  by (auto simp: respectful_def after_def rely_def others_ok_def)

interpretation registry_laws: reset_laws "rely p" "respectful p" "\<lambda>_. True" p "unregistered p"
proof unfold_locales
  fix env w eff
  assume "rely p env" "respectful p w"
  then show "respectful p (after env eff w)" by (rule respectful_after)
next
  fix env w eff
  assume "rely p env" "respectful p w" "unregistered p w"
  then show "unregistered p (after env eff w)"
    by (simp add: respectful_def unregistered_def after_def rely_def others_ok_def)
next
  fix w now wall nm
  assume "respectful p w" "unregistered p w"
  then show "respectful p (did (add_session now wall p nm) w)"
    by (intro respectful_did) (auto simp: respectful_def unregistered_def intro: others_ok_ops(1) ss_inv_add_session)
next
  fix w n
  assume "respectful p w" "active_state p (reg w) = ''none''"
  then show "respectful p (did (add_watcher p n) w)"
    by (intro respectful_did)
      (auto simp: respectful_def active_state_none_iff intro: others_ok_ops(3) ss_inv_add_watcher)
next
  fix w reason
  show "unregistered p (did (remove_session p reason) w)"
    by (simp add: unregistered_def did_def remove_session_def dict_simps split: option.split)
  assume "respectful p w"
  then show "respectful p (did (remove_session p reason) w)"
    by (intro respectful_did) (auto simp: respectful_def intro: others_ok_ops(2) ss_inv_remove_session)
next
  fix w
  assume "respectful p w"
  then show "respectful p (did (remove_watcher p) w)"
    by (intro respectful_did) (auto simp: respectful_def intro: others_ok_ops(4) ss_inv_remove_watcher)
next
  fix w ev
  assume "respectful p w"
  then show "respectful p (did (\<lambda>st. ((), emit ev st)) w)"
    by (intro respectful_did) (auto simp: respectful_def intro: others_ok_ops(5))
qed (simp_all add: unregistered_def active_state_none_iff respectful_def)

interpretation registry_admin: admin_laws "rely p" "respectful p" "\<lambda>_. True" p "unregistered p"
proof unfold_locales
  fix w q reason
  assume "respectful p w"
  then show "respectful p (did (remove_session q reason) w)"
    by (intro respectful_did) (auto simp: respectful_def intro: others_ok_ops(2) ss_inv_remove_session)
qed simp_all

section \<open>Exclusivity\<close>

text \<open>The same contract for the rule that nobody plays and watches at once: without \<open>!reset\<close>.\<close>

definition orderly :: "world \<Rightarrow> bool" where
  "orderly w \<longleftrightarrow> ss_inv (reg w) \<and> exclusive (reg w)"

definition idle :: "string \<Rightarrow> world \<Rightarrow> bool" where
  "idle p w \<longleftrightarrow> active_state p (reg w) = ''none''"

definition rely_exclusive :: "string \<Rightarrow> env \<Rightarrow> bool" where
  "rely_exclusive p env \<longleftrightarrow> (\<forall>tr st. ss_inv st \<longrightarrow> exclusive st \<longrightarrow>
     exclusive (interfere env tr st) \<and> others_ok p st (interfere env tr st))"

interpretation exclusive_laws: admin_laws "rely_exclusive p" orderly "\<lambda>_. True" p "idle p"
proof unfold_locales
  fix env w eff
  assume "rely_exclusive p env" "orderly w"
  then show "orderly (after env eff w)"
    by (simp add: orderly_def after_def rely_exclusive_def others_ok_def)
next
  fix env w eff
  assume "rely_exclusive p env" "orderly w" "idle p w"
  then show "idle p (after env eff w)"
    by (simp add: orderly_def idle_def after_def rely_exclusive_def others_ok_def active_state_none_iff)
next
  fix w now wall nm
  assume "orderly w" "idle p w"
  then show "orderly (did (add_session now wall p nm) w)"
    by (simp add: orderly_def idle_def did_def active_state_none_iff ss_inv_add_session exclusive_add_session)
next
  fix w n
  assume "orderly w" "active_state p (reg w) = ''none''"
  then show "orderly (did (add_watcher p n) w)"
    by (simp add: orderly_def did_def active_state_none_iff ss_inv_add_watcher exclusive_add_watcher)
qed (simp_all add: orderly_def idle_def did_def ss_inv_remove_session ss_inv_remove_watcher
      exclusive_remove_session exclusive_remove_watcher)

section \<open>Isolation\<close>

definition isolated :: "string \<Rightarrow> effect list \<Rightarrow> world \<Rightarrow> bool" where
  "isolated p tr0 w \<longleftrightarrow> (\<exists>es. trace w = tr0 @ es \<and> (\<forall>r. Eff_request r \<in> set es \<longrightarrow> r \<in> own_requests p))"

lemma isolated_snoc:
  assumes "isolated p tr0 w" and "\<And>r. eff = Eff_request r \<Longrightarrow> r \<in> own_requests p" and "trace w' = trace w @ [eff]"
  shows "isolated p tr0 w'"
proof -
  obtain es where "trace w = tr0 @ es" "\<forall>r. Eff_request r \<in> set es \<longrightarrow> r \<in> own_requests p"
    using assms(1) by (auto simp: isolated_def)
  then have "trace w' = tr0 @ (es @ [eff])" "\<forall>r. Eff_request r \<in> set (es @ [eff]) \<longrightarrow> r \<in> own_requests p"
    using assms(2,3) by auto
  then show ?thesis unfolding isolated_def by blast
qed

interpretation isolation_laws: reset_laws "\<lambda>_. True" "isolated p tr0"
  "\<lambda>eff. \<forall>r. eff = Eff_request r \<longrightarrow> r \<in> own_requests p" p "\<lambda>_. True"
proof unfold_locales
  fix env w eff
  assume "isolated p tr0 w" "\<forall>r. eff = Eff_request r \<longrightarrow> r \<in> own_requests p"
  then show "isolated p tr0 (after env eff w)"
    using isolated_snoc [of p tr0 w eff "after env eff w"] by (simp add: after_def)
qed (simp_all add: isolated_def did_def)

section \<open>Properties of the switch\<close>

lemma anonymous_or_named:
  obtains (named) p where "ctx_pubkey_prefix ctx = Some p" | (anonymous) "\<not> truthy (ctx_pubkey_prefix ctx)"
  by (cases "ctx_pubkey_prefix ctx") (auto simp: truthy_def)

text \<open>The key under which the bot serialises a sender's commands.\<close>

definition sender_key :: "bot_context \<Rightarrow> string" where
  "sender_key ctx = (case ctx_pubkey_prefix ctx of None \<Rightarrow> [] | Some p \<Rightarrow> p)"

lemma registry_switch: "keeps (rely (sender_key ctx)) (respectful (sender_key ctx)) (bot_handle t0 ctx command rest)"
proof (cases "ctx_pubkey_prefix ctx")
  case None
  then have "\<not> truthy (ctx_pubkey_prefix ctx)" by (simp add: truthy_def)
  then show ?thesis by (rule registry_laws.k_anonymous)
next
  case (Some q)
  then have "sender_key ctx = q" by (simp add: sender_key_def)
  then show ?thesis
    using registry_laws.k_switch [OF Some registry_admin.k_admin_end registry_laws.k_reset [OF Some]] by simp
qed

text \<open>
  Whatever command a sender gives, whatever the game service, the radio and the clocks answer
  and wherever other tasks run in between, the session tables are consistent when the handler is
  done, also when it ends with an exception. The other tasks are assumed to keep the tables
  consistent and not to register the sender themselves.
\<close>

theorem handle_keeps_tables_consistent:
  assumes "ss_inv (reg w)" and "own_steps w = []"
    and "\<And>tr st. ss_inv st \<Longrightarrow> others_ok (sender_key ctx) st (interfere env tr st)"
  shows "ss_inv (reg (snd (bot_handle t0 ctx command rest env w)))"
proof -
  have "respectful (sender_key ctx) (snd (bot_handle t0 ctx command rest env w))"
    by (rule keepsD [OF registry_switch]) (use assms in \<open>simp_all add: rely_def respectful_def\<close>)
  then show ?thesis by (simp add: respectful_def)
qed

text \<open>An environment in which every call succeeds and nobody else runs.\<close>

definition calm_env :: "http_response \<Rightarrow> env" where
  "calm_env resp =
     \<lparr>ans_reply = \<lambda>_ _. Inr (Some True), ans_dm = \<lambda>_ _ _. Inr (Some True), ans_watcher_dm = \<lambda>_ _ _. Inr None,
      has_dm_sender = True, has_watcher_sender = True, ans_http = \<lambda>_ _. Http_response resp,
      monotonic = \<lambda>_. 50, wall_time = \<lambda>_. 1700000000, contact_by_prefix = \<lambda>_ _. None, jitter = \<lambda>_. 2,
      interfere = \<lambda>_ st. st\<rparr>"

definition ok_response :: "string \<Rightarrow> http_response" where
  "ok_response t = \<lparr>status_code = 200, content_type = ''application/json'',
     body = Some \<lparr>pl_ok = Some True, pl_output = Some t, pl_error = None, pl_sessions = None\<rparr>, status_text = []\<rparr>"

definition fresh_world :: "session_state \<Rightarrow> world" where
  "fresh_world st = \<lparr>reg = st, trace = [], fanouts = [], own_steps = [], moves = []\<rparr>"

definition dm_ctx :: "string \<Rightarrow> string \<Rightarrow> bot_context" where
  "dm_ctx p t = \<lparr>ctx_message = \<lparr>im_text = t, im_sender_name = Some ''Ann'', im_pubkey_prefix = Some p,
     im_is_dm = True, im_channel_idx = 0\<rparr>, ctx_args = t, ctx_config = default_config\<rparr>"

theorem handle_keeps_tables_consistent_witness:
  "ss_inv (reg (snd (bot_handle 0 (dm_ctx ''ab12'' ''!start'') ''start'' [] (calm_env (ok_response ''West of House''))
     (fresh_world (new_session_state 2)))))"
  by (rule handle_keeps_tables_consistent)
    (simp_all add: fresh_world_def calm_env_def others_ok_def)

text \<open>
  Every change a sender's command makes to the tables respects every other player: it keeps
  the tables consistent and neither gives another player a session nor makes another player a
  watcher. These changes compose, so any interleaving of other players' commands satisfies the
  assumption on the other tasks above.
\<close>

theorem handle_respects_others:
  assumes "ss_inv (reg w)" and "own_steps w = []"
    and "\<And>tr st. ss_inv st \<Longrightarrow> others_ok (sender_key ctx) st (interfere env tr st)"
    and "(st, st') \<in> set (own_steps (snd (bot_handle t0 ctx command rest env w)))" and "q \<noteq> sender_key ctx"
  shows "others_ok q st st' \<and> (\<forall>st0. others_ok q st0 st \<longrightarrow> others_ok q st0 st')"
proof -
  have "respectful (sender_key ctx) (snd (bot_handle t0 ctx command rest env w))"
    by (rule keepsD [OF registry_switch]) (use assms(1-3) in \<open>simp_all add: rely_def respectful_def\<close>)
  then have "others_ok q st st'"
    using assms(4,5) by (auto simp: respectful_def)
  then show ?thesis using others_ok_trans by blast
qed

theorem handle_respects_others_witness:
  "others_ok ''cd34'' (new_session_state 2)
     (emit (command_event (dm_ctx ''ab12'' ''!list'') ''list'' True None) (new_session_state 2))"
proof -
  let ?st = "new_session_state 2" and ?ctx = "dm_ctx ''ab12'' ''!list''"
  have key: "sender_key ?ctx = ''ab12''" by (simp add: sender_key_def dm_ctx_def)
  have "(?st, emit (command_event ?ctx ''list'' True None) ?st) \<in>
      set (own_steps (snd (bot_handle 0 ?ctx ''list'' [] (calm_env (ok_response [])) (fresh_world ?st))))"
    by (simp add: bot_handle_def bind_io_def upd_reg_def did_def fresh_world_def handle_list_def read_reg_def
        all_sessions_def new_session_state_def reply_def send_reply_def await_eff_def after_def ret_def calm_env_def)
  from handle_respects_others [OF _ _ _ this, of "''cd34''"] show ?thesis
    by (simp add: fresh_world_def calm_env_def others_ok_def key)
qed

text \<open>
  C12. Except for \<open>!reset\<close>, every command keeps the rule that nobody plays and watches at the same
  time, again with other tasks running at every await and whether or not it ends with an exception.
\<close>

theorem handle_keeps_exclusive:
  assumes "ss_inv (reg w)" and "exclusive (reg w)" and "command \<noteq> ''reset''"
    and "\<And>tr st. ss_inv st \<Longrightarrow> exclusive st \<Longrightarrow>
      exclusive (interfere env tr st) \<and> others_ok (sender_key ctx) st (interfere env tr st)"
  shows "exclusive (reg (snd (bot_handle t0 ctx command rest env w)))"
proof -
  have "keeps (rely_exclusive (sender_key ctx)) orderly (bot_handle t0 ctx command rest)"
  proof (cases "ctx_pubkey_prefix ctx")
    case None
    then have "\<not> truthy (ctx_pubkey_prefix ctx)" by (simp add: truthy_def)
    then show ?thesis by (rule exclusive_laws.k_anonymous)
  next
    case (Some q)
    then have "sender_key ctx = q" by (simp add: sender_key_def)
    then show ?thesis
      using exclusive_laws.k_switch [OF Some exclusive_laws.k_admin_end] assms(3) by simp
  qed
  from keepsD [OF this, of env w] show ?thesis
    using assms by (simp add: rely_exclusive_def orderly_def)
qed

theorem handle_keeps_exclusive_witness:
  "exclusive (reg (snd (bot_handle 0 (dm_ctx ''ab12'' ''!start'') ''start'' [] (calm_env (ok_response ''West of House''))
     (fresh_world (new_session_state 2)))))"
  by (rule handle_keeps_exclusive)
    (use fresh_registry(1) [of 2] in \<open>simp_all add: fresh_world_def calm_env_def others_ok_def ss_good_def\<close>)

interpretation quiet: effect_laws "\<lambda>env. \<forall>tr st. interfere env tr st = st" "\<lambda>w. reg w = st0" "\<lambda>_. True" p
  by unfold_locales (simp_all add: after_def)

text \<open>
  \<open>!reset\<close> breaks that rule: a player who is watching a session and sends \<open>!reset\<close> in a direct
  message ends up playing and still watching, whenever the game service accepts the reset and
  nobody else interferes.
\<close>

theorem reset_while_watching:
  assumes "ctx_pubkey_prefix ctx = Some p" and "p \<noteq> []" and "ctx_is_dm ctx"
    and "map_of (sessions (reg w)) p = None" and "map_of (watching (reg w)) p = Some n"
    and "ans_http env (trace w) (reset_session_request p) = Http_response resp"
    and "is_success (status_code resp)" and "body resp = Some pl" and "pl_ok pl = Some True"
    and "\<And>tr st. interfere env tr st = st"
  shows "map_of (sessions (reg (snd (bot_handle t0 ctx ''reset'' rest env w)))) p \<noteq> None \<and>
    map_of (watching (reg (snd (bot_handle t0 ctx ''reset'' rest env w)))) p = Some n"
proof -
  let ?ev = "command_event ctx ''reset'' True None"
  let ?w1 = "did (remove_session p ''reset'') (did (\<lambda>st. ((), emit ?ev st)) w)"
  let ?w2 = "after env (Eff_request (reset_session_request p)) ?w1"
  let ?add = "add_session (monotonic env (trace ?w2)) (wall_time env (trace ?w2)) p (or_else (ctx_sender_name ctx) (take 8 p))"
  have "map_of (sessions (emit ?ev (reg w))) p = None" using assms(4) by simp
  then have w1: "snd (remove_session p ''reset'' (emit ?ev (reg w))) = emit ?ev (reg w)"
    by (simp add: remove_session_def)
  have reset: "reset_session p env ?w1 = (Inr (), ?w2)"
    using assms(6-9) w1 by (simp add: reset_session_def client_request_def bind_io_def await_eff_def ret_def
        response_json_def or_default_def)
  have run: "bot_handle t0 ctx ''reset'' rest env w = reset_registered ctx p (fst (?add (reg ?w2))) env (did ?add ?w2)"
    using assms(1-3) reset
    by (simp add: bot_handle_def handle_reset_def reset_checked_def bind_io_def upd_reg_def catch_io_def ret_def
        ask_def truthy_def)
  have "reg (snd (reset_registered ctx p r env w')) = reg w'" for r w'
    using keepsD [OF quiet.k_reset_registered, of env w' "reg w'"] assms(10) by simp
  then have "reg (snd (bot_handle t0 ctx ''reset'' rest env w)) = snd (?add (emit ?ev (reg w)))"
    by (simp add: run assms(10) w1)
  then show ?thesis
    using assms(5) by (simp add: add_session_def Let_def dict_simps)
qed

theorem reset_while_watching_witness:
  "map_of (watching (reg (snd (bot_handle 0 (dm_ctx ''ab12'' ''!reset'') ''reset'' [] (calm_env (ok_response ''West of House''))
     (fresh_world (snd (add_watcher ''ab12'' 1 (snd (add_session 0 0 ''cd34'' ''Bob'' (new_session_state 2)))))))))) ''ab12'' = Some 1"
  by (rule conjunct2 [OF reset_while_watching [where resp = "ok_response ''West of House''"]])
    (auto simp: dm_ctx_def fresh_world_def calm_env_def ok_response_def is_success_def add_watcher_def
      add_session_def new_session_state_def get_session_by_num_def Let_def)

text \<open>
  C24. Commands only touch the sender's own game: every request any command makes to the game service
  is about the sender's own session, except an administrator's \<open>!end\<close>. This holds in every
  environment, with no assumption on the other tasks.
\<close>

theorem handle_is_isolated:
  assumes "ctx_pubkey_prefix ctx = Some p" and "\<not> (command = ''end'' \<and> is_admin ctx)"
    and "Eff_request r \<in> set (drop (length (trace w)) (trace (snd (bot_handle t0 ctx command rest env w))))"
  shows "r \<in> own_requests p"
proof -
  have "keeps (\<lambda>_. True) (isolated p (trace w)) (bot_handle t0 ctx command rest)"
    by (rule isolation_laws.k_switch [OF assms(1)])
      (use assms(2) in \<open>simp_all add: isolation_laws.k_not_admin isolation_laws.k_reset [OF assms(1)]\<close>)
  from keepsD [OF this, where env = env and w = w] show ?thesis
    using assms(3) by (auto simp: isolated_def)
qed

theorem handle_is_isolated_witness:
  "command_request ''ab12'' ''look'' \<in> own_requests ''ab12''"
proof (rule handle_is_isolated)
  let ?st = "snd (add_session 0 0 ''ab12'' ''Ann'' (new_session_state 2))"
  show "ctx_pubkey_prefix (dm_ctx ''ab12'' ''look'') = Some ''ab12''" by (simp add: dm_ctx_def)
  show "\<not> (''_game'' = ''end'' \<and> is_admin (dm_ctx ''ab12'' ''look''))" by simp
  have "validate ''look'' False = Inr ()" by code_simp
  moreover have "packets_io ''Taken.'' 120 None = ret [''Taken.'']"
  proof -
    have "packetize ''Taken.'' 120 None None True = Inr [''Taken.'']" by code_simp
    then show ?thesis by (simp add: packets_io_def)
  qed
  ultimately show "Eff_request (command_request ''ab12'' ''look'') \<in> set (drop (length (trace (fresh_world ?st)))
      (trace (snd (bot_handle 0 (dm_ctx ''ab12'' ''look'') ''_game'' ''look'' (calm_env (ok_response ''Taken.'')) (fresh_world ?st)))))"
    by (simp add: bot_handle_def handle_game_command_def dm_ctx_def truthy_def bind_io_def upd_reg_def did_def ret_def
        read_reg_def get_session_def add_session_def new_session_state_def Let_def catch_io_def game_command_def
        client_request_def await_eff_def after_def calm_env_def ok_response_def is_success_def response_json_def
        or_default_def default_config_def send_reply_def fresh_world_def current_record_def get_session_by_num_def)
qed

end
