(* ===== verification/Bot_Outcomes.thy ===== *)
theory Bot_Outcomes
  imports Bot_Handle
begin

text \<open>
  What particular commands do, on every branch: \<open>!end\<close>, bare game commands, the watcher jobs and
  the reconciliation with the game service.
\<close>

lemmas io_defs = bind_io_def catch_io_def ret_def throw_def read_reg_def ask_def upd_reg_def queue_fanout_def await_eff_def

section \<open>Ending a session\<close>

text \<open>Whether the client turns the outcome of a request into a value or a named exception.\<close>

fun answered :: "http_outcome \<Rightarrow> bool" where
  "answered (Http_failure _) = False"
| "answered (Http_response resp) \<longleftrightarrow>
     body resp \<noteq> None \<or> (\<not> is_success (status_code resp) \<and> \<not> startswith (content_type resp) ''application/json'')"

lemma raise_status_game: "is_game_error (raise_status st m)"
  by (simp add: raise_status_def)

lemma end_session_caught:
  fixes w :: world and p :: string and env :: env
  defines "rq \<equiv> end_session_request p"
  shows "catch_io (end_session p) (\<lambda>e. if is_game_error e then ret () else throw e) env w =
    (if answered (ans_http env (trace w) rq) then Inr () else fst (end_session p env w), after env (Eff_request rq) w) \<and>
    (answered (ans_http env (trace w) rq) \<or> isl (fst (end_session p env w)))"
proof (cases "ans_http env (trace w) rq")
  case (Http_failure m)
  then show ?thesis
    by (simp add: rq_def end_session_def client_request_def io_defs)
next
  case (Http_response resp)
  then show ?thesis
    using raise_status_game
    by (cases "body resp")
      (auto simp: rq_def end_session_def client_request_def response_json_def json_error_def io_defs)
qed

text \<open>
  C32. \<open>!end\<close> from a player with a session always removes that session, before anything is awaited
  and whatever happens afterwards. If the game service gives an answer, even an error, the player
  is told the session is saved, and, unless that reply raises, exactly one end-of-session notice is
  queued for its watchers. If the service gives no answer at all (the connection fails, or the
  body is not JSON) the handler ends with an exception: no reply, and no notice to the watchers.
\<close>

theorem end_outcome:
  fixes w :: world and env :: env and ctx :: bot_context and p rest :: string and t0 :: real and r :: session_record
  assumes "ctx_pubkey_prefix ctx = Some p" and "p \<noteq> []" and "strip rest = []"
    and "get_session p (reg w) = Some r"
  defines "st1 \<equiv> emit (command_event ctx ''end'' True None) (reg w)"
    and "out \<equiv> ans_http env (trace w) (end_session_request p)"
    and "res \<equiv> bot_handle t0 ctx ''end'' rest env w"
    and "t \<equiv> ''Zork I Session #'' @ str_int (num r) @ '' saved and ended.''"
    and "tr1 \<equiv> trace w @ [Eff_request (end_session_request p)]"
  shows "own_steps (snd res) = own_steps w @ [(reg w, st1), (st1, snd (remove_session p ''player_end'' st1))] \<and>
    (if answered out
     then trace (snd res) = tr1 @ [Eff_reply t] \<and>
       (case ans_reply env tr1 t of
          Inl e \<Rightarrow> fst res = Inl e \<and> fanouts (snd res) = fanouts w
        | Inr _ \<Rightarrow> fst res = Inr () \<and> fanouts (snd res) = fanouts w @ [(num r, Notify_ended r)])
     else trace (snd res) = tr1 \<and> isl (fst res) \<and> fanouts (snd res) = fanouts w)"
proof -
  let ?w1 = "did (\<lambda>st. ((), emit (command_event ctx ''end'' True None) st)) w"
  let ?w2 = "did (remove_session p ''player_end'') ?w1"
  have r: "map_of (sessions (reg w)) p = Some r" using assms(4) by (simp add: get_session_def)
  then have playing: "active_state p (reg ?w1) = ''playing''" by (simp add: active_state_def)
  have removed: "fst (remove_session p ''player_end'' (reg ?w1)) = Some r"
    using r by (simp add: remove_session_def)
  have run: "res = bind_io (catch_io (end_session p) (\<lambda>e. if is_game_error e then ret () else throw e)) (\<lambda>_.
      bind_io (reply t) (\<lambda>_. queue_fanout (num r) (Notify_ended r))) env ?w2"
    unfolding res_def bot_handle_def handle_end_def assms(1) option.sel Let_def
    using assms(2,3) playing removed
    by (simp add: bind_io_def [of "upd_reg f" for f] upd_reg_def bind_io_def [of "read_reg f" for f] read_reg_def truthy_def t_def)
  have tr: "trace ?w2 = trace w" by simp
  note caught = end_session_caught [of p env ?w2]
  have steps: "own_steps ?w2 = own_steps w @ [(reg w, st1), (st1, snd (remove_session p ''player_end'' st1))]"
    by (simp add: did_def st1_def)
  show ?thesis
  proof (cases "answered out")
    case True
    then have "catch_io (end_session p) (\<lambda>e. if is_game_error e then ret () else throw e) env ?w2 =
        (Inr (), after env (Eff_request (end_session_request p)) ?w2)"
      using caught by (simp add: out_def)
    then show ?thesis
      using True steps
      by (simp add: run bind_io_def [of "catch_io m h" for m h] bind_io_def [of "reply x" for x] reply_def send_reply_def
          io_defs tr1_def split: sum.split)
  next
    case False
    then obtain e where "catch_io (end_session p) (\<lambda>e. if is_game_error e then ret () else throw e) env ?w2 =
        (Inl e, after env (Eff_request (end_session_request p)) ?w2)"
      using caught by (auto simp: out_def isl_def)
    then show ?thesis
      using False steps by (simp add: run bind_io_def [of "catch_io m h" for m h] tr1_def)
  qed
qed

theorem end_outcome_witness:
  "fanouts (snd (bot_handle 0 (dm_ctx ''ab12'' ''!end'') ''end'' [] (calm_env (ok_response []))
     (fresh_world (snd (add_session 3 4 ''ab12'' ''Ann'' (new_session_state 2)))))) =
   [(1, Notify_ended \<lparr>num = 1, player_id = ''ab12'', player_name = ''Ann'', started_at = 3, started_wall_at = 4, watchers = []\<rparr>)]"
proof -
  let ?w = "fresh_world (snd (add_session 3 4 ''ab12'' ''Ann'' (new_session_state 2)))"
  let ?r = "\<lparr>num = 1, player_id = ''ab12'', player_name = ''Ann'', started_at = 3, started_wall_at = 4, watchers = []\<rparr>"
  have "ctx_pubkey_prefix (dm_ctx ''ab12'' ''!end'') = Some ''ab12''" "strip [] = []"
    "get_session ''ab12'' (reg ?w) = Some ?r"
    by (simp_all add: dm_ctx_def strip_def strip_by_def fresh_world_def get_session_def add_session_def
        new_session_state_def Let_def)
  from end_outcome [OF this(1) _ this(2,3), of 0 "calm_env (ok_response [])"] show ?thesis
    by (simp add: calm_env_def ok_response_def fresh_world_def)
qed

section \<open>Bare game commands\<close>

definition only_requests :: "http_request set \<Rightarrow> effect list \<Rightarrow> world \<Rightarrow> bool" where
  "only_requests R tr0 w \<longleftrightarrow> (\<exists>es. trace w = tr0 @ es \<and> (\<forall>r. Eff_request r \<in> set es \<longrightarrow> r \<in> R))"

lemma only_requests_after:
  assumes "only_requests R tr0 w" and "\<And>r. eff = Eff_request r \<Longrightarrow> r \<in> R"
  shows "only_requests R tr0 (after env eff w)"
proof -
  obtain es where "trace w = tr0 @ es" "\<forall>r. Eff_request r \<in> set es \<longrightarrow> r \<in> R"
    using assms(1) by (auto simp: only_requests_def)
  then have "trace (after env eff w) = tr0 @ (es @ [eff])" "\<forall>r. Eff_request r \<in> set (es @ [eff]) \<longrightarrow> r \<in> R"
    using assms(2) by auto
  then show ?thesis unfolding only_requests_def by blast
qed

interpretation request_laws: talk_laws "\<lambda>_. True" "only_requests R tr0" "\<lambda>eff. \<forall>r. eff = Eff_request r \<longrightarrow> r \<in> R"
  by unfold_locales (simp_all add: only_requests_after)

lemma only_requests_registry: "only_requests R tr0 w \<Longrightarrow> only_requests R tr0 (did f w)"
  "only_requests R tr0 w \<Longrightarrow> only_requests R tr0 (w\<lparr>fanouts := x\<rparr>)"
  by (simp_all add: only_requests_def)

lemma game_command_requests:
  assumes "ctx_pubkey_prefix ctx = Some p"
  shows "keeps (\<lambda>_. True) (only_requests {command_request p t} tr0) (handle_game_command ctx t)"
  unfolding handle_game_command_def Let_def assms option.sel
  by (intro request_laws.k_talks k_client request_laws.tolerated keeps_upd keeps_queue only_requests_registry) simp_all

lemma game_command_refused:
  assumes "ctx_pubkey_prefix ctx = Some p" and "p = [] \<or> get_session p (reg w) = None \<or> isl (validate t False)"
  shows "\<exists>m. trace (snd (handle_game_command ctx t env w)) = trace w @ [Eff_reply m]"
proof -
  have "\<exists>m. handle_game_command ctx t env w = bind_io (reply m) (\<lambda>_. ret ()) env w"
    using assms
    by (auto simp: handle_game_command_def truthy_def bind_io_def [of "read_reg f" for f] read_reg_def isl_def
        split: option.split)
  then show ?thesis
    by (auto simp: reply_def send_reply_def io_defs split: sum.split)
qed

text \<open>
  C25. Text a player sends reaches the game service only if it passes the sanitizer for an
  unprivileged caller and the player has a session; then exactly the text as given is sent, to the
  player's own session. Holds in every environment and with any interference.
\<close>

theorem game_command_forwards_only_valid:
  assumes "ctx_pubkey_prefix ctx = Some p"
    and "Eff_request rq \<in> set (drop (length (trace w)) (trace (snd (bot_handle t0 ctx ''_game'' t env w))))"
  shows "rq = command_request p t \<and> validate t False = Inr () \<and> get_session p (reg w) \<noteq> None"
proof -
  let ?w1 = "did (\<lambda>st. ((), emit (command_event ctx ''_game'' True None) st)) w"
  have run: "bot_handle t0 ctx ''_game'' t env w = handle_game_command ctx t env ?w1"
    by (simp add: bot_handle_def bind_io_def [of "upd_reg f" for f] upd_reg_def)
  have same: "get_session p (reg ?w1) = get_session p (reg w)" by (simp add: get_session_def)
  have "only_requests {command_request p t} (trace w) (snd (handle_game_command ctx t env ?w1))"
    using keepsD [OF game_command_requests [OF assms(1), of t "trace w"], where env = env and w = ?w1]
    by (simp add: only_requests_def)
  then have rq: "rq = command_request p t"
    using assms(2) unfolding run by (auto simp: only_requests_def)
  have "\<not> (p = [] \<or> get_session p (reg ?w1) = None \<or> isl (validate t False))"
  proof
    assume "p = [] \<or> get_session p (reg ?w1) = None \<or> isl (validate t False)"
    from game_command_refused [OF assms(1) this] obtain m
      where "trace (snd (handle_game_command ctx t env ?w1)) = trace ?w1 @ [Eff_reply m]" by blast
    with assms(2) show False unfolding run by simp
  qed
  with rq same show ?thesis by (cases "validate t False") auto
qed

theorem game_command_forwards_only_valid_witness:
  "validate ''look'' False = Inr ()"
proof -
  let ?w = "fresh_world (snd (add_session 0 0 ''ab12'' ''Ann'' (new_session_state 2)))"
  let ?env = "(calm_env (ok_response []))\<lparr>ans_http := \<lambda>_ _. Http_failure ''ConnectError''\<rparr>"
  have valid: "validate ''look'' False = Inr ()" by code_simp
  have "Eff_request (command_request ''ab12'' ''look'') \<in> set (drop (length (trace ?w))
      (trace (snd (bot_handle 0 (dm_ctx ''ab12'' ''look'') ''_game'' ''look'' ?env ?w))))"
    by (simp add: bot_handle_def handle_game_command_def dm_ctx_def truthy_def io_defs
        get_session_def add_session_def new_session_state_def Let_def game_command_def valid
        client_request_def calm_env_def fresh_world_def)
  from game_command_forwards_only_valid [OF _ this, of "''ab12''"] show ?thesis by (simp add: dm_ctx_def)
qed

section \<open>Watcher jobs\<close>

lemma each_io_send:
  assumes "has_watcher_sender env" and "\<And>tr q t. ans_watcher_dm env tr q t = Inr (a tr q t)"
  shows "fst (each_io (send_watcher_dm v) ts env w) = Inr () \<and>
    trace (snd (each_io (send_watcher_dm v) ts env w)) = trace w @ map (Eff_watcher_dm v) ts"
  by (induction ts arbitrary: w) (simp_all add: io_defs send_watcher_dm_def assms)

lemma each_io_bind:
  assumes "\<And>x w. fst (f x env w) = Inr ()" and "\<And>x w. trace (snd (f x env w)) = trace w @ g x"
  shows "fst (each_io f xs env w) = Inr () \<and> trace (snd (each_io f xs env w)) = trace w @ concat (map g xs)"
proof (induction xs arbitrary: w)
  case (Cons x xs)
  show ?case using Cons [of "snd (f x env w)"] assms
    by (simp add: bind_io_def split_beta)
qed (simp add: ret_def)

text \<open>
  A watcher job sends to every current watcher of its session, each packet once, watcher by
  watcher and in packet order, and to nobody else: the output of a command as its packets, the end
  of a session as one notice each. The watchers are those of the record when the job runs, or, once
  the session has ended, those it had at its end. (The watcher sender never raises.)
\<close>

theorem watcher_jobs_deliver:
  assumes "has_watcher_sender env" and "\<And>tr q t. ans_watcher_dm env tr q t = Inr (a tr q t)"
  shows "fst (run_job job env w) = Inr () \<and>
    trace (snd (run_job job env w)) = trace w @
      (case job of
         Notify_ended r \<Rightarrow> map (\<lambda>v. Eff_watcher_dm v (ended_text r)) (watchers (current_record r (reg w)))
       | Fan_output r packets \<Rightarrow>
           concat (map (\<lambda>v. map (Eff_watcher_dm v) packets) (watchers (current_record r (reg w)))))"
proof (cases job)
  case (Notify_ended r)
  have "fst (send_watcher_dm v t env w) = Inr ()" "trace (snd (send_watcher_dm v t env w)) = trace w @ [Eff_watcher_dm v t]"
    for v t w by (simp_all add: io_defs send_watcher_dm_def assms)
  from each_io_bind [of "\<lambda>v. send_watcher_dm v (ended_text r)" env "\<lambda>v. [Eff_watcher_dm v (ended_text r)]", OF this]
  show ?thesis
    using Notify_ended by (simp add: notify_watchers_session_ended_def bind_io_def [of "read_reg f" for f] read_reg_def ret_def)
next
  case (Fan_output r packets)
  from each_io_bind [of "\<lambda>v. each_io (send_watcher_dm v) packets" env "\<lambda>v. map (Eff_watcher_dm v) packets"]
  show ?thesis
    using Fan_output each_io_send [OF assms]
    by (simp add: notify_watchers_def bind_io_def [of "read_reg f" for f] read_reg_def)
qed

theorem watcher_jobs_deliver_witness:
  "trace (snd (run_job (Fan_output \<lparr>num = 1, player_id = ''ab12'', player_name = ''Ann'', started_at = 0,
        started_wall_at = 0, watchers = []\<rparr> [''one'', ''two'']) (calm_env (ok_response []))
     (fresh_world (snd (add_watcher ''cd34'' 1 (snd (add_session 0 0 ''ab12'' ''Ann'' (new_session_state 2)))))))) =
   [Eff_watcher_dm ''cd34'' ''one'', Eff_watcher_dm ''cd34'' ''two'']"
  by (subst conjunct2 [OF watcher_jobs_deliver [where a = "\<lambda>_ _ _. None"]])
    (simp_all add: calm_env_def fresh_world_def current_record_def get_session_by_num_def add_watcher_def
      add_session_def new_session_state_def Let_def)

section \<open>Reconciliation\<close>

lemma remove_session_keys:
  "map_of (sessions (snd (remove_session q reason st))) = (map_of (sessions st))(q := None)"
  by (auto simp: remove_session_def dict_simps fun_eq_iff split: option.split)

lemma reconcile_each:
  "fst (each_io (reconcile_one s ids) rs env w) = Inr () \<and>
   trace (snd (each_io (reconcile_one s ids) rs env w)) = trace w \<and>
   fanouts (snd (each_io (reconcile_one s ids) rs env w)) =
     fanouts w @ (if s then map (\<lambda>r. (num r, Notify_ended r)) (filter (\<lambda>r. player_id r \<notin> ids) rs) else []) \<and>
   map_of (sessions (reg (snd (each_io (reconcile_one s ids) rs env w)))) =
     (\<lambda>q. if q \<in> player_id ` set rs - ids then None else map_of (sessions (reg w)) q)"
proof (induction rs arbitrary: w)
  case (Cons r rs)
  obtain w1 where one: "reconcile_one s ids r env w = (Inr (), w1)"
    by (cases "player_id r \<in> ids"; cases s) (simp_all add: reconcile_one_def io_defs)
  then have "trace w1 = trace w"
    and "fanouts w1 = fanouts w @ (if s \<and> player_id r \<notin> ids then [(num r, Notify_ended r)] else [])"
    and "map_of (sessions (reg w1)) =
      (\<lambda>q. if q = player_id r \<and> player_id r \<notin> ids then None else map_of (sessions (reg w)) q)"
    by (cases "player_id r \<in> ids"; cases s; auto simp: reconcile_one_def io_defs remove_session_keys fun_eq_iff)+
  moreover have "each_io (reconcile_one s ids) (r # rs) env w = each_io (reconcile_one s ids) rs env w1"
    by (simp add: bind_io_def one)
  ultimately show ?case
    using Cons [of w1] by (auto simp: fun_eq_iff)
qed (simp_all add: ret_def)

text \<open>
  C33. Reconciliation with the game service: if the sessions can be listed, then afterwards exactly
  those players keep their session whom the service still lists, and for every session removed
  exactly one end-of-session notice is queued, in registration order. If listing fails in any way,
  nothing changes. Other tasks may have changed the registry while the listing was awaited
  (\<open>st1\<close> is the registry as it is then).
\<close>

theorem reconcile_outcome:
  fixes w :: world and env :: env
  defines "res \<equiv> reconcile_sessions env w"
    and "st1 \<equiv> interfere env (trace w @ [Eff_request list_sessions_request]) (reg w)"
  assumes "ss_inv st1" and "has_watcher_sender env"
  shows "fst res = Inr () \<and>
    (case fst (list_sessions env w) of
       Inl _ \<Rightarrow> reg (snd res) = st1 \<and> fanouts (snd res) = fanouts w
     | Inr infos \<Rightarrow>
         map_of (sessions (reg (snd res))) =
           (\<lambda>q. if q \<in> set (map si_player_id infos) then map_of (sessions st1) q else None) \<and>
         fanouts (snd res) = fanouts w @
           map (\<lambda>r. (num r, Notify_ended r)) (filter (\<lambda>r. player_id r \<notin> set (map si_player_id infos)) (all_sessions st1)))"
proof -
  let ?w1 = "after env (Eff_request list_sessions_request) w"
  have ls: "snd (list_sessions env w) = ?w1"
    by (simp add: list_sessions_def client_request_def response_json_def io_defs Let_def
        split: http_outcome.split option.split)
  have keys: "map_of (sessions st1) q = None" if "q \<notin> player_id ` set (all_sessions st1)" for q
  proof (rule ccontr)
    assume "map_of (sessions st1) q \<noteq> None"
    then obtain r where r: "map_of (sessions st1) q = Some r" by blast
    then have "player_id r = q" using consistentD(1) [OF ss_inv_consistent [OF assms(3)]] by blast
    moreover have "r \<in> set (all_sessions st1)"
      using map_of_SomeD [OF r] by (force simp: all_sessions_def)
    ultimately show False using that by blast
  qed
  show ?thesis
  proof (cases "fst (list_sessions env w)")
    case (Inl e)
    then have "list_sessions env w = (Inl e, ?w1)" using ls by (metis prod.collapse)
    then show ?thesis using Inl
      by (simp add: res_def st1_def reconcile_sessions_def bind_io_def catch_io_def ret_def)
  next
    case (Inr infos)
    then have "list_sessions env w = (Inr infos, ?w1)" using ls by (metis prod.collapse)
    then have "res = each_io (reconcile_one True (set (map si_player_id infos))) (all_sessions st1) env ?w1"
      using assms(4)
      by (simp add: res_def st1_def reconcile_sessions_def bind_io_def catch_io_def ret_def read_reg_def ask_def)
    then show ?thesis
      using Inr keys reconcile_each [of True "set (map si_player_id infos)" "all_sessions st1" env ?w1]
      by (auto simp: st1_def fun_eq_iff)
  qed
qed

theorem reconcile_outcome_witness:
  "map_of (sessions (reg (snd (reconcile_sessions
      (calm_env \<lparr>status_code = 200, content_type = [], body = Some \<lparr>pl_ok = None, pl_output = None, pl_error = None,
        pl_sessions = Some []\<rparr>, status_text = []\<rparr>)
      (fresh_world (snd (add_session 0 0 ''ab12'' ''Ann'' (new_session_state 2)))))))) = Map.empty"
proof -
  let ?env = "calm_env \<lparr>status_code = 200, content_type = [], body = Some \<lparr>pl_ok = None, pl_output = None,
      pl_error = None, pl_sessions = Some []\<rparr>, status_text = []\<rparr>"
  let ?w = "fresh_world (snd (add_session 0 0 ''ab12'' ''Ann'' (new_session_state 2)))"
  have "ss_inv (snd (add_session 0 0 ''ab12'' ''Ann'' (new_session_state 2)))"
    by (rule ss_inv_add_session) (simp, simp add: new_session_state_def)
  then have "ss_inv (interfere ?env (trace ?w @ [Eff_request list_sessions_request]) (reg ?w))"
    by (simp add: calm_env_def fresh_world_def)
  from reconcile_outcome [OF this] show ?thesis
    by (simp add: calm_env_def fresh_world_def list_sessions_def client_request_def response_json_def io_defs
        is_success_def or_default_def)
qed

section \<open>Shutdown\<close>

text \<open>The session part of \<open>ZorkBot.stop\<close>: close out every registered session.\<close>

definition stop_sessions :: "session_state \<Rightarrow> session_state" where
  "stop_sessions st = fold (\<lambda>r s. snd (remove_session (player_id r) ''shutdown'' s)) (all_sessions st) st"

lemma stop_sessions_empty:
  assumes "ss_inv st"
  shows "sessions (stop_sessions st) = []"
proof -
  have fold: "map_of (sessions (fold (\<lambda>r s. snd (remove_session (player_id r) ''shutdown'' s)) rs s)) =
      (\<lambda>q. if q \<in> player_id ` set rs then None else map_of (sessions s) q)" for rs s
    by (induction rs arbitrary: s) (auto simp: remove_session_keys fun_eq_iff)
  have "map_of (sessions (stop_sessions st)) q = None" for q
  proof (cases "map_of (sessions st) q")
    case (Some r)
    then have "player_id r = q" using consistentD(1) [OF ss_inv_consistent [OF assms]] by blast
    moreover have "r \<in> set (all_sessions st)" using map_of_SomeD [OF Some] by (force simp: all_sessions_def)
    ultimately show ?thesis by (auto simp: stop_sessions_def fold)
  qed (simp add: stop_sessions_def fold)
  then show ?thesis by (metis list.exhaust map_of_Cons_code(2) option.distinct(1) prod.collapse fun_upd_same map_of.simps(2))
qed

end
