(* ===== verification/Bot_Interleaving.thy ===== *)
theory Bot_Interleaving
  imports Bot_Outcomes
begin

text \<open>
  Commands, reconciliation, watcher jobs and answers to roll calls of \<^verbatim>\<open>src/zorkbot/src/zorkbot/bot.py\<close> running at the same
  time, as tasks of the one event loop. The theory of the command switch proves of one command that it
  respects everybody else as long as everybody else respects it. Here the circle is closed: in any
  interleaving of any number of activities, at the granularity of their awaits, the session tables are
  consistent at every moment.

  What an activity does is taken from its own run: \<open>moves\<close> lists the changes it made itself and, at each
  await, the change it found. A \<open>joint\<close> run is a chain of changes, each by one activity, of which every
  activity sees its own ones as its own and what lies between as what it found. That two commands of one
  sender are not served at once is part of a joint run here; \<open>Whole_Bot\<close> derives it from the queues.
\<close>

section \<open>Activities\<close>

datatype activity = Command_run real bot_context string string | Reconciliation | Watcher_job fan_job | Roll_call bot_context

fun run_activity :: "activity \<Rightarrow> unit io" where
  "run_activity (Command_run t0 ctx command rest) = bot_handle t0 ctx command rest"
| "run_activity Reconciliation = reconcile_sessions"
| "run_activity (Watcher_job job) = run_job job"
| "run_activity (Roll_call ctx) = handle_bots ctx"

text \<open>On whose behalf it may register players: the sender of a command.\<close>

fun activity_key :: "activity \<Rightarrow> string option" where
  "activity_key (Command_run t0 ctx command rest) = Some (sender_key ctx)"
| "activity_key a = None"

section \<open>Commitments\<close>

text \<open>
  What an activity with a key promises about a change of its own, and what it asks of the others'. Its own
  is one operation of the registry, called under the condition the operation needs.
\<close>

definition considerate :: "string option \<Rightarrow> session_state \<Rightarrow> session_state \<Rightarrow> bool" where
  "considerate k st st' \<longleftrightarrow> registry_change st st' \<and> ss_inv st' \<and> (\<forall>q. k \<noteq> Some q \<longrightarrow> others_ok q st st')"

definition bearable :: "string option \<Rightarrow> session_state \<Rightarrow> session_state \<Rightarrow> bool" where
  "bearable k st st' \<longleftrightarrow> ss_inv st' \<and> (\<forall>q. k = Some q \<longrightarrow> others_ok q st st')"

definition undisturbed :: "string option \<Rightarrow> (bool \<times> session_state \<times> session_state) list \<Rightarrow> bool" where
  "undisturbed k ms \<longleftrightarrow> list_all (\<lambda>(own, st, st'). own \<or> bearable k st st') ms"

text \<open>Every change of its own is considerate, as long as all it has found so far was bearable.\<close>

fun promised :: "string option \<Rightarrow> (bool \<times> session_state \<times> session_state) list \<Rightarrow> bool" where
  "promised k [] = True"
| "promised k ((own, st, st') # ms) =
     (if own then considerate k st st' \<and> promised k ms else (bearable k st st' \<longrightarrow> promised k ms))"

lemma promised_append: "promised k (xs @ ys) \<longleftrightarrow> promised k xs \<and> (undisturbed k xs \<longrightarrow> promised k ys)"
  by (induction k xs rule: promised.induct) (auto simp: undisturbed_def)

definition committed :: "string option \<Rightarrow> session_state \<Rightarrow> world \<Rightarrow> bool" where
  "committed k st0 w \<longleftrightarrow>
     (ss_inv st0 \<longrightarrow> promised k (moves w) \<and> (undisturbed k (moves w) \<longrightarrow> ss_inv (reg w)))"

lemma committed_did:
  assumes "committed k st0 w"
    and "ss_inv st0 \<Longrightarrow> undisturbed k (moves w) \<Longrightarrow> ss_inv (reg w) \<Longrightarrow> considerate k (reg w) (snd (f (reg w)))"
  shows "committed k st0 (did f w)"
  using assms by (auto simp: committed_def promised_append undisturbed_def considerate_def)

lemma committed_after: "committed k st0 w \<Longrightarrow> committed k st0 (after env eff w)"
  by (auto simp: committed_def promised_append undisturbed_def bearable_def)

definition not_playing :: "string \<Rightarrow> session_state \<Rightarrow> world \<Rightarrow> bool" where
  "not_playing p st0 w \<longleftrightarrow> (ss_inv st0 \<longrightarrow> undisturbed (Some p) (moves w) \<longrightarrow> unregistered p w)"

lemma undisturbed_did: "undisturbed k (moves (did f w)) \<longleftrightarrow> undisturbed k (moves w)"
  by (simp add: undisturbed_def)

lemma not_playing_after: "not_playing p st0 w \<Longrightarrow> not_playing p st0 (after env eff w)"
  by (auto simp: not_playing_def undisturbed_def bearable_def unregistered_def others_ok_def)

text \<open>The laws of the handlers hold with no assumption on the environment at all.\<close>

interpretation commitment: reset_laws "\<lambda>_. True" "committed (Some p) st0" "\<lambda>_. True" p "not_playing p st0"
proof unfold_locales
  fix w now wall nm
  assume "committed (Some p) st0 w" "not_playing p st0 w"
  then show "committed (Some p) st0 (did (add_session now wall p nm) w)"
    by (intro committed_did)
      (auto simp: considerate_def not_playing_def unregistered_def intro: change_started others_ok_ops(1) ss_inv_add_session)
next
  fix w n
  assume "committed (Some p) st0 w" "active_state p (reg w) = ''none''"
  then show "committed (Some p) st0 (did (add_watcher p n) w)"
    by (intro committed_did)
      (auto simp: considerate_def active_state_none_iff intro: change_watched others_ok_ops(3) ss_inv_add_watcher)
next
  fix w reason
  show "not_playing p st0 (did (remove_session p reason) w)"
    by (simp add: not_playing_def unregistered_def remove_session_def dict_simps split: option.split)
  assume "committed (Some p) st0 w"
  then show "committed (Some p) st0 (did (remove_session p reason) w)"
    by (intro committed_did) (auto simp: considerate_def intro: change_ended others_ok_ops(2) ss_inv_remove_session)
next
  fix w
  assume "committed (Some p) st0 w"
  then show "committed (Some p) st0 (did (remove_watcher p) w)"
    by (intro committed_did) (auto simp: considerate_def intro: change_unwatched others_ok_ops(4) ss_inv_remove_watcher)
next
  fix w ev
  assume "committed (Some p) st0 w" "\<not> boundary ev"
  then show "committed (Some p) st0 (did (\<lambda>st. ((), emit ev st)) w)"
    by (intro committed_did) (auto simp: considerate_def intro: change_noted others_ok_ops(5))
next
  fix w k job
  assume "committed (Some p) st0 w"
  then show "committed (Some p) st0 (w\<lparr>fanouts := fanouts w @ [(k, job)]\<rparr>)" by (simp add: committed_def)
next
  fix env w eff
  assume "not_playing p st0 w"
  then show "not_playing p st0 (after env eff w)" by (rule not_playing_after)
qed (simp_all add: committed_after not_playing_after not_playing_def unregistered_def active_state_none_iff)

interpretation commitment_admin: admin_laws "\<lambda>_. True" "committed (Some p) st0" "\<lambda>_. True" p "not_playing p st0"
proof unfold_locales
  fix w q reason
  assume "committed (Some p) st0 w"
  then show "committed (Some p) st0 (did (remove_session q reason) w)"
    by (intro committed_did) (auto simp: considerate_def intro: change_ended others_ok_ops(2) ss_inv_remove_session)
qed simp_all

interpretation commitment_talk: talk_laws "\<lambda>_. True" "committed k st0" "\<lambda>_. True"
  by unfold_locales (simp_all add: committed_after)

lemma command_committed: "keeps (\<lambda>_. True) (committed (Some (sender_key ctx)) st0) (bot_handle t0 ctx command rest)"
proof (cases "ctx_pubkey_prefix ctx")
  case None
  then have "\<not> truthy (ctx_pubkey_prefix ctx)" by (simp add: truthy_def)
  then show ?thesis by (rule commitment.k_anonymous)
next
  case (Some q)
  then have "sender_key ctx = q" by (simp add: sender_key_def)
  then show ?thesis
    using commitment.k_switch [OF Some commitment_admin.k_admin_end commitment.k_reset [OF Some]] by simp
qed

lemma reconcile_committed: "keeps (\<lambda>_. True) (committed k st0) reconcile_sessions"
proof -
  have remove: "keeps (\<lambda>_. True) (committed k st0) (upd_reg (remove_session q reason))" for q reason
    by (intro keeps_upd committed_did) (auto simp: considerate_def intro: change_ended others_ok_ops(2) ss_inv_remove_session)
  have queue: "keeps (\<lambda>_. True) (committed k st0) (queue_fanout n job)" for n job
    by (intro keeps_queue) (simp add: committed_def)
  have one: "keeps (\<lambda>_. True) (committed k st0) (reconcile_one s ids r)" for s ids r
    unfolding reconcile_one_def by (intro keeps_intros remove queue)
  have each: "keeps (\<lambda>_. True) (committed k st0) (each_io (reconcile_one s ids) rs)" for s ids rs
    by (induction rs) (simp_all add: keeps_intros one)
  have list: "keeps (\<lambda>_. True) (committed k st0) list_sessions"
    unfolding list_sessions_def Let_def by (intro keeps_intros k_request k_json commitment_talk.tolerated; simp)
  show ?thesis unfolding reconcile_sessions_def by (intro keeps_intros list each)
qed

lemma activity_committed: "promised (activity_key a) (moves (snd (run_activity a env (fresh_world st)))) \<or> \<not> ss_inv st"
proof -
  have "keeps (\<lambda>_. True) (committed (activity_key a) st) (run_activity a)"
    by (cases a) (simp_all add: command_committed reconcile_committed commitment_talk.k_jobs commitment_talk.k_simple)
  from keepsD [OF this, where env = env and w = "fresh_world st"] show ?thesis by (auto simp: committed_def fresh_world_def undisturbed_def)
qed

section \<open>Joint runs\<close>

type_synonym 'i change = "'i \<times> session_state \<times> session_state"

fun chain :: "session_state \<Rightarrow> 'i change list \<Rightarrow> session_state \<Rightarrow> bool" where
  "chain st [] st' \<longleftrightarrow> st = st'"
| "chain st ((i, a, b) # cs) st' \<longleftrightarrow> a = st \<and> chain b cs st'"

text \<open>
  \<open>sees i st ms cs cur\<close>: activity \<open>i\<close>, which began in \<open>st\<close>, has made or found the changes \<open>ms\<close>, and what
  happened meanwhile is \<open>cs\<close>.
\<close>

inductive sees :: "'i \<Rightarrow> session_state \<Rightarrow> (bool \<times> session_state \<times> session_state) list \<Rightarrow> 'i change list \<Rightarrow> session_state \<Rightarrow> bool"
  for i :: 'i and st :: session_state where
  sees_nothing: "sees i st [] [] st"
| sees_own: "sees i st ms cs a \<Longrightarrow> sees i st (ms @ [(True, a, b)]) (cs @ [(i, a, b)]) b"
| sees_found: "sees i st ms cs a \<Longrightarrow> chain a mid b \<Longrightarrow> i \<notin> fst ` set mid \<Longrightarrow> sees i st (ms @ [(False, a, b)]) (cs @ mid) b"

text \<open>
  An activity takes part in a run from some moment on, up to some await (or its end), and no other activity
  for the same sender makes a change meanwhile (a player's commands are served one at a time).
\<close>

definition takes_part :: "('i \<Rightarrow> activity) \<Rightarrow> session_state \<Rightarrow> 'i change list \<Rightarrow> 'i \<Rightarrow> bool" where
  "takes_part acts st0 run i \<longleftrightarrow>
     (\<exists>before during later st cur env m. run = before @ during @ later \<and> chain st0 before st \<and>
        i \<notin> fst ` set before \<and> i \<notin> fst ` set later \<and>
        sees i st (take m (moves (snd (run_activity (acts i) env (fresh_world st))))) during cur \<and>
        (\<forall>j \<in> fst ` set during. j \<noteq> i \<longrightarrow> activity_key (acts j) = None \<or> activity_key (acts j) \<noteq> activity_key (acts i)))"

definition joint :: "('i \<Rightarrow> activity) \<Rightarrow> session_state \<Rightarrow> 'i change list \<Rightarrow> session_state \<Rightarrow> bool" where
  "joint acts st0 run st \<longleftrightarrow> chain st0 run st \<and> (\<forall>i \<in> fst ` set run. takes_part acts st0 run i)"

lemma chain_append: "chain st (xs @ ys) st' \<longleftrightarrow> (\<exists>mid. chain st xs mid \<and> chain mid ys st')"
  by (induction xs arbitrary: st) auto

lemma chain_unique: "chain st xs a \<Longrightarrow> chain st xs b \<Longrightarrow> a = b"
  by (induction xs arbitrary: st) auto

lemma chain_consistent:
  assumes "chain st cs st'" and "ss_inv st" and "\<And>j a b. (j, a, b) \<in> set cs \<Longrightarrow> ss_inv b"
  shows "ss_inv st'"
  using assms
proof (induction cs arbitrary: st)
  case (Cons c cs)
  obtain j a b where c: "c = (j, a, b)" by (cases c) auto
  then have "chain b cs st'" "ss_inv b" using Cons.prems(1) Cons.prems(3) [of j a b] by auto
  moreover have "ss_inv y" if "(k, x, y) \<in> set cs" for k x y using Cons.prems(3) [of k x y] that by simp
  ultimately show ?case by (rule Cons.IH)
qed simp

lemma sees_chain: "sees i st ms cs cur \<Longrightarrow> chain st cs cur"
  by (induction rule: sees.induct) (auto simp: chain_append)

text \<open>A change of \<open>i\<close>'s own in the run is one in its moves, and what it has seen before is what happened before.\<close>

lemma sees_split:
  assumes "sees i st ms cs cur" and "cs = cs1 @ (i, a, b) # cs2"
  shows "\<exists>ms1 ms2 here. ms = ms1 @ (True, a, b) # ms2 \<and> sees i st ms1 cs1 here"
  using assms
proof (induction arbitrary: cs2 rule: sees.induct)
  case (sees_own ms cs x y)
  show ?case
  proof (cases cs2 rule: rev_cases)
    case Nil
    then show ?thesis using sees_own by auto
  next
    case (snoc cs2' c)
    then have "cs = cs1 @ (i, a, b) # cs2'" using sees_own.prems by simp
    from sees_own.IH [OF this] show ?thesis by force
  qed
next
  case (sees_found ms cs x mid y)
  have "\<exists>cs2'. cs = cs1 @ (i, a, b) # cs2'"
  proof -
    from sees_found.prems obtain us where "cs = cs1 @ us \<and> us @ mid = (i, a, b) # cs2 \<or> cs @ us = cs1 \<and> mid = us @ (i, a, b) # cs2"
      by (auto simp: append_eq_append_conv2)
    then show ?thesis using sees_found.hyps(3) by (cases us) force+
  qed
  then obtain cs2' where "cs = cs1 @ (i, a, b) # cs2'" by blast
  from sees_found.IH [OF this] show ?case by force
qed simp

text \<open>If all that happened was considerate, and nobody else acted for the same sender, it was bearable.\<close>

lemma chain_bearable:
  assumes "chain st cs st'" and "ss_inv st"
    and "\<And>j a b. (j, a, b) \<in> set cs \<Longrightarrow> considerate (key j) a b \<and> (key j = None \<or> key j \<noteq> k)"
  shows "bearable k st st'"
  using assms
proof (induction cs arbitrary: st)
  case Nil
  then show ?case by (simp add: bearable_def others_ok_refl)
next
  case (Cons c cs)
  obtain j a b where c: "c = (j, a, b)" by (cases c) auto
  have step: "considerate (key j) st b" "key j = None \<or> key j \<noteq> k" using Cons.prems(1) Cons.prems(3) [of j a b] c by auto
  have "chain b cs st'" "ss_inv b" using Cons.prems(1) c step(1) by (auto simp: considerate_def)
  moreover have "considerate (key i) x y \<and> (key i = None \<or> key i \<noteq> k)" if "(i, x, y) \<in> set cs" for i x y
    using Cons.prems(3) [of i x y] that by simp
  ultimately have rest: "bearable k b st'" by (rule Cons.IH)
  have "others_ok q st st'" if "k = Some q" for q
    using rest step that by (intro others_ok_trans [of q st b st']) (auto simp: bearable_def considerate_def)
  with rest show ?case by (simp add: bearable_def)
qed

lemma sees_undisturbed:
  assumes "sees i st ms cs cur" and "ss_inv st"
    and "\<And>j a b. (j, a, b) \<in> set cs \<Longrightarrow> considerate (key j) a b \<and> (j = i \<or> key j = None \<or> key j \<noteq> key i)"
  shows "undisturbed (key i) ms \<and> ss_inv cur"
  using assms
proof (induction rule: sees.induct)
  case (sees_own ms cs a b)
  then show ?case by (auto simp: undisturbed_def considerate_def)
next
  case (sees_found ms cs a mid b)
  have "considerate (key j) x y \<and> (key j = None \<or> key j \<noteq> key i)" if "(j, x, y) \<in> set mid" for j x y
  proof -
    have "j \<noteq> i" using that sees_found.hyps(3) by force
    then show ?thesis using sees_found.prems(2) [of j x y] that by auto
  qed
  moreover have "undisturbed (key i) ms \<and> ss_inv a" using sees_found.IH sees_found.prems by auto
  ultimately have "bearable (key i) a b" using chain_bearable [OF sees_found.hyps(2), of key "key i"] by blast
  then show ?case using \<open>undisturbed (key i) ms \<and> ss_inv a\<close> by (auto simp: undisturbed_def bearable_def)
qed (simp add: undisturbed_def)

section \<open>The closure\<close>

lemma promised_own: "promised k (ms1 @ (True, a, b) # ms2) \<Longrightarrow> undisturbed k ms1 \<Longrightarrow> considerate k a b"
  by (simp add: promised_append)

lemma promised_take: "promised k ms \<Longrightarrow> promised k (take m ms)"
  using promised_append [of k "take m ms" "drop m ms"] by simp

lemma middle_part:
  assumes "before @ during @ later = pre @ x # post" and "x \<notin> set before" and "x \<notin> set later"
  shows "\<exists>cs1 cs2. during = cs1 @ x # cs2 \<and> pre = before @ cs1"
proof -
  from assms(1) obtain us where "before = pre @ us \<and> us @ during @ later = x # post \<or> before @ us = pre \<and> during @ later = us @ x # post"
    by (auto simp: append_eq_append_conv2)
  then have us: "during @ later = us @ x # post" "pre = before @ us"
    using assms(2) by (cases us; force)+
  from us(1) obtain vs where "during = us @ vs \<and> vs @ later = x # post \<or> during @ vs = us \<and> later = vs @ x # post"
    by (auto simp: append_eq_append_conv2)
  then have "\<exists>cs2. during = us @ x # cs2" using assms(3) by (cases vs) auto
  with us(2) show ?thesis by blast
qed

text \<open>Each change in turn: what led to it was considerate, so the one who made it kept the promise.\<close>

lemma next_change_considerate:
  assumes "takes_part acts st0 (pre @ (i, a, b) # post) i" and "ss_inv st0"
    and pre: "\<And>j x y. (j, x, y) \<in> set pre \<Longrightarrow> considerate (activity_key (acts j)) x y"
  shows "considerate (activity_key (acts i)) a b"
proof -
  let ?key = "\<lambda>j. activity_key (acts j)"
  from assms(1) obtain before during later st cur env m where
    run: "before @ during @ later = pre @ (i, a, b) # post" and start: "chain st0 before st"
    and outside: "i \<notin> fst ` set before" "i \<notin> fst ` set later"
    and seen: "sees i st (take m (moves (snd (run_activity (acts i) env (fresh_world st))))) during cur"
    and alone: "\<And>j. j \<in> fst ` set during \<Longrightarrow> j \<noteq> i \<Longrightarrow> ?key j = None \<or> ?key j \<noteq> ?key i"
    unfolding takes_part_def by metis
  have "(i, a, b) \<notin> set before" "(i, a, b) \<notin> set later" using outside by force+
  from middle_part [OF run this] obtain cs1 cs2 where during: "during = cs1 @ (i, a, b) # cs2" "pre = before @ cs1"
    by blast
  have inv: "ss_inv st"
    using chain_consistent [OF start assms(2)] pre during(2) by (force simp: considerate_def)
  from sees_split [OF seen during(1)] obtain ms1 ms2 here where
    ms: "take m (moves (snd (run_activity (acts i) env (fresh_world st)))) = ms1 @ (True, a, b) # ms2"
    and here: "sees i st ms1 cs1 here" by blast
  have "considerate (?key j) x y \<and> (j = i \<or> ?key j = None \<or> ?key j \<noteq> ?key i)" if "(j, x, y) \<in> set cs1" for j x y
    using pre [of j x y] alone [of j] that during by force
  then have "undisturbed (?key i) ms1" using sees_undisturbed [OF here inv, of ?key] by blast
  moreover have "promised (?key i) (ms1 @ (True, a, b) # ms2)"
    using activity_committed [of "acts i" env st] inv promised_take ms by metis
  ultimately show ?thesis by (intro promised_own)
qed

lemma all_considerate:
  assumes "ss_inv st0" and "\<And>i. i \<in> fst ` set run \<Longrightarrow> takes_part acts st0 run i" and "run = pre @ post"
  shows "\<forall>(j, x, y) \<in> set pre. considerate (activity_key (acts j)) x y"
  using assms(3)
proof (induction pre arbitrary: post rule: rev_induct)
  case (snoc c pre)
  obtain i a b where c: "c = (i, a, b)" by (cases c) auto
  have run: "run = pre @ (i, a, b) # post" using snoc.prems c by simp
  have pre: "considerate (activity_key (acts j)) x y" if "(j, x, y) \<in> set pre" for j x y
    using snoc.IH [OF run] that by blast
  have "takes_part acts st0 (pre @ (i, a, b) # post) i" using assms(2) [of i] run by simp
  from next_change_considerate [OF this assms(1) pre] have "considerate (activity_key (acts i)) a b" by simp
  then show ?case using snoc.IH [OF run] c by auto
qed simp

lemma chain_changes:
  assumes "chain st cs st'" and "\<And>j a b. (j, a, b) \<in> set cs \<Longrightarrow> registry_change a b"
  shows "registry_change\<^sup>*\<^sup>* st st'"
  using assms
proof (induction cs arbitrary: st)
  case (Cons c cs)
  obtain j a b where c: "c = (j, a, b)" by (cases c) auto
  then have "registry_change st b" "chain b cs st'" using Cons.prems(1) Cons.prems(2) [of j a b] by auto
  moreover have "registry_change y z" if "(k, y, z) \<in> set cs" for k y z using Cons.prems(2) [of k y z] that by simp
  ultimately show ?case using Cons.IH [of b] converse_rtranclp_into_rtranclp [of registry_change] by blast
qed simp

lemma joint_considerate:
  "ss_inv st0 \<Longrightarrow> joint acts st0 run st \<Longrightarrow> (i, a, b) \<in> set run \<Longrightarrow> considerate (activity_key (acts i)) a b"
  using all_considerate [of st0 run acts run "[]"] unfolding joint_def by blast

text \<open>The state a joint run leads to is one the registry's operations lead to.\<close>

lemma joint_reached:
  assumes "joint acts (new_session_state m) run st"
  shows "reached m st"
proof -
  have "registry_change a b" if "(i, a, b) \<in> set run" for i a b
    using joint_considerate [OF ss_inv_new assms that] by (simp add: considerate_def)
  then show ?thesis using assms chain_changes unfolding reached_def joint_def by blast
qed

text \<open>
  Any number of commands, reconciliations and watcher jobs may run interleaved, in whatever environment
  each of them has, cut short or not: as long as two commands of one sender are not served at the same time,
  every change is one operation of the registry under the condition it needs, the tables are consistent
  after it, and no change made on behalf of one player gives another player a session or a watch.
\<close>

theorem commands_interleave_safely:
  assumes "ss_inv st0" and "joint acts st0 run st"
  shows "ss_inv st \<and> (\<forall>(i, a, b) \<in> set run. ss_inv b \<and> registry_change a b \<and>
    (\<forall>q. activity_key (acts i) \<noteq> Some q \<longrightarrow>
      (map_of (sessions a) q = None \<longrightarrow> map_of (sessions b) q = None) \<and>
      (map_of (watching a) q = None \<longrightarrow> map_of (watching b) q = None)))"
proof -
  note all = joint_considerate [OF assms]
  then have "ss_inv st" using chain_consistent [of st0 run st] assms unfolding joint_def considerate_def by blast
  with all show ?thesis by (auto simp: considerate_def others_ok_def)
qed

theorem commands_interleave_safely_witness:
  "let p = ''ab12''; q = ''cd34''; st0 = new_session_state 2;
     acts = (\<lambda>i. Command_run 0 (dm_ctx (if i = (0::nat) then p else q) ''!list'') ''list'' []);
     st1 = emit (command_event (dm_ctx p ''!list'') ''list'' True None) st0;
     st2 = emit (command_event (dm_ctx q ''!list'') ''list'' True None) st1
   in joint acts st0 [(0, st0, st1), (1, st1, st2)] st2 \<and> ss_inv st2"
proof -
  define ev where "ev p = command_event (dm_ctx p ''!list'') ''list'' True None" for p
  define st0 st1 st2 where "st0 = new_session_state 2" and "st1 = emit (ev ''ab12'') st0" and "st2 = emit (ev ''cd34'') st1"
  define acts where "acts = (\<lambda>i. Command_run 0 (dm_ctx (if i = (0::nat) then ''ab12'' else ''cd34'') ''!list'') ''list'' [])"
  let ?run = "[(0, st0, st1), (1, st1, st2)]"
  define env where "env = (calm_env (ok_response []))\<lparr>interfere := \<lambda>_ st. emit (ev ''cd34'') st\<rparr>"
  have list: "take 2 (moves (snd (run_activity (Command_run 0 (dm_ctx p ''!list'') ''list'' []) env (fresh_world st)))) =
      [(True, st, emit (ev p) st), (False, emit (ev p) st, emit (ev ''cd34'') (emit (ev p) st))]" if "sessions st = []" for p st
    using that by (simp add: bot_handle_def bind_io_def upd_reg_def did_def fresh_world_def handle_list_def read_reg_def
        all_sessions_def reply_def send_reply_def await_eff_def after_def ret_def env_def calm_env_def ev_def emit_def)
  have keys: "activity_key (acts 0) = Some ''ab12''" "activity_key (acts 1) = Some ''cd34''"
    by (simp_all add: acts_def sender_key_def dm_ctx_def)
  have none: "sessions st0 = []" "sessions st1 = []" by (simp_all add: st0_def st1_def new_session_state_def emit_def)
  have "sees (0::nat) st0 ([] @ [(True, st0, st1)] @ [(False, st1, st2)]) ([] @ [(0, st0, st1)] @ [(1, st1, st2)]) st2"
    unfolding append_assoc [symmetric] by (intro sees_found sees_own sees_nothing) simp_all
  then have "takes_part acts st0 ?run 0"
    unfolding takes_part_def using list [OF none(1)] keys
    by (intro exI [of _ "[]"] exI [of _ ?run] exI [of _ st0] exI [of _ st2] exI [of _ env] exI [of _ "2::nat"])
      (simp add: acts_def st1_def st2_def)
  moreover have "sees (1::nat) st1 ([] @ [(True, st1, st2)]) ([] @ [(1, st1, st2)]) st2"
    by (intro sees_own sees_nothing)
  then have "takes_part acts st0 ?run 1"
    unfolding takes_part_def using arg_cong [OF list [OF none(2)], of "take 1"]
    by (intro exI [of _ "[(0, st0, st1)]"] exI [of _ "[(1, st1, st2)]"] exI [of _ "[]"] exI [of _ st1] exI [of _ st2]
        exI [of _ env] exI [of _ "1::nat"]) (simp add: acts_def st2_def)
  ultimately have "joint acts st0 ?run st2" by (simp add: joint_def)
  with commands_interleave_safely [OF _ this] show ?thesis
    by (simp add: Let_def acts_def st2_def st1_def st0_def ev_def)
qed

end
