(* ===== verification/Bot_Queues.thy ===== *)
theory Bot_Queues
  imports Bot_Handle Rate_Limits
begin

text \<open>
  Dispatch and the per-player command queues of \<^verbatim>\<open>src/zorkbot/src/zorkbot/bot.py\<close>:
  \<open>dispatch_channel\<close>, \<open>dispatch_bots_channel\<close>, \<open>dispatch_dm\<close>, \<open>_drop\<close>, \<open>_enqueue\<close> and
  \<open>_run_worker\<close>.

  A player's worker task is \<open>Created\<close> before its first step, then \<open>Handling\<close> a command, and
  \<open>Finished\<close> when it found its queue empty. One step of a worker is what it does between two
  points where other tasks may run: it finishes the command at hand, if any, and either takes the
  next one from the queue or ends (there is no await between the test of the queue and the end of
  the task). What a handler does meanwhile is the subject of the theories on the handlers; here
  only the order of commands matters. \<open>accepted\<close> and \<open>served\<close> are logs for the specification.
\<close>

section \<open>State\<close>

record work_item =
  wi_ctx :: bot_context
  wi_command :: string
  wi_args :: string

datatype worker = Created | Handling work_item | Finished

record bot_state =
  bs_config :: bot_config
  bs_cooldown :: cooldown
  bs_queues :: "(string \<times> work_item list) list"
  bs_workers :: "(string \<times> worker) list"
  bs_sink :: "sink_event list"
  bs_roll_calls :: "bot_context list"
  accepted :: "(string \<times> work_item) list"
  served :: "(string \<times> work_item) list"

definition new_bot :: "bot_config \<Rightarrow> bot_state" where
  "new_bot cfg =
     \<lparr>bs_config = cfg, bs_cooldown = new_cooldown (bots_cooldown_seconds cfg), bs_queues = [], bs_workers = [],
      bs_sink = [], bs_roll_calls = [], accepted = [], served = []\<rparr>"

definition INTERRUPT_COMMANDS :: "string list" where
  "INTERRUPT_COMMANDS = [''end'']"

definition LOBBY_COMMANDS :: "string list" where
  "LOBBY_COMMANDS =
     [''help'', ''commands'', ''start'', ''end'', ''list'', ''watch'', ''watchers'', ''author'', ''uptime'']"

definition sink_push :: "sink_event \<Rightarrow> bot_state \<Rightarrow> bot_state" where
  "sink_push ev b = b\<lparr>bs_sink := bs_sink b @ [ev]\<rparr>"

definition drop_command :: "bot_context \<Rightarrow> string \<Rightarrow> string \<Rightarrow> bot_state \<Rightarrow> bot_state" where
  "drop_command ctx command reason b = sink_push (command_event ctx command False (Some reason)) b"

definition live :: "string \<Rightarrow> bot_state \<Rightarrow> bool" where
  "live p b \<longleftrightarrow> (case map_of (bs_workers b) p of None \<Rightarrow> False | Some wk \<Rightarrow> wk \<noteq> Finished)"

definition queue_of :: "string \<Rightarrow> bot_state \<Rightarrow> work_item list" where
  "queue_of p b = (case map_of (bs_queues b) p of None \<Rightarrow> [] | Some q \<Rightarrow> q)"

definition queue_key :: "bot_context \<Rightarrow> string" where
  "queue_key ctx = or_else (ctx_pubkey_prefix ctx) ''anon''"

section \<open>Queueing a command\<close>

definition enqueue :: "bot_context \<Rightarrow> string \<Rightarrow> string \<Rightarrow> bot_state \<Rightarrow> bool \<times> bot_state" where
  "enqueue ctx command rest_args b =
     (let p = queue_key ctx; item = \<lparr>wi_ctx = ctx, wi_command = command, wi_args = rest_args\<rparr>
      in if live p b \<and> command \<notin> set INTERRUPT_COMMANDS then (False, drop_command ctx command ''response_pending'' b)
         else
           let b1 = (if map_of (bs_queues b) p = None then b\<lparr>bs_queues := AList.update p [] (bs_queues b)\<rparr> else b)
           in if 1 \<le> length (queue_of p b1) then (False, drop_command ctx command ''queue_full'' b1)
              else
                let b2 = b1\<lparr>bs_queues := AList.update p (queue_of p b1 @ [item]) (bs_queues b1),
                            accepted := accepted b1 @ [(p, item)]\<rparr>
                in (True, if live p b2 then b2 else b2\<lparr>bs_workers := AList.update p Created (bs_workers b2)\<rparr>))"

text \<open>One step of the worker of \<open>p\<close>.\<close>

definition worker_next :: "string \<Rightarrow> bot_state \<Rightarrow> bot_state" where
  "worker_next p b =
     (case queue_of p b of
        [] \<Rightarrow> b\<lparr>bs_workers := AList.update p Finished (bs_workers b)\<rparr>
      | item # q \<Rightarrow> b\<lparr>bs_queues := AList.update p q (bs_queues b),
                      bs_workers := AList.update p (Handling item) (bs_workers b)\<rparr>)"

definition worker_step :: "string \<Rightarrow> bot_state \<Rightarrow> bot_state" where
  "worker_step p b =
     (case map_of (bs_workers b) p of
        None \<Rightarrow> b
      | Some Finished \<Rightarrow> b
      | Some Created \<Rightarrow> worker_next p b
      | Some (Handling item) \<Rightarrow> worker_next p (b\<lparr>served := served b @ [(p, item)]\<rparr>))"

section \<open>Dispatch\<close>

text \<open>
  The dispatchers return whether the bot answered and the replies they send themselves. A message
  on the channel is first stripped of the bot's name.
\<close>

definition make_ctx :: "bot_config \<Rightarrow> incoming_message \<Rightarrow> string \<Rightarrow> bot_context" where
  "make_ctx cfg m args = \<lparr>ctx_message = m, ctx_args = args, ctx_config = cfg\<rparr>"

definition channel_event :: "incoming_message \<Rightarrow> string \<Rightarrow> string \<Rightarrow> bool \<Rightarrow> string option \<Rightarrow> sink_event" where
  "channel_event m transport command ok reason =
     Command_event (im_pubkey_prefix m) command transport (Some (im_channel_idx m)) ok reason"

definition dispatch_channel :: "incoming_message \<Rightarrow> bot_state \<Rightarrow> (bool \<times> string list) \<times> bot_state" where
  "dispatch_channel m b =
     (if \<not> channel_matches (im_channel_idx m) (channel (bs_config b)) then ((False, []), b)
      else case parse_command (fst (strip_address (strip (im_text m)) (bot_name (bs_config b)))) of
             None \<Rightarrow> ((False, []), b)
           | Some args \<Rightarrow>
               (case command_of args of (command, rest_args) \<Rightarrow>
                  if command \<notin> set LOBBY_COMMANDS then
                    ((True, [''Send !start and then DM me to play.'']),
                     sink_push (channel_event m ''channel'' command False (Some ''not_in_lobby'')) b)
                  else (case enqueue (make_ctx (bs_config b) m args) command rest_args b of (ok, b') \<Rightarrow> ((ok, []), b'))))"

definition dispatch_bots_channel :: "real \<Rightarrow> incoming_message \<Rightarrow> bot_state \<Rightarrow> bool \<times> bot_state" where
  "dispatch_bots_channel now m b =
     (case (if bots_enabled (bs_config b) then bots_channel (bs_config b) else None) of
        None \<Rightarrow> (False, b)
      | Some ch \<Rightarrow>
          if \<not> channel_matches (im_channel_idx m) ch then (False, b)
          else case parse_command (fst (strip_address (strip (im_text m)) (bot_name (bs_config b)))) of
                 None \<Rightarrow> (False, b)
               | Some args \<Rightarrow>
                   let command = fst (command_of args)
                   in if command \<noteq> ''bots'' then (False, b)
                      else case claim now (bs_cooldown b) of (go, cd) \<Rightarrow>
                        let b1 = b\<lparr>bs_cooldown := cd\<rparr>
                        in if \<not> go then
                             (False, sink_push (channel_event m ''bots_channel'' command False (Some ''bots_cooldown'')) b1)
                           else
                             (True, (sink_push (channel_event m ''bots_channel'' command True None) b1)
                                \<lparr>bs_roll_calls := bs_roll_calls b1 @ [make_ctx (bs_config b) m args]\<rparr>))"

definition dispatch_dm :: "incoming_message \<Rightarrow> bot_state \<Rightarrow> bot_state" where
  "dispatch_dm m b =
     (let t = strip (im_text m)
      in if t = [] then b
         else
           let rest = fst (strip_address t (bot_name (bs_config b)));
               (command, rest_args) =
                 (case parse_command rest of Some args \<Rightarrow> command_of args | None \<Rightarrow> (''_game'', strip rest))
           in snd (enqueue (make_ctx (bs_config b) m rest) command rest_args b))"

text \<open>
  The bot's part of \<open>stop\<close>: every worker is cancelled and forgotten (the queues themselves stay).
  The sessions it closes are the subject of \<open>stop_sessions\<close>.
\<close>

definition bot_stop :: "bot_state \<Rightarrow> bot_state" where
  "bot_stop b = b\<lparr>bs_workers := [], bs_roll_calls := []\<rparr>"

section \<open>Runs\<close>

datatype bot_event = Channel_msg incoming_message | Bots_msg real incoming_message | Dm_msg incoming_message | Worker_runs string

fun bot_step :: "bot_event \<Rightarrow> bot_state \<Rightarrow> bot_state" where
  "bot_step (Channel_msg m) b = snd (dispatch_channel m b)"
| "bot_step (Bots_msg now m) b = snd (dispatch_bots_channel now m b)"
| "bot_step (Dm_msg m) b = dispatch_dm m b"
| "bot_step (Worker_runs p) b = worker_step p b"

section \<open>One player's lane\<close>

text \<open>Everything the queues hold for one player: accepted, served, the worker and the queue.\<close>

definition lane :: "string \<Rightarrow> bot_state \<Rightarrow> work_item list \<times> work_item list \<times> worker option \<times> work_item list" where
  "lane p b = (map snd (filter (\<lambda>x. fst x = p) (accepted b)), map snd (filter (\<lambda>x. fst x = p) (served b)),
     map_of (bs_workers b) p, queue_of p b)"

fun in_service :: "worker option \<Rightarrow> work_item list" where
  "in_service (Some (Handling item)) = [item]"
| "in_service _ = []"

text \<open>
  The commands accepted are those served, then the one in service, then those queued, in order;
  without a live worker nothing waits; a worker about to start has exactly one command; behind a
  command in service waits at most one, and only an interrupt.
\<close>

fun lane_ok :: "work_item list \<times> work_item list \<times> worker option \<times> work_item list \<Rightarrow> bool" where
  "lane_ok (acc, srv, wk, q) \<longleftrightarrow>
     acc = srv @ in_service wk @ q \<and>
     (case wk of
        None \<Rightarrow> q = []
      | Some Finished \<Rightarrow> q = []
      | Some Created \<Rightarrow> length q = 1
      | Some (Handling _) \<Rightarrow> length q \<le> 1 \<and> list_all (\<lambda>it. wi_command it \<in> set INTERRUPT_COMMANDS) q)"

lemma lane_cong: "accepted b' = accepted b \<Longrightarrow> served b' = served b \<Longrightarrow> bs_workers b' = bs_workers b \<Longrightarrow>
    bs_queues b' = bs_queues b \<Longrightarrow> lane p b' = lane p b"
  by (simp add: lane_def queue_of_def)

lemma lane_sink [simp]: "lane p (sink_push ev b) = lane p b" "lane p (drop_command ctx c r b) = lane p b"
  by (simp_all add: lane_def sink_push_def drop_command_def queue_of_def)

lemma enqueue_lane:
  fixes command rest_args :: string and ctx :: bot_context and b :: bot_state
  assumes "lane (queue_key ctx) b = (acc, srv, wk, q)"
  defines "item \<equiv> \<lparr>wi_ctx = ctx, wi_command = command, wi_args = rest_args\<rparr>"
    and "alive \<equiv> (wk \<noteq> None \<and> wk \<noteq> Some Finished)"
    and "b' \<equiv> snd (enqueue ctx command rest_args b)"
  shows "lane (queue_key ctx) b' =
      (if alive \<and> command \<notin> set INTERRUPT_COMMANDS \<or> q \<noteq> [] then (acc, srv, wk, q)
       else (acc @ [item], srv, if alive then wk else Some Created, [item]))"
    and "p \<noteq> queue_key ctx \<Longrightarrow> lane p b' = lane p b"
    and "fst (enqueue ctx command rest_args b) \<longleftrightarrow> \<not> (alive \<and> command \<notin> set INTERRUPT_COMMANDS \<or> q \<noteq> [])"
proof -
  let ?p = "queue_key ctx"
  have l: "wk = map_of (bs_workers b) ?p" "q = queue_of ?p b"
    "acc = map snd (filter (\<lambda>x. fst x = ?p) (accepted b))" "srv = map snd (filter (\<lambda>x. fst x = ?p) (served b))"
    using assms(1) by (simp_all add: lane_def)
  have alive: "live ?p b \<longleftrightarrow> alive" by (auto simp: live_def alive_def l split: option.split)
  define b1 where "b1 = (if map_of (bs_queues b) ?p = None then b\<lparr>bs_queues := AList.update ?p [] (bs_queues b)\<rparr> else b)"
  have b1: "queue_of x b1 = queue_of x b" "bs_workers b1 = bs_workers b" "accepted b1 = accepted b" "served b1 = served b" for x
    by (auto simp: b1_def queue_of_def dict_simps)
  have len: "1 \<le> length (queue_of ?p b1) \<longleftrightarrow> q \<noteq> []" by (cases q) (simp_all add: b1 l)
  have eq: "enqueue ctx command rest_args b =
      (if live ?p b \<and> command \<notin> set INTERRUPT_COMMANDS then (False, drop_command ctx command ''response_pending'' b)
       else if q \<noteq> [] then (False, drop_command ctx command ''queue_full'' b1)
       else let b2 = b1\<lparr>bs_queues := AList.update ?p [item] (bs_queues b1), accepted := accepted b1 @ [(?p, item)]\<rparr>
            in (True, if live ?p b then b2 else b2\<lparr>bs_workers := AList.update ?p Created (bs_workers b2)\<rparr>))"
    unfolding enqueue_def Let_def b1_def [symmetric] len item_def [symmetric]
    by (simp add: b1 l live_def)
  have same: "lane x b1 = lane x b" for x by (simp add: lane_def b1)
  show "lane ?p b' =
      (if alive \<and> command \<notin> set INTERRUPT_COMMANDS \<or> q \<noteq> [] then (acc, srv, wk, q)
       else (acc @ [item], srv, if alive then wk else Some Created, [item]))"
    using assms(1) same b1 by (simp add: b'_def eq alive Let_def) (simp add: lane_def queue_of_def dict_simps)
  show "p \<noteq> ?p \<Longrightarrow> lane p b' = lane p b"
    using same b1 by (simp add: b'_def eq alive Let_def) (simp add: lane_def queue_of_def b1_def dict_simps)
  show "fst (enqueue ctx command rest_args b) \<longleftrightarrow> \<not> (alive \<and> command \<notin> set INTERRUPT_COMMANDS \<or> q \<noteq> [])"
    by (simp add: eq alive Let_def)
qed

lemma enqueue_lane_ok:
  assumes "\<And>p. lane_ok (lane p b)"
  shows "lane_ok (lane p (snd (enqueue ctx command rest_args b)))"
proof (cases "p = queue_key ctx")
  case True
  obtain acc srv wk q where l: "lane p b = (acc, srv, wk, q)" by (metis prod_cases4)
  then have "lane_ok (acc, srv, wk, q)" using assms by metis
  with enqueue_lane(1) [OF l [unfolded True]] show ?thesis
    by (auto simp: True split: option.splits worker.splits)
next
  case False
  obtain acc srv wk q where "lane (queue_key ctx) b = (acc, srv, wk, q)" by (metis prod_cases4)
  from enqueue_lane(2) [OF this False] show ?thesis using assms by simp
qed

lemma worker_lane:
  assumes "lane p b = (acc, srv, wk, q)"
  shows "lane p (worker_step p b) =
      (case wk of
         None \<Rightarrow> (acc, srv, wk, q)
       | Some Finished \<Rightarrow> (acc, srv, wk, q)
       | Some _ \<Rightarrow> (acc, srv @ in_service wk, case q of [] \<Rightarrow> Some Finished | item # _ \<Rightarrow> Some (Handling item), tl q))"
    and "r \<noteq> p \<Longrightarrow> lane r (worker_step p b) = lane r b"
proof -
  have l: "wk = map_of (bs_workers b) p" "q = queue_of p b"
    "acc = map snd (filter (\<lambda>x. fst x = p) (accepted b))" "srv = map snd (filter (\<lambda>x. fst x = p) (served b))"
    using assms by (simp_all add: lane_def)
  have queue_served: "queue_of x (b\<lparr>served := y\<rparr>) = queue_of x b" for x y by (simp add: queue_of_def)
  show "lane p (worker_step p b) =
      (case wk of
         None \<Rightarrow> (acc, srv, wk, q)
       | Some Finished \<Rightarrow> (acc, srv, wk, q)
       | Some _ \<Rightarrow> (acc, srv @ in_service wk, case q of [] \<Rightarrow> Some Finished | item # _ \<Rightarrow> Some (Handling item), tl q))"
    using assms l(1) l(2)
    by (cases q) (auto simp: worker_step_def worker_next_def lane_def queue_served dict_simps queue_of_def
        split: option.splits worker.splits)
  show "r \<noteq> p \<Longrightarrow> lane r (worker_step p b) = lane r b"
    by (auto simp: worker_step_def worker_next_def lane_def queue_of_def dict_simps
        split: option.splits worker.splits list.splits)
qed

lemma worker_lane_ok:
  assumes "\<And>p. lane_ok (lane p b)"
  shows "lane_ok (lane r (worker_step p b))"
proof (cases "r = p")
  case True
  obtain acc srv wk q where l: "lane p b = (acc, srv, wk, q)" by (metis prod_cases4)
  then have "lane_ok (acc, srv, wk, q)" using assms by metis
  with worker_lane(1) [OF l] show ?thesis
    by (auto simp: True split: option.splits worker.splits list.splits; cases q; simp)
next
  case False
  obtain acc srv wk q where "lane p b = (acc, srv, wk, q)" by (metis prod_cases4)
  from worker_lane(2) [OF this False] show ?thesis using assms by simp
qed

lemma dispatch_lane_ok:
  assumes "\<And>p. lane_ok (lane p b)"
  shows "lane_ok (lane p (snd (dispatch_channel m b)))" "lane_ok (lane p (snd (dispatch_bots_channel now m b)))"
    "lane_ok (lane p (dispatch_dm m b))"
proof -
  show "lane_ok (lane p (snd (dispatch_channel m b)))"
    using enqueue_lane_ok [OF assms] assms
    by (auto simp: dispatch_channel_def split_beta split: option.split)
  have "lane p (snd (dispatch_bots_channel now m b)) = lane p b"
    by (auto simp: dispatch_bots_channel_def Let_def split_beta sink_push_def intro!: lane_cong split: option.split)
  then show "lane_ok (lane p (snd (dispatch_bots_channel now m b)))" using assms by simp
  show "lane_ok (lane p (dispatch_dm m b))"
    using enqueue_lane_ok [OF assms] assms by (simp add: dispatch_dm_def Let_def split_beta)
qed

lemma lanes_ok_run: "lane_ok (lane p (fold bot_step evs (new_bot cfg)))"
proof -
  have "(\<And>p. lane_ok (lane p b)) \<Longrightarrow> lane_ok (lane p (fold bot_step evs b))" for b p
  proof (induction evs arbitrary: b)
    case (Cons ev evs)
    have "lane_ok (lane q (bot_step ev b))" for q
      by (cases ev) (simp_all add: dispatch_lane_ok worker_lane_ok Cons.prems)
    then show ?case by (simp add: Cons.IH)
  qed simp
  moreover have "lane_ok (lane q (new_bot cfg))" for q
    by (simp add: lane_def new_bot_def queue_of_def)
  ultimately show ?thesis by blast
qed

section \<open>Properties\<close>

text \<open>
  C2. After any interleaving of messages and worker steps, each player's commands are served one at
  a time and in the order they were accepted, none is lost and none is served twice: the accepted
  commands are exactly those served, the one in service and those queued. Nothing waits without a
  live worker, and behind a command in service waits at most one more, which can only be \<open>!end\<close>.
\<close>

theorem player_commands_serialised:
  fixes evs :: "bot_event list" and cfg :: bot_config and p :: string
  defines "b \<equiv> fold bot_step evs (new_bot cfg)"
  shows "map snd (filter (\<lambda>x. fst x = p) (accepted b)) =
      map snd (filter (\<lambda>x. fst x = p) (served b)) @ in_service (map_of (bs_workers b) p) @ queue_of p b \<and>
    (if live p b then length (queue_of p b) \<le> 1 else queue_of p b = []) \<and>
    (case map_of (bs_workers b) p of
       Some (Handling _) \<Rightarrow> list_all (\<lambda>it. wi_command it = ''end'') (queue_of p b)
     | _ \<Rightarrow> True)"
  using lanes_ok_run [of p evs cfg] unfolding b_def
  by (auto simp: lane_def live_def INTERRUPT_COMMANDS_def list_all_iff split: option.splits worker.splits)

text \<open>
  A player whose previous response is complete is never dropped: a command is accepted exactly
  when the player's worker is not running, or it is \<open>!end\<close> and nothing is queued. A refused
  command changes nothing but the event log, which gets exactly one entry with the reason.
\<close>

theorem enqueue_outcome:
  fixes evs :: "bot_event list" and cfg :: bot_config and ctx :: bot_context and command args :: string
  defines "b \<equiv> fold bot_step evs (new_bot cfg)"
    and "p \<equiv> queue_key ctx"
  shows "case enqueue ctx command args b of (ok, b') \<Rightarrow>
    ok = (if live p b then command = ''end'' \<and> queue_of p b = [] else True) \<and>
    (if ok
     then accepted b' = accepted b @ [(p, \<lparr>wi_ctx = ctx, wi_command = command, wi_args = args\<rparr>)] \<and> live p b' \<and> bs_sink b' = bs_sink b
     else bs_sink b' = bs_sink b @ [command_event ctx command False
         (Some (if command = ''end'' then ''queue_full'' else ''response_pending''))] \<and>
       accepted b' = accepted b \<and> served b' = served b \<and> bs_workers b' = bs_workers b \<and>
       (\<forall>q. queue_of q b' = queue_of q b))"
proof -
  have "lane_ok (lane p b)" unfolding b_def by (rule lanes_ok_run)
  then have "live p b \<or> queue_of p b = []"
    by (auto simp: lane_def live_def split: option.splits worker.splits)
  moreover have "1 \<le> length (queue_of p b1) \<longleftrightarrow> queue_of p b1 \<noteq> []" for b1
    by (cases "queue_of p b1") simp_all
  ultimately show ?thesis
    unfolding p_def enqueue_def Let_def
    by (auto simp: INTERRUPT_COMMANDS_def drop_command_def sink_push_def queue_of_def live_def dict_simps split: option.splits)
qed

fun marked :: "bot_event \<Rightarrow> bool" where
  "marked (Channel_msg m) = (\<not> im_is_dm m)"
| "marked (Bots_msg now m) = (\<not> im_is_dm m)"
| "marked (Dm_msg m) = im_is_dm m"
| "marked (Worker_runs p) = True"

lemma enqueue_accepted:
  "set (accepted (snd (enqueue ctx c a b))) \<subseteq>
     insert (queue_key ctx, \<lparr>wi_ctx = ctx, wi_command = c, wi_args = a\<rparr>) (set (accepted b))"
  by (auto simp: enqueue_def Let_def drop_command_def sink_push_def)

definition lobby_only :: "bot_state \<Rightarrow> bool" where
  "lobby_only b \<longleftrightarrow> (\<forall>(p, item) \<in> set (accepted b).
     ctx_is_dm (wi_ctx item) \<or> wi_command item \<in> set LOBBY_COMMANDS)"

lemma lobby_only_step:
  assumes "lobby_only b" and "marked ev"
  shows "lobby_only (bot_step ev b)"
proof (cases ev)
  case (Channel_msg m)
  have "lobby_only (snd (enqueue (make_ctx (bs_config b) m args) c a b))" if "c \<in> set LOBBY_COMMANDS" for args c a
    using enqueue_accepted [of "make_ctx (bs_config b) m args" c a b] assms(1) that
    by (fastforce simp: lobby_only_def)
  then show ?thesis
    using assms(1) Channel_msg
    by (auto simp: dispatch_channel_def split_beta sink_push_def lobby_only_def split: option.split)
next
  case (Bots_msg now m)
  have "accepted (snd (dispatch_bots_channel now m b)) = accepted b"
    by (auto simp: dispatch_bots_channel_def Let_def split_beta sink_push_def split: option.split)
  then show ?thesis using Bots_msg assms(1) by (simp add: lobby_only_def)
next
  case (Dm_msg m)
  have "lobby_only (snd (enqueue (make_ctx (bs_config b) m args) c a b))" for args c a
    using enqueue_accepted [of "make_ctx (bs_config b) m args" c a b] assms Dm_msg
    by (fastforce simp: lobby_only_def make_ctx_def)
  then show ?thesis using assms(1) Dm_msg by (simp add: dispatch_dm_def Let_def split_beta)
next
  case (Worker_runs p)
  have "accepted (worker_step p b) = accepted b"
    by (auto simp: worker_step_def worker_next_def split: option.split worker.split list.split)
  then show ?thesis using Worker_runs assms(1) by (simp add: lobby_only_def)
qed

text \<open>
  From the public channel only lobby commands reach a worker. In a run where channel messages are
  marked as such, every accepted command that did not come by direct message is one of the nine
  lobby commands; so \<open>!reset\<close>, \<open>!rules\<close>, \<open>!bots\<close> and game text never run from the channel.
\<close>

theorem channel_runs_only_lobby_commands:
  assumes "list_all marked evs"
    and "(p, item) \<in> set (accepted (fold bot_step evs (new_bot cfg)))" and "\<not> ctx_is_dm (wi_ctx item)"
  shows "wi_command item \<in> set LOBBY_COMMANDS"
proof -
  have "lobby_only b \<Longrightarrow> list_all marked evs \<Longrightarrow> lobby_only (fold bot_step evs b)" for b
    by (induction evs arbitrary: b) (simp_all add: lobby_only_step)
  moreover have "lobby_only (new_bot cfg)" by (simp add: lobby_only_def new_bot_def)
  ultimately show ?thesis using assms by (auto simp: lobby_only_def)
qed

theorem channel_runs_only_lobby_commands_witness:
  "''list'' \<in> set LOBBY_COMMANDS"
proof -
  let ?m = "\<lparr>im_text = ''!list'', im_sender_name = Some ''Ann'', im_pubkey_prefix = Some ''ab12'', im_is_dm = False,
      im_channel_idx = 1\<rparr>"
  let ?item = "\<lparr>wi_ctx = make_ctx default_config ?m ''list'', wi_command = ''list'', wi_args = []\<rparr>"
  have p: "parse_command (fst (strip_address (strip ''!list'') ''zorkbot'')) = Some ''list''" by code_simp
  have c: "command_of ''list'' = (''list'', [])" by code_simp
  have l: "''list'' \<in> set LOBBY_COMMANDS" by (simp add: LOBBY_COMMANDS_def)
  have "(''ab12'', ?item) \<in> set (accepted (fold bot_step [Channel_msg ?m] (new_bot default_config)))"
    by (simp add: dispatch_channel_def p c l new_bot_def channel_matches_def enqueue_def Let_def live_def queue_of_def
        queue_key_def make_ctx_def or_else_def default_config_def)
  from channel_runs_only_lobby_commands [OF _ this] show ?thesis by (simp add: make_ctx_def)
qed

end
