(* ===== verification/Fanout.thy ===== *)
theory Fanout
  imports Zork_Prelude
begin

text \<open>
  The ordered watcher fan-out of one session, \<open>_fanout\<close>, \<open>_run_fanout\<close> and
  \<open>_on_fanout_done\<close> in \<^verbatim>\<open>src/zorkbot/src/zorkbot/bot.py\<close>.

  The two dictionaries hold at most one queue and one task for a session; queues and tasks are
  objects, so they have identities here and a task works on the queue object it looked up when it
  started, whatever the dictionary holds later. A task that ends leaves its done-callback pending;
  the callback runs some time later, and a new job may arrive in between. Jobs are abstract: what
  one sends is the subject of the theory of the handlers, and a job that raises is logged and
  counts as done. The three operations interleave freely (\<open>fan_step\<close>). \<open>submitted\<close> and
  \<open>finished\<close> are logs for the specification.
\<close>

datatype 'j ftask = Unborn | Fresh | Running nat 'j | Ended

record 'j fanout =
  dict_queue :: "nat option"
  store :: "nat \<Rightarrow> 'j list"
  dict_worker :: "nat option"
  tasks :: "nat \<Rightarrow> 'j ftask"
  callbacks :: "nat list"
  next_id :: nat
  submitted :: "'j list"
  finished :: "'j list"

definition new_fanout :: "'j fanout" where
  "new_fanout = \<lparr>dict_queue = None, store = \<lambda>_. [], dict_worker = None, tasks = \<lambda>_. Unborn, callbacks = [],
     next_id = 0, submitted = [], finished = []\<rparr>"

definition task_live :: "nat \<Rightarrow> 'j fanout \<Rightarrow> bool" where
  "task_live t s \<longleftrightarrow> tasks s t \<noteq> Unborn \<and> tasks s t \<noteq> Ended"

text \<open>\<open>_fanout\<close>: put the job on the session's queue, start a worker if there is none running.\<close>

definition ensure_queue :: "'j fanout \<Rightarrow> nat \<times> 'j fanout" where
  "ensure_queue s =
     (case dict_queue s of
        Some q \<Rightarrow> (q, s)
      | None \<Rightarrow> (next_id s, s\<lparr>dict_queue := Some (next_id s), store := (store s)(next_id s := []), next_id := next_id s + 1\<rparr>))"

definition fan_submit :: "'j \<Rightarrow> 'j fanout \<Rightarrow> 'j fanout" where
  "fan_submit j s =
     (let (q, s1) = ensure_queue s;
          s2 = s1\<lparr>store := (store s1)(q := store s1 q @ [j]), submitted := submitted s1 @ [j]\<rparr>
      in if (case dict_worker s2 of None \<Rightarrow> True | Some t \<Rightarrow> \<not> task_live t s2)
         then s2\<lparr>tasks := (tasks s2)(next_id s2 := Fresh), dict_worker := Some (next_id s2), next_id := next_id s2 + 1\<rparr>
         else s2)"

text \<open>One step of the task \<open>t\<close>, \<open>_run_fanout\<close>: the loop test, and taking the next job or ending.\<close>

definition task_loop :: "nat \<Rightarrow> nat \<Rightarrow> 'j fanout \<Rightarrow> 'j fanout" where
  "task_loop t q s =
     (case store s q of
        [] \<Rightarrow> s\<lparr>tasks := (tasks s)(t := Ended), callbacks := callbacks s @ [t]\<rparr>
      | j # js \<Rightarrow> s\<lparr>store := (store s)(q := js), tasks := (tasks s)(t := Running q j)\<rparr>)"

definition fan_run :: "nat \<Rightarrow> 'j fanout \<Rightarrow> 'j fanout" where
  "fan_run t s =
     (case tasks s t of
        Fresh \<Rightarrow>
          (case dict_queue s of
             None \<Rightarrow> s\<lparr>tasks := (tasks s)(t := Ended), callbacks := callbacks s @ [t]\<rparr>
           | Some q \<Rightarrow> task_loop t q s)
      | Running q j \<Rightarrow> task_loop t q (s\<lparr>finished := finished s @ [j]\<rparr>)
      | _ \<Rightarrow> s)"

text \<open>\<open>_on_fanout_done\<close> for the task \<open>t\<close>.\<close>

definition fan_callback :: "nat \<Rightarrow> 'j fanout \<Rightarrow> 'j fanout" where
  "fan_callback t s0 =
     (let s = s0\<lparr>callbacks := removeAll t (callbacks s0)\<rparr>
      in if dict_worker s \<noteq> Some t then s
         else if (case dict_queue s of None \<Rightarrow> False | Some q \<Rightarrow> store s q \<noteq> []) then s
         else s\<lparr>dict_worker := None, dict_queue := None\<rparr>)"

inductive fan_step :: "'j fanout \<Rightarrow> 'j fanout \<Rightarrow> bool" where
  fan_submits: "fan_step s (fan_submit j s)"
| fan_runs: "task_live t s \<Longrightarrow> fan_step s (fan_run t s)"
| fan_calls_back: "t \<in> set (callbacks s) \<Longrightarrow> fan_step s (fan_callback t s)"

inductive fan_reach :: "'j fanout \<Rightarrow> bool" where
  reach_new: "fan_reach new_fanout"
| reach_step: "fan_reach s \<Longrightarrow> fan_step s s' \<Longrightarrow> fan_reach s'"

section \<open>The invariant\<close>

text \<open>
  Either nothing is going on, or exactly one task lives: it is the registered one, and it works, or is
  about to work, on the registered queue.
\<close>

definition pending :: "'j fanout \<Rightarrow> 'j list" where
  "pending s = (case dict_queue s of None \<Rightarrow> [] | Some q \<Rightarrow> store s q)"

definition in_flight :: "'j fanout \<Rightarrow> 'j list" where
  "in_flight s = (case dict_worker s of None \<Rightarrow> [] | Some t \<Rightarrow> (case tasks s t of Running q j \<Rightarrow> [j] | _ \<Rightarrow> []))"

definition fan_idle :: "'j fanout \<Rightarrow> bool" where
  "fan_idle s \<longleftrightarrow> (\<forall>u. \<not> task_live u s) \<and> pending s = [] \<and> submitted s = finished s"

definition fan_busy :: "nat \<Rightarrow> nat \<Rightarrow> 'j fanout \<Rightarrow> bool" where
  "fan_busy t q s \<longleftrightarrow> dict_worker s = Some t \<and> dict_queue s = Some q \<and> (\<forall>u. task_live u s \<longleftrightarrow> u = t) \<and>
     (tasks s t = Fresh \<and> submitted s = finished s @ store s q \<or>
      (\<exists>j. tasks s t = Running q j \<and> submitted s = finished s @ j # store s q))"

definition fan_tidy :: "'j fanout \<Rightarrow> bool" where
  "fan_tidy s \<longleftrightarrow> (\<forall>t \<in> set (callbacks s). tasks s t = Ended) \<and> (\<forall>t. next_id s \<le> t \<longrightarrow> tasks s t = Unborn)"

definition fan_inv :: "'j fanout \<Rightarrow> bool" where
  "fan_inv s \<longleftrightarrow> fan_tidy s \<and> (fan_idle s \<or> (\<exists>t q. fan_busy t q s))"

lemma fan_inv_new: "fan_inv new_fanout"
  by (simp add: fan_inv_def fan_tidy_def fan_idle_def new_fanout_def pending_def task_live_def)

lemma ensure_queue_idle:
  assumes "fan_tidy s" and "fan_idle s" and "ensure_queue s = (q, s1)"
  shows "fan_tidy s1" "dict_queue s1 = Some q" "store s1 q = []" "tasks s1 = tasks s"
    "dict_worker s1 = dict_worker s" "submitted s1 = finished s1" "\<And>u. \<not> task_live u s1"
  using assms by (auto simp: ensure_queue_def fan_tidy_def fan_idle_def pending_def task_live_def split: option.splits)

lemma submit_idle:
  assumes "fan_tidy s" and "fan_idle s"
  shows "fan_inv (fan_submit j s)"
proof -
  obtain q s1 where e: "ensure_queue s = (q, s1)" by (metis prod.collapse)
  note s1 = ensure_queue_idle [OF assms e]
  let ?s = "s1\<lparr>store := (store s1)(q := [j]), submitted := finished s1 @ [j],
      tasks := (tasks s1)(next_id s1 := Fresh), dict_worker := Some (next_id s1), next_id := next_id s1 + 1\<rparr>"
  have fresh: "tasks s1 (next_id s1) = Unborn" using s1(1) by (simp add: fan_tidy_def)
  have "fan_submit j s = ?s"
    using s1 by (simp add: fan_submit_def e task_live_def Let_def split: option.split)
  moreover have "fan_busy (next_id s1) q ?s"
    using s1(2,7) by (simp add: fan_busy_def task_live_def)
  moreover have "fan_tidy ?s"
    using s1(1) fresh by (auto simp: fan_tidy_def)
  ultimately show ?thesis by (auto simp: fan_inv_def)
qed

lemma submit_busy:
  assumes "fan_tidy s" and "fan_busy t q s"
  shows "fan_inv (fan_submit j s)"
proof -
  let ?s = "s\<lparr>store := (store s)(q := store s q @ [j]), submitted := submitted s @ [j]\<rparr>"
  have "ensure_queue s = (q, s)" and w: "dict_worker s = Some t" "task_live t s"
    using assms(2) by (auto simp: ensure_queue_def fan_busy_def)
  then have "fan_submit j s = ?s" by (simp add: fan_submit_def task_live_def)
  moreover have "fan_busy t q ?s" using assms(2) by (auto simp: fan_busy_def task_live_def)
  moreover have "fan_tidy ?s" using assms(1) by (simp add: fan_tidy_def)
  ultimately show ?thesis by (auto simp: fan_inv_def)
qed

lemma submit_inv: "fan_inv s \<Longrightarrow> fan_inv (fan_submit j s)"
  unfolding fan_inv_def [of s] by (elim conjE disjE exE) (rule submit_idle submit_busy; assumption)+

lemma fan_busyE:
  assumes "fan_busy t q s"
  obtains (Fresh) "dict_worker s = Some t" "dict_queue s = Some q" "\<And>u. task_live u s \<longleftrightarrow> u = t" "tasks s t = Fresh"
      "in_flight s = []" "submitted s = finished s @ store s q"
    | (Running) j where "dict_worker s = Some t" "dict_queue s = Some q" "\<And>u. task_live u s \<longleftrightarrow> u = t"
      "tasks s t = Running q j" "in_flight s = [j]" "submitted s = finished s @ j # store s q"
  using assms unfolding fan_busy_def in_flight_def by auto

lemma task_loop_inv:
  assumes "fan_tidy s" and "dict_worker s = Some t" and "dict_queue s = Some q"
    and "\<And>u. task_live u s \<longleftrightarrow> u = t" and "submitted s = finished s @ store s q"
  shows "fan_inv (task_loop t q s)"
proof (cases "store s q")
  case Nil
  have "t < next_id s"
    using assms(1,4) by (metis fan_tidy_def not_le task_live_def)
  then have "fan_tidy (task_loop t q s)" "fan_idle (task_loop t q s)"
    using assms Nil by (auto simp: task_loop_def fan_tidy_def fan_idle_def pending_def task_live_def)
  then show ?thesis by (simp add: fan_inv_def)
next
  case (Cons j js)
  have "t < next_id s" "t \<notin> set (callbacks s)"
    using assms(1,4) unfolding fan_tidy_def task_live_def by (metis not_le, metis)
  then have "fan_tidy (task_loop t q s)" "fan_busy t q (task_loop t q s)"
    using assms Cons by (auto simp: task_loop_def fan_tidy_def fan_busy_def task_live_def)
  then show ?thesis by (auto simp: fan_inv_def)
qed

lemma run_inv:
  assumes "fan_inv s" and "task_live t s"
  shows "fan_inv (fan_run t s)"
proof -
  obtain q where tidy: "fan_tidy s" and busy: "fan_busy t q s"
    using assms by (auto simp: fan_inv_def fan_idle_def fan_busy_def)
  from busy consider "tasks s t = Fresh" "submitted s = finished s @ store s q"
    | j where "tasks s t = Running q j" "submitted s = finished s @ j # store s q"
    by (auto simp: fan_busy_def)
  then show ?thesis
  proof cases
    case 1
    then show ?thesis
      using tidy busy task_loop_inv [of s t q] by (simp add: fan_run_def fan_busy_def)
  next
    case 2
    then show ?thesis
      using tidy busy task_loop_inv [of "s\<lparr>finished := finished s @ [j]\<rparr>" t q]
      by (simp add: fan_run_def fan_busy_def fan_tidy_def task_live_def)
  qed
qed

lemma callback_inv:
  assumes "fan_inv s" and "t \<in> set (callbacks s)"
  shows "fan_inv (fan_callback t s)"
proof -
  have tidy: "fan_tidy s" and ended: "tasks s t = Ended" using assms by (auto simp: fan_inv_def fan_tidy_def)
  have tidy': "fan_tidy (fan_callback t s)"
    using tidy by (auto simp: fan_tidy_def fan_callback_def Let_def)
  from assms(1) consider "fan_idle s" | u q where "fan_busy u q s" by (auto simp: fan_inv_def)
  then show ?thesis
  proof cases
    case 1
    then have "fan_idle (fan_callback t s)"
      by (auto simp: fan_idle_def fan_callback_def Let_def pending_def task_live_def split: option.splits)
    with tidy' show ?thesis by (simp add: fan_inv_def)
  next
    case 2
    then have "u \<noteq> t" using ended by (auto simp: fan_busy_def)
    with 2 have "fan_busy u q (fan_callback t s)"
      by (auto simp: fan_busy_def fan_callback_def Let_def task_live_def)
    with tidy' show ?thesis by (auto simp: fan_inv_def)
  qed
qed

lemma reach_inv: "fan_reach s \<Longrightarrow> fan_inv s"
proof (induction rule: fan_reach.induct)
  case reach_new
  show ?case by (rule fan_inv_new)
next
  case (reach_step s s')
  from reach_step.hyps(2) reach_step.IH show ?case
    by cases (simp_all add: submit_inv run_inv callback_inv)
qed

lemma idle_task: "fan_idle s \<Longrightarrow> tasks s u = Unborn \<or> tasks s u = Ended"
  by (auto simp: fan_idle_def task_live_def)

section \<open>Properties\<close>

text \<open>
  C7. A session's watchers see its output strictly in order and nothing is lost: in every reachable
  state of the fan-out, with submissions, task steps and done-callbacks interleaved in any way, the
  jobs submitted are those finished, the one in flight and those pending, in this order; and as soon
  as anything is pending, the registered task is alive to run it.
\<close>

theorem fanout_fifo:
  assumes "fan_reach s"
  shows "submitted s = finished s @ in_flight s @ pending s \<and>
    (pending s = [] \<or> (\<exists>t. dict_worker s = Some t \<and> task_live t s))"
proof -
  from reach_inv [OF assms] consider "fan_idle s" | t q where "fan_busy t q s" by (auto simp: fan_inv_def)
  then show ?thesis
  proof cases
    case 1
    have "in_flight s = []"
      using idle_task [OF 1, of "the (dict_worker s)"] by (auto simp: in_flight_def split: option.split)
    with 1 show ?thesis by (simp add: fan_idle_def)
  next
    case 2
    then show ?thesis by (cases rule: fan_busyE) (simp_all add: pending_def)
  qed
qed

theorem fanout_fifo_witness:
  "submitted (fan_submit ''b'' (fan_run 1 (fan_submit ''a'' new_fanout))) = [''a'', ''b''] \<and>
   submitted (fan_submit ''b'' (fan_run 1 (fan_submit ''a'' new_fanout))) =
     finished (fan_submit ''b'' (fan_run 1 (fan_submit ''a'' new_fanout))) @
     in_flight (fan_submit ''b'' (fan_run 1 (fan_submit ''a'' new_fanout))) @
     pending (fan_submit ''b'' (fan_run 1 (fan_submit ''a'' new_fanout)))"
proof -
  have "fan_reach (fan_submit ''a'' new_fanout)" by (rule reach_step [OF reach_new fan_submits])
  moreover have "task_live 1 (fan_submit ''a'' new_fanout)"
    by (simp add: fan_submit_def new_fanout_def ensure_queue_def task_live_def Let_def)
  ultimately have "fan_reach (fan_run 1 (fan_submit ''a'' new_fanout))"
    by (rule reach_step [OF _ fan_runs])
  then have "fan_reach (fan_submit ''b'' (fan_run 1 (fan_submit ''a'' new_fanout)))"
    by (rule reach_step [OF _ fan_submits])
  from fanout_fifo [OF this] show ?thesis
    by (simp add: fan_submit_def new_fanout_def ensure_queue_def task_live_def fan_run_def task_loop_def Let_def)
qed

lemma busy_run:
  assumes "fan_busy t q s"
  shows "finished (fan_run t s) = finished s @ in_flight s \<and> submitted (fan_run t s) = submitted s \<and>
    (if store s q = [] then fan_idle (fan_run t s)
     else fan_busy t q (fan_run t s) \<and> store (fan_run t s) q = tl (store s q))"
proof -
  define s1 where "s1 = s\<lparr>finished := finished s @ in_flight s\<rparr>"
  have run: "fan_run t s = task_loop t q s1"
    and s1: "dict_worker s1 = Some t" "dict_queue s1 = Some q" "\<And>u. task_live u s1 \<longleftrightarrow> u = t"
      "submitted s1 = finished s1 @ store s1 q"
    using assms by (cases rule: fan_busyE; simp add: s1_def fan_run_def task_live_def; fail)+
  have log: "finished (task_loop t q s1) = finished s1" "submitted (task_loop t q s1) = submitted s1"
    by (simp_all add: task_loop_def split: list.split)
  have "if store s1 q = [] then fan_idle (task_loop t q s1)
     else fan_busy t q (task_loop t q s1) \<and> store (task_loop t q s1) q = tl (store s1 q)"
    using s1 by (cases "store s1 q") (auto simp: task_loop_def fan_busy_def fan_idle_def pending_def task_live_def)
  then show ?thesis
    using log by (cases "store s q = []") (simp_all add: run s1_def)
qed

lemma idle_run: "fan_idle s \<Longrightarrow> fan_run t s = s"
  using idle_task [of s t] by (auto simp: fan_run_def)

lemma drain_run:
  assumes "fan_inv s" and "dict_worker s = Some t" and "length (pending s) < n"
  shows "finished ((fan_run t ^^ n) s) = submitted s"
  using assms
proof (induction n arbitrary: s)
  case (Suc n)
  from Suc.prems(1) consider "fan_idle s" | u q where "fan_busy u q s" by (auto simp: fan_inv_def)
  then show ?case
  proof cases
    case 1
    have "(fan_run t ^^ m) s = s" for m by (induction m) (simp_all add: idle_run [OF 1])
    from this [of "Suc n"] 1 show ?thesis by (simp only: fan_idle_def)
  next
    case 2
    then have "u = t" using Suc.prems(2) by (simp add: fan_busy_def)
    with 2 have busy: "fan_busy t q s" by simp
    have inv: "fan_inv (fan_run t s)" using run_inv [OF Suc.prems(1)] busy by (simp add: fan_busy_def)
    note r = busy_run [OF busy]
    have p: "pending s = store s q" using busy by (simp add: fan_busy_def pending_def)
    show ?thesis
    proof (cases "store s q = []")
      case True
      then have idle: "fan_idle (fan_run t s)" using r by simp
      have "(fan_run t ^^ m) (fan_run t s) = fan_run t s" for m
        by (induction m) (simp_all add: idle_run [OF idle])
      then show ?thesis using idle r by (simp add: fan_idle_def funpow_swap1)
    next
      case False
      then have "fan_busy t q (fan_run t s)" "pending (fan_run t s) = tl (store s q)"
        using r by (auto simp: fan_busy_def pending_def)
      moreover have "length (tl (store s q)) < n" using Suc.prems(3) p False by (cases "store s q") auto
      ultimately have "finished ((fan_run t ^^ n) (fan_run t s)) = submitted (fan_run t s)"
        using Suc.IH [OF inv] by (simp add: fan_busy_def)
      then show ?thesis using r by (simp add: funpow_swap1)
    qed
  qed
qed simp

text \<open>
  Every job is eventually delivered: from any reachable state, running the registered task for as
  many steps as there are jobs pending and one more finishes every job submitted so far.
\<close>

theorem fanout_drains:
  assumes "fan_reach s" and "dict_worker s = Some t"
  shows "finished ((fan_run t ^^ (length (pending s) + 1)) s) = submitted s"
  using reach_inv [OF assms(1)] assms(2) by (rule drain_run) simp

theorem fanout_drains_witness:
  "finished ((fan_run 1 ^^ (length (pending (fan_submit ''a'' new_fanout)) + 1)) (fan_submit ''a'' new_fanout)) =
     submitted (fan_submit ''a'' new_fanout)"
proof (rule fanout_drains)
  show "fan_reach (fan_submit ''a'' new_fanout)" by (rule reach_step [OF reach_new fan_submits])
  show "dict_worker (fan_submit ''a'' new_fanout) = Some 1"
    by (simp add: fan_submit_def new_fanout_def ensure_queue_def task_live_def Let_def)
qed

end
