(* ===== verification/Bot_Tasks.thy ===== *)
theory Bot_Tasks
  imports Bot_Queues Fanout Bot_Outcomes
begin

text \<open>
  The bot's tasks taken together, \<^verbatim>\<open>src/zorkbot/src/zorkbot/bot.py\<close>: background tasks (\<open>_spawn\<close>,
  \<open>_on_background_done\<close>), the session poller, \<open>drain\<close> and \<open>stop\<close>.

  A \<open>whole_bot\<close> has the command queues and workers, one fan-out per session, and the background
  tasks that have not ended. \<open>drain\<close> is a coroutine that runs beside all of them: it is \<open>Joining\<close> a
  queue until the queue's count of unfinished items has been zero (which resolves the future it waits
  for), goes on when it is next resumed, and then runs, without yielding, until the next queue it has to
  wait for.
\<close>

section \<open>Background tasks\<close>

record background =
  bg_tasks :: "nat list"
  bg_responses :: "nat list"
  bg_next :: nat

definition new_background :: background where
  "new_background = \<lparr>bg_tasks = [], bg_responses = [], bg_next = 0\<rparr>"

definition spawn :: "bool \<Rightarrow> background \<Rightarrow> background" where
  "spawn returns bg =
     bg\<lparr>bg_tasks := bg_tasks bg @ [bg_next bg],
        bg_responses := (if returns then bg_responses bg @ [bg_next bg] else bg_responses bg),
        bg_next := bg_next bg + 1\<rparr>"

definition on_background_done :: "nat \<Rightarrow> background \<Rightarrow> background" where
  "on_background_done t bg = bg\<lparr>bg_tasks := removeAll t (bg_tasks bg), bg_responses := removeAll t (bg_responses bg)\<rparr>"

definition has_pending_replies :: "background \<Rightarrow> bool" where
  "has_pending_replies bg \<longleftrightarrow> bg_responses bg \<noteq> []"

definition start_session_poller :: "bot_config \<Rightarrow> background \<Rightarrow> background" where
  "start_session_poller cfg bg = (if session_poll_seconds cfg \<le> 0 then bg else spawn False bg)"

text \<open>Rounds of \<open>_session_poll_loop\<close>: each sleeps (what other tasks do meanwhile is the environment's) and reconciles.\<close>

fun poll_rounds :: "nat \<Rightarrow> unit io" where
  "poll_rounds 0 = ret ()"
| "poll_rounds (Suc k) = bind_io reconcile_sessions (\<lambda>_. poll_rounds k)"

section \<open>The bot with its tasks\<close>

record 'j whole_bot =
  wb_bot :: bot_state
  wb_fans :: "(int \<times> 'j fanout) list"
  wb_background :: background

definition new_whole_bot :: "bot_config \<Rightarrow> 'j whole_bot" where
  "new_whole_bot cfg = \<lparr>wb_bot = new_bot cfg, wb_fans = [], wb_background = new_background\<rparr>"

definition fan_of :: "int \<Rightarrow> 'j whole_bot \<Rightarrow> 'j fanout" where
  "fan_of n w = (case map_of (wb_fans w) n of None \<Rightarrow> new_fanout | Some s \<Rightarrow> s)"

datatype 'j fan_op = Submit 'j | Run nat | Call_back nat

fun fan_apply :: "'j fan_op \<Rightarrow> 'j fanout \<Rightarrow> 'j fanout" where
  "fan_apply (Submit j) s = fan_submit j s"
| "fan_apply (Run t) s = (if task_live t s then fan_run t s else s)"
| "fan_apply (Call_back t) s = (if t \<in> set (callbacks s) then fan_callback t s else s)"

datatype 'j task_event = Bot_runs bot_event | Fan_runs int "'j fan_op" | Spawned bool | Background_ends nat

text \<open>An answered roll call is a spawned task (\<open>dispatch_bots_channel\<close>).\<close>

definition spawn_roll_calls :: "nat \<Rightarrow> background \<Rightarrow> background" where
  "spawn_roll_calls k = (spawn True ^^ k)"

fun whole_step :: "'j task_event \<Rightarrow> 'j whole_bot \<Rightarrow> 'j whole_bot" where
  "whole_step (Bot_runs ev) w =
     (let b = bot_step ev (wb_bot w)
      in w\<lparr>wb_bot := b,
           wb_background := spawn_roll_calls (length (bs_roll_calls b) - length (bs_roll_calls (wb_bot w))) (wb_background w)\<rparr>)"
| "whole_step (Fan_runs n op) w = w\<lparr>wb_fans := AList.update n (fan_apply op (fan_of n w)) (wb_fans w)\<rparr>"
| "whole_step (Spawned returns) w = w\<lparr>wb_background := spawn returns (wb_background w)\<rparr>"
| "whole_step (Background_ends t) w = w\<lparr>wb_background := on_background_done t (wb_background w)\<rparr>"

section \<open>\<open>drain\<close>\<close>

text \<open>The counts that \<open>asyncio.Queue.join\<close> waits for: items queued, and the one taken but not done.\<close>

definition unfinished :: "string \<Rightarrow> 'j whole_bot \<Rightarrow> nat" where
  "unfinished p w = length (queue_of p (wb_bot w)) + length (in_service (map_of (bs_workers (wb_bot w)) p))"

fun works_on :: "nat \<Rightarrow> 'j ftask \<Rightarrow> bool" where
  "works_on q (Running q' j) = (q' = q)"
| "works_on q t = False"

definition fan_unfinished :: "int \<times> nat \<Rightarrow> 'j whole_bot \<Rightarrow> nat" where
  "fan_unfinished nq w =
     (let s = fan_of (fst nq) w
      in length (store s (snd nq)) +
         length (filter (\<lambda>t. works_on (snd nq) (tasks s t)) [0..<next_id s]))"

definition command_keys :: "'j whole_bot \<Rightarrow> string list" where
  "command_keys w = map fst (bs_queues (wb_bot w))"

definition fan_queues :: "'j whole_bot \<Rightarrow> (int \<times> nat) list" where
  "fan_queues w = List.map_filter (\<lambda>(n, s). map_option (Pair n) (dict_queue s)) (wb_fans w)"

datatype drain =
    Joining_command nat nat bool
  | Joining_fan "int \<times> nat" "(int \<times> nat) list" bool
  | Gathering "nat list"
  | Drained
  | Size_changed

definition drain_replies :: "'j whole_bot \<Rightarrow> drain" where
  "drain_replies w =
     (if has_pending_replies (wb_background w) then Gathering (bg_responses (wb_background w)) else Drained)"

fun drain_fans :: "'j whole_bot \<Rightarrow> (int \<times> nat) list \<Rightarrow> drain" where
  "drain_fans w [] = drain_replies w"
| "drain_fans w (nq # nqs) = (if fan_unfinished nq w = 0 then drain_fans w nqs else Joining_fan nq nqs False)"

text \<open>
  The loop over \<open>self._queues.values()\<close> iterates over the dictionary itself, which had \<open>len\<close> keys when it
  began: the next step of the iterator raises when that has changed. The queues of the fan-out are
  copied into a list first.
\<close>

function drain_commands :: "'j whole_bot \<Rightarrow> nat \<Rightarrow> nat \<Rightarrow> drain" where
  "drain_commands w i len =
     (if length (command_keys w) \<noteq> len then Size_changed
      else if i < len then
        (if unfinished (command_keys w ! i) w = 0 then drain_commands w (Suc i) len else Joining_command i len False)
      else drain_fans w (fan_queues w))"
  by auto
termination by (relation "measure (\<lambda>(w, i, len). len - i)") auto

declare drain_commands.simps [simp del]

definition drain_begin :: "'j whole_bot \<Rightarrow> drain" where
  "drain_begin w = drain_commands w 0 (length (command_keys w))"

text \<open>After every step of another task: has the awaited count become zero?\<close>

fun drain_notice :: "'j whole_bot \<Rightarrow> drain \<Rightarrow> drain" where
  "drain_notice w (Joining_command i len woken) = Joining_command i len (woken \<or> unfinished (command_keys w ! i) w = 0)"
| "drain_notice w (Joining_fan nq nqs woken) = Joining_fan nq nqs (woken \<or> fan_unfinished nq w = 0)"
| "drain_notice w d = d"

fun drain_resume :: "'j whole_bot \<Rightarrow> drain \<Rightarrow> drain" where
  "drain_resume w (Joining_command i len True) = drain_commands w (Suc i) len"
| "drain_resume w (Joining_fan nq nqs True) = drain_fans w nqs"
| "drain_resume w (Gathering ts) =
     (if list_ex (\<lambda>t. t \<in> set (bg_tasks (wb_background w))) ts then Gathering ts else drain_replies w)"
| "drain_resume w d = d"

text \<open>A run with a \<open>drain\<close> under way: every step of another task is noticed, and \<open>drain\<close> is resumed now and then.\<close>

datatype 'j drain_event = Other "'j task_event" | Resumed

fun drain_step :: "'j drain_event \<Rightarrow> 'j whole_bot \<times> drain \<Rightarrow> 'j whole_bot \<times> drain" where
  "drain_step (Other ev) (w, d) = (let w' = whole_step ev w in (w', drain_notice w' d))"
| "drain_step Resumed (w, d) = (w, drain_resume w d)"

section \<open>\<open>stop\<close>\<close>

text \<open>
  Every worker, background task and fan-out task is cancelled and awaited, and all are forgotten; the jobs of
  the fan-out that never had their turn are closed. The registry's part is \<open>stop_sessions\<close>. (No message
  arrives meanwhile: the runner has unsubscribed before.)
\<close>

definition fan_stop :: "'j fanout \<Rightarrow> 'j fanout" where
  "fan_stop s =
     (let s1 = s\<lparr>tasks := (\<lambda>t. if task_live t s then Ended else tasks s t), dict_worker := None, callbacks := []\<rparr>
      in (case dict_queue s1 of None \<Rightarrow> s1 | Some q \<Rightarrow> s1\<lparr>store := (store s1)(q := [])\<rparr>)\<lparr>dict_queue := None\<rparr>)"

definition whole_stop :: "'j whole_bot \<Rightarrow> 'j whole_bot" where
  "whole_stop w =
     w\<lparr>wb_bot := bot_stop (wb_bot w), wb_fans := map (\<lambda>(n, s). (n, fan_stop s)) (wb_fans w),
       wb_background := (wb_background w)\<lparr>bg_tasks := [], bg_responses := []\<rparr>\<rparr>"

section \<open>The invariant of the tasks\<close>

text \<open>Every worker belongs to a queue.\<close>

definition owned :: "bot_state \<Rightarrow> bool" where
  "owned b \<longleftrightarrow> fst ` set (bs_workers b) \<subseteq> fst ` set (bs_queues b)"

lemma update_keys: "fst ` set (AList.update k v al) = insert k (fst ` set al)"
  by (induction al) auto

lemma known_queue: "queue_of p b \<noteq> [] \<Longrightarrow> p \<in> fst ` set (bs_queues b)"
  by (auto simp: queue_of_def split: option.splits dest: map_of_SomeD) (force dest: map_of_SomeD)

lemma owned_enqueue: "owned b \<Longrightarrow> owned (snd (enqueue ctx c a b))"
  by (auto simp: owned_def enqueue_def Let_def drop_command_def sink_push_def update_keys)

lemma owned_worker: "owned b \<Longrightarrow> owned (worker_step p b) \<and> map fst (bs_queues (worker_step p b)) = map fst (bs_queues b)"
proof -
  assume owned: "owned b"
  have next_owned: "owned (worker_next p b') \<and> map fst (bs_queues (worker_next p b')) = map fst (bs_queues b')"
    if "owned b'" "map_of (bs_workers b') p = Some wk" for b' wk
  proof -
    have p: "p \<in> fst ` set (bs_queues b')" "p \<in> fst ` set (bs_workers b')"
      using that by (force simp: owned_def dest: map_of_SomeD)+
    have "map fst (AList.update p q (bs_queues b')) = map fst (bs_queues b')" for q
      using p(1) by (simp add: AList.update_keys)
    then show ?thesis
      using that(1) p by (auto simp: worker_next_def owned_def update_keys split: list.split)
  qed
  have "owned (b\<lparr>served := x\<rparr>)" for x using owned by (simp add: owned_def)
  then show ?thesis
    using owned next_owned [of b] next_owned [of "b\<lparr>served := x\<rparr>" for x]
    by (auto simp: worker_step_def split: option.split worker.split)
qed

lemma owned_step: "owned b \<Longrightarrow> owned (bot_step ev b)"
proof (cases ev)
  case (Channel_msg m)
  assume "owned b"
  then show ?thesis using Channel_msg
    by (auto simp: dispatch_channel_def split_beta owned_enqueue split: option.split) (simp add: owned_def sink_push_def)
next
  case (Bots_msg now m)
  assume "owned b"
  then show ?thesis using Bots_msg
    by (auto simp: dispatch_bots_channel_def Let_def split_beta owned_def sink_push_def split: option.split)
next
  case (Dm_msg m)
  assume "owned b"
  then show ?thesis using Dm_msg by (simp add: dispatch_dm_def Let_def split_beta owned_enqueue)
qed (simp add: owned_worker)

text \<open>A queue object that is no longer registered is empty.\<close>

definition others_empty :: "'j fanout \<Rightarrow> bool" where
  "others_empty s \<longleftrightarrow> (\<forall>q. dict_queue s \<noteq> Some q \<longrightarrow> store s q = [])"

lemma others_empty_apply: "others_empty s \<Longrightarrow> others_empty (fan_apply op s)"
  by (cases op) (auto simp: others_empty_def fan_submit_def ensure_queue_def Let_def fan_run_def task_loop_def fan_callback_def
      split: option.splits ftask.splits list.splits, metis)

definition whole_inv :: "'j whole_bot \<Rightarrow> bool" where
  "whole_inv w \<longleftrightarrow> owned (wb_bot w) \<and> (\<forall>p. lane_ok (lane p (wb_bot w))) \<and> (\<forall>n. fan_inv (fan_of n w) \<and> others_empty (fan_of n w)) \<and>
     set (bg_responses (wb_background w)) \<subseteq> set (bg_tasks (wb_background w))"

lemma lane_ok_step: "(\<And>p. lane_ok (lane p b)) \<Longrightarrow> lane_ok (lane q (bot_step ev b))"
  by (cases ev) (simp_all add: dispatch_lane_ok worker_lane_ok)

lemma fan_inv_apply: "fan_inv s \<Longrightarrow> fan_inv (fan_apply op s)"
  by (cases op) (simp_all add: submit_inv run_inv callback_inv)

lemma spawn_responses:
  "set (bg_responses bg) \<subseteq> set (bg_tasks bg) \<Longrightarrow> set (bg_responses ((spawn r ^^ k) bg)) \<subseteq> set (bg_tasks ((spawn r ^^ k) bg))"
  by (induction k) (auto simp: spawn_def)

lemma fan_of_update: "fan_of m (w\<lparr>wb_fans := AList.update n s (wb_fans w)\<rparr>) = (if m = n then s else fan_of m w)"
  by (simp add: fan_of_def dict_simps)

lemma whole_inv_step:
  assumes "whole_inv w"
  shows "whole_inv (whole_step ev w)"
proof (cases ev)
  case (Bot_runs e)
  have "fan_of n (w\<lparr>wb_bot := b, wb_background := g\<rparr>) = fan_of n w" for n b g by (simp add: fan_of_def)
  then show ?thesis
    using assms Bot_runs spawn_responses [where bg = "wb_background w" and r = True]
    by (simp add: whole_inv_def Let_def owned_step lane_ok_step spawn_roll_calls_def)
next
  case (Fan_runs n op)
  then show ?thesis using assms by (simp add: whole_inv_def fan_of_update fan_inv_apply others_empty_apply)
next
  case (Spawned r)
  have "fan_of n (w\<lparr>wb_background := g\<rparr>) = fan_of n w" for n g by (simp add: fan_of_def)
  then show ?thesis using assms Spawned spawn_responses [where bg = "wb_background w" and r = r and k = 1] by (simp add: whole_inv_def)
next
  case (Background_ends t)
  have "fan_of n (w\<lparr>wb_background := g\<rparr>) = fan_of n w" for n g by (simp add: fan_of_def)
  then show ?thesis using assms Background_ends by (auto simp: whole_inv_def on_background_done_def)
qed

lemma whole_inv_run: "whole_inv (fold whole_step evs (new_whole_bot cfg))"
proof -
  have "whole_inv w \<Longrightarrow> whole_inv (fold whole_step evs w)" for w :: "'a whole_bot"
    by (induction evs arbitrary: w) (simp_all add: whole_inv_step)
  moreover have "whole_inv (new_whole_bot cfg :: 'a whole_bot)"
    by (simp add: whole_inv_def new_whole_bot_def new_background_def owned_def new_bot_def lane_def queue_of_def fan_of_def fan_inv_new others_empty_def)
      (simp add: new_fanout_def)
  ultimately show ?thesis by blast
qed

section \<open>When \<open>drain\<close> returns\<close>

text \<open>
  What may happen beside \<open>drain\<close> for it to mean something: no message arrives, nothing is spawned, and the
  fan-out gets new jobs only from a command in service.
\<close>

definition serving :: "'j whole_bot \<Rightarrow> bool" where
  "serving w \<longleftrightarrow> list_ex (\<lambda>p. in_service (map_of (bs_workers (wb_bot w)) p) \<noteq> []) (command_keys w)"

fun quiet :: "'j whole_bot \<Rightarrow> 'j drain_event \<Rightarrow> bool" where
  "quiet w (Other (Bot_runs (Worker_runs p))) = True"
| "quiet w (Other (Fan_runs n (Submit j))) = serving w"
| "quiet w (Other (Fan_runs n (Run t))) = True"
| "quiet w (Other (Fan_runs n (Call_back t))) = True"
| "quiet w (Other (Background_ends t)) = True"
| "quiet w Resumed = True"
| "quiet w e = False"

fun quiet_run :: "'j drain_event list \<Rightarrow> 'j whole_bot \<times> drain \<Rightarrow> bool" where
  "quiet_run [] s = True"
| "quiet_run (e # es) s = (quiet (fst s) e \<and> quiet_run es (drain_step e s))"

definition commands_done :: "'j whole_bot \<Rightarrow> bool" where
  "commands_done w \<longleftrightarrow> (\<forall>p \<in> set (command_keys w). unfinished p w = 0)"

definition fan_done :: "int \<Rightarrow> 'j whole_bot \<Rightarrow> bool" where
  "fan_done n w \<longleftrightarrow> pending (fan_of n w) = [] \<and> in_flight (fan_of n w) = []"

fun drain_ok :: "'j whole_bot \<Rightarrow> drain \<Rightarrow> bool" where
  "drain_ok w (Joining_command i len woken) \<longleftrightarrow> len = length (command_keys w) \<and> i < len \<and>
     (\<forall>k < i. unfinished (command_keys w ! k) w = 0) \<and> (woken \<longrightarrow> unfinished (command_keys w ! i) w = 0)"
| "drain_ok w (Joining_fan nq nqs woken) \<longleftrightarrow> commands_done w \<and>
     (\<forall>n. fan_done n w \<or> (\<exists>q. dict_queue (fan_of n w) = Some q \<and> (n, q) \<in> set (if woken then nqs else nq # nqs)))"
| "drain_ok w (Gathering ts) \<longleftrightarrow> commands_done w \<and> (\<forall>n. fan_done n w)"
| "drain_ok w Drained \<longleftrightarrow> commands_done w \<and> (\<forall>n. fan_done n w) \<and> bg_responses (wb_background w) = []"
| "drain_ok w Size_changed \<longleftrightarrow> False"

lemma ok_replies: "commands_done w \<Longrightarrow> (\<And>n. fan_done n w) \<Longrightarrow> drain_ok w (drain_replies w)"
  by (simp add: drain_replies_def has_pending_replies_def)

text \<open>For a reachable fan-out the count of its registered queue is zero exactly when it has nothing left to do.\<close>

lemma fan_count:
  assumes "fan_inv (fan_of n w)" and "dict_queue (fan_of n w) = Some q"
  shows "fan_unfinished (n, q) w = 0 \<longleftrightarrow> fan_done n w"
proof -
  let ?s = "fan_of n w"
  from assms(1) consider "fan_idle ?s" | t q' where "fan_busy t q' ?s" by (auto simp: fan_inv_def)
  then show ?thesis
  proof cases
    case 1
    have "in_flight ?s = []"
      using idle_task [OF 1, of "the (dict_worker ?s)"] by (auto simp: in_flight_def split: option.split)
    moreover have "\<not> works_on q (tasks ?s t)" for t
      using idle_task [OF 1, of t] by auto
    ultimately show ?thesis using 1 assms(2) by (simp add: fan_unfinished_def Let_def fan_done_def pending_def)
  next
    case 2
    have t: "t < next_id ?s"
      using 2 assms(1) unfolding fan_inv_def fan_tidy_def fan_busy_def task_live_def by (metis not_le)
    from 2 show ?thesis
    proof (cases rule: fan_busyE)
      case Fresh
      have "\<not> works_on q (tasks ?s u)" for u
        using Fresh(3) [of u] Fresh(4) by (cases "tasks ?s u") (auto simp: task_live_def)
      then show ?thesis using Fresh assms(2) by (simp add: fan_unfinished_def Let_def fan_done_def pending_def)
    next
      case (Running j)
      have "filter (\<lambda>u. works_on q (tasks ?s u)) [0..<next_id ?s] \<noteq> []"
        using t Running assms(2) by (auto simp: filter_empty_conv intro!: bexI [of _ t])
      then show ?thesis using Running by (simp add: fan_unfinished_def Let_def fan_done_def)
    qed
  qed
qed

lemma unregistered_done: "fan_inv (fan_of n w) \<Longrightarrow> dict_queue (fan_of n w) = None \<Longrightarrow> fan_done n w"
proof -
  assume inv: "fan_inv (fan_of n w)" and none: "dict_queue (fan_of n w) = None"
  then have idle: "fan_idle (fan_of n w)" by (auto simp: fan_inv_def fan_busy_def)
  have "in_flight (fan_of n w) = []"
    using idle_task [OF idle, of "the (dict_worker (fan_of n w))"] by (auto simp: in_flight_def split: option.split)
  then show ?thesis using none by (simp add: fan_done_def pending_def)
qed

lemma ok_fans:
  assumes "whole_inv w" and "commands_done w"
    and "\<And>n. fan_done n w \<or> (\<exists>q. dict_queue (fan_of n w) = Some q \<and> (n, q) \<in> set nqs)"
  shows "drain_ok w (drain_fans w nqs)"
  using assms(3)
proof (induction nqs)
  case Nil
  then show ?case using ok_replies [OF assms(2)] by simp
next
  case (Cons nq nqs)
  show ?case
  proof (cases "fan_unfinished nq w = 0")
    case True
    have "fan_done n w \<or> (\<exists>q. dict_queue (fan_of n w) = Some q \<and> (n, q) \<in> set nqs)" for n
      using Cons.prems [of n] True fan_count [of n w] assms(1) by (auto simp: whole_inv_def)
    with True Cons.IH show ?thesis by simp
  next
    case False
    then show ?thesis using Cons.prems assms(2) by simp
  qed
qed

lemma listed_queue: "dict_queue (fan_of n w) = Some q \<Longrightarrow> (n, q) \<in> set (fan_queues w)"
proof -
  assume q: "dict_queue (fan_of n w) = Some q"
  then obtain s where "map_of (wb_fans w) n = Some s" "dict_queue s = Some q"
    by (auto simp: fan_of_def new_fanout_def split: option.splits)
  then have "(n, s) \<in> set (wb_fans w)" by (simp add: map_of_SomeD)
  then show ?thesis using \<open>dict_queue s = Some q\<close> by (force simp: fan_queues_def map_filter_def)
qed

lemma ok_commands:
  assumes "whole_inv w" and "\<forall>k < i. unfinished (command_keys w ! k) w = 0"
  shows "drain_ok w (drain_commands w i (length (command_keys w)))"
  using assms
proof (induction w i "length (command_keys w)" rule: drain_commands.induct)
  case (1 w i)
  show ?case
  proof (cases "i < length (command_keys w)")
    case True
    then show ?thesis
      using 1 by (auto simp: drain_commands.simps [of w i] less_Suc_eq)
  next
    case False
    then have "commands_done w" using 1(3) by (auto simp: commands_done_def in_set_conv_nth)
    moreover have "fan_done n w \<or> (\<exists>q. dict_queue (fan_of n w) = Some q \<and> (n, q) \<in> set (fan_queues w))" for n
      using unregistered_done [of n w] listed_queue [of n w] 1(2) by (cases "dict_queue (fan_of n w)") (auto simp: whole_inv_def)
    ultimately show ?thesis using False ok_fans [OF 1(2)] by (simp add: drain_commands.simps [of w i])
  qed
qed

lemma idle_worker: "lane_ok (lane p (wb_bot w)) \<Longrightarrow> unfinished p w = 0 \<Longrightarrow> worker_step p (wb_bot w) = wb_bot w"
  by (auto simp: unfinished_def lane_def worker_step_def split: option.splits worker.splits)

lemma unfinished_lane: "lane p (wb_bot w') = lane p (wb_bot w) \<Longrightarrow> unfinished p w' = unfinished p w"
  by (simp add: lane_def unfinished_def)

text \<open>A quiet step keeps the keys of the queues, and what is done stays done.\<close>

lemma quiet_commands:
  assumes "whole_inv w" and "quiet w (Other ev)"
  shows "command_keys (whole_step ev w) = command_keys w" and "unfinished p w = 0 \<Longrightarrow> unfinished p (whole_step ev w) = 0"
proof -
  have "command_keys (whole_step ev w) = command_keys w \<and> (unfinished p w = 0 \<longrightarrow> unfinished p (whole_step ev w) = 0)"
  proof (cases ev)
    case (Bot_runs e)
    then obtain r where e: "e = Worker_runs r" using assms(2) by (cases e) auto
    obtain acc srv wk q where l: "lane r (wb_bot w) = (acc, srv, wk, q)" by (metis prod_cases4)
    have w': "wb_bot (whole_step ev w) = worker_step r (wb_bot w)" by (simp add: Bot_runs e Let_def)
    have "unfinished p (whole_step ev w) = 0" if "unfinished p w = 0"
    proof (cases "p = r")
      case True
      then have "worker_step r (wb_bot w) = wb_bot w" using assms(1) idle_worker [of p w] that by (simp add: whole_inv_def)
      then show ?thesis using that w' by (simp add: unfinished_def)
    next
      case False
      then show ?thesis using that unfinished_lane [of p "whole_step ev w" w] worker_lane(2) [OF l False] w' by simp
    qed
    moreover have "command_keys (whole_step ev w) = command_keys w"
      using assms(1) owned_worker [of "wb_bot w" r] by (simp add: command_keys_def w' whole_inv_def)
    ultimately show ?thesis by blast
  qed (simp_all add: command_keys_def unfinished_def)
  then show "command_keys (whole_step ev w) = command_keys w" and "unfinished p w = 0 \<Longrightarrow> unfinished p (whole_step ev w) = 0"
    by blast+
qed

definition settled :: "'j fanout \<Rightarrow> bool" where
  "settled s \<longleftrightarrow> pending s = [] \<and> in_flight s = []"

lemma idle_settled: "fan_idle s \<Longrightarrow> settled s"
  using idle_task [of s "the (dict_worker s)"] by (auto simp: settled_def fan_idle_def in_flight_def split: option.split)

lemma fan_quiet:
  assumes "fan_inv s" and "\<And>j. op \<noteq> Submit j"
  shows "(settled s \<longrightarrow> settled (fan_apply op s)) \<and> (settled (fan_apply op s) \<or> dict_queue (fan_apply op s) = dict_queue s)"
proof (cases op)
  case (Run t)
  from assms(1) consider "fan_idle s" | u q where "fan_busy u q s" by (auto simp: fan_inv_def)
  then show ?thesis
  proof cases
    case 1
    then show ?thesis using Run idle_settled [OF 1] by (simp add: idle_run)
  next
    case 2
    show ?thesis
    proof (cases "u = t")
      case True
      note r = busy_run [OF 2 [unfolded True]]
      have "settled s \<Longrightarrow> store s q = []" using 2 by (simp add: settled_def pending_def fan_busy_def)
      then show ?thesis
        using Run r 2 idle_settled [of "fan_run t s"] True by (cases "store s q = []") (auto simp: fan_busy_def)
    next
      case False
      then show ?thesis using Run 2 by (auto simp: fan_busy_def)
    qed
  qed
next
  case (Call_back t)
  have inv': "fan_inv (fan_apply op s)" using assms(1) by (rule fan_inv_apply)
  from assms(1) consider "fan_idle s" | u q where "fan_busy u q s" by (auto simp: fan_inv_def)
  then show ?thesis
  proof cases
    case 1
    then have "fan_idle (fan_apply op s)"
      using Call_back by (auto simp: fan_idle_def fan_callback_def Let_def pending_def task_live_def split: option.splits)
    then show ?thesis by (simp add: idle_settled)
  next
    case 2
    have "t \<in> set (callbacks s) \<Longrightarrow> u \<noteq> t" using 2 assms(1) by (auto simp: fan_inv_def fan_tidy_def fan_busy_def)
    then show ?thesis
      using Call_back 2 by (auto simp: fan_busy_def fan_callback_def Let_def settled_def pending_def in_flight_def)
  qed
qed (use assms(2) in auto)

lemma not_serving: "commands_done w \<Longrightarrow> \<not> serving w"
  by (auto simp: commands_done_def serving_def unfinished_def list_ex_iff)

lemma fan_done_settled: "fan_done n w \<longleftrightarrow> settled (fan_of n w)"
  by (simp add: fan_done_def settled_def)

lemma quiet_fans:
  assumes "whole_inv w" and "quiet w (Other ev)" and "commands_done w"
  shows "fan_done n w \<Longrightarrow> fan_done n (whole_step ev w)"
    and "fan_done n (whole_step ev w) \<or> dict_queue (fan_of n (whole_step ev w)) = dict_queue (fan_of n w)"
proof -
  have "(fan_done n w \<longrightarrow> fan_done n (whole_step ev w)) \<and>
    (fan_done n (whole_step ev w) \<or> dict_queue (fan_of n (whole_step ev w)) = dict_queue (fan_of n w))"
  proof (cases ev)
    case (Fan_runs m op)
    have "op \<noteq> Submit j" for j using assms(2) not_serving [OF assms(3)] Fan_runs by auto
    with assms(1) have "(settled (fan_of m w) \<longrightarrow> settled (fan_apply op (fan_of m w))) \<and>
        (settled (fan_apply op (fan_of m w)) \<or> dict_queue (fan_apply op (fan_of m w)) = dict_queue (fan_of m w))"
      by (intro fan_quiet) (simp_all add: whole_inv_def)
    then show ?thesis using Fan_runs by (simp add: fan_done_settled fan_of_update)
  qed (simp_all add: fan_done_def fan_of_def Let_def)
  then show "fan_done n w \<Longrightarrow> fan_done n (whole_step ev w)"
    and "fan_done n (whole_step ev w) \<or> dict_queue (fan_of n (whole_step ev w)) = dict_queue (fan_of n w)" by blast+
qed

lemma quiet_other:
  assumes "whole_inv w" and "quiet w (Other ev)" and "drain_ok w d"
  shows "drain_ok (whole_step ev w) (drain_notice (whole_step ev w) d)"
proof -
  let ?w = "whole_step ev w"
  have inv': "whole_inv ?w" using assms(1) by (rule whole_inv_step)
  note keys = quiet_commands(1) [OF assms(1,2)] and kept = quiet_commands(2) [OF assms(1,2)]
  have cmds: "commands_done w \<Longrightarrow> commands_done ?w" using keys kept by (simp add: commands_done_def)
  note fans = quiet_fans [OF assms(1,2)]
  show ?thesis
  proof (cases d)
    case (Joining_command i len woken)
    then show ?thesis using assms(3) keys kept by auto
  next
    case (Joining_fan nq nqs woken)
    have c: "commands_done w" using assms(3) Joining_fan by simp
    have wait: "fan_done n w \<or> (\<exists>q. dict_queue (fan_of n w) = Some q \<and> (n, q) \<in> set (if woken then nqs else nq # nqs))" for n
      using assms(3) Joining_fan by simp
    let ?woken = "woken \<or> fan_unfinished nq ?w = 0"
    have "fan_done n ?w \<or> (\<exists>q. dict_queue (fan_of n ?w) = Some q \<and> (n, q) \<in> set (if ?woken then nqs else nq # nqs))" for n
    proof (rule disjCI)
      assume "\<not> (\<exists>q. dict_queue (fan_of n ?w) = Some q \<and> (n, q) \<in> set (if ?woken then nqs else nq # nqs))"
      moreover have "fan_unfinished (n, q) ?w = 0 \<Longrightarrow> dict_queue (fan_of n ?w) = Some q \<Longrightarrow> fan_done n ?w" for q
        using fan_count [of n ?w q] inv' by (simp add: whole_inv_def)
      ultimately show "fan_done n ?w"
        using wait [of n] fans [OF c, of n] by (auto split: if_splits)
    qed
    then show ?thesis using Joining_fan cmds [OF c] by simp
  next
    case (Gathering ts)
    then show ?thesis using assms(3) cmds fans(1) by simp
  next
    case Drained
    have "bg_responses (wb_background ?w) = []"
      using assms(2,3) Drained
      by (cases ev) (auto simp: on_background_done_def Let_def spawn_roll_calls_def worker_step_def worker_next_def
          elim!: quiet.elims split: option.splits worker.splits list.splits)
    then show ?thesis using assms(3) Drained cmds fans(1) by simp
  next
    case Size_changed
    then show ?thesis using assms(3) by simp
  qed
qed

lemma quiet_resume:
  assumes "whole_inv w" and "drain_ok w d"
  shows "drain_ok w (drain_resume w d)"
proof (cases d)
  case (Joining_command i len woken)
  then show ?thesis
    using assms ok_commands [OF assms(1), of "Suc i"] by (cases woken) (auto simp: less_Suc_eq)
next
  case (Joining_fan nq nqs woken)
  then show ?thesis using assms ok_fans [OF assms(1), of nqs] by (cases woken) auto
next
  case (Gathering ts)
  then show ?thesis using assms ok_replies [of w] by auto
qed (use assms in auto)

lemma quiet_drain:
  assumes "whole_inv w" and "drain_ok w d" and "quiet_run evs (w, d)"
  shows "whole_inv (fst (fold drain_step evs (w, d))) \<and> (case fold drain_step evs (w, d) of (w', d') \<Rightarrow> drain_ok w' d')"
  using assms
proof (induction evs arbitrary: w d)
  case (Cons e evs)
  show ?case
  proof (cases e)
    case (Other ev)
    then show ?thesis
      using Cons.IH [of "whole_step ev w" "drain_notice (whole_step ev w) d"] Cons.prems
        whole_inv_step [of w ev] quiet_other [of w ev d] by (simp add: Let_def)
  next
    case Resumed
    then show ?thesis using Cons.IH [of w "drain_resume w d"] Cons.prems quiet_resume [of w d] by simp
  qed
qed simp

section \<open>Properties\<close>


section \<open>That \<open>drain\<close> returns\<close>

text \<open>
  A schedule that lets everything finish: two steps for each worker, one for each watcher job and one to end
  for each fan-out task, the ends of the background tasks, and then \<open>drain\<close> is resumed.
\<close>

definition finish_workers :: "'j whole_bot \<Rightarrow> 'j task_event list" where
  "finish_workers w = concat (map (\<lambda>p. [Bot_runs (Worker_runs p), Bot_runs (Worker_runs p)]) (command_keys w))"

definition rounds :: "'j fanout \<Rightarrow> nat" where
  "rounds s = length (pending s) + 1"

definition finish_fan :: "'j whole_bot \<Rightarrow> int \<Rightarrow> 'j task_event list" where
  "finish_fan w n =
     (case dict_worker (fan_of n w) of None \<Rightarrow> [] | Some t \<Rightarrow> replicate (rounds (fan_of n w)) (Fan_runs n (Run t)))"

definition finish_tasks :: "'j whole_bot \<Rightarrow> 'j task_event list" where
  "finish_tasks w = finish_workers w @ concat (map (finish_fan w) (remdups (map fst (wb_fans w)))) @
     map Background_ends (bg_tasks (wb_background w)) @ [Background_ends 0]"

definition wind_down :: "'j whole_bot \<Rightarrow> 'j drain_event list" where
  "wind_down w = map Other (finish_tasks w) @ [Resumed]"

fun unattended :: "'j task_event \<Rightarrow> bool" where
  "unattended (Bot_runs (Worker_runs p)) = True"
| "unattended (Fan_runs n (Run t)) = True"
| "unattended (Background_ends t) = True"
| "unattended ev = False"

lemma unattended_quiet: "unattended ev \<Longrightarrow> quiet w (Other ev)"
  by (cases ev rule: unattended.cases) auto

lemma unattended_finish: "list_all unattended (finish_tasks w)"
  by (auto simp: finish_tasks_def finish_workers_def finish_fan_def list_all_iff split: option.splits)

lemma whole_inv_fold: "whole_inv w \<Longrightarrow> whole_inv (fold whole_step evs w)"
  by (induction evs arbitrary: w) (simp_all add: whole_inv_step)

lemma unattended_run:
  assumes "whole_inv w" and "list_all unattended evs"
  shows "command_keys (fold whole_step evs w) = command_keys w \<and> (unfinished p w = 0 \<longrightarrow> unfinished p (fold whole_step evs w) = 0)"
  using assms
proof (induction evs arbitrary: w)
  case (Cons ev evs)
  have q: "quiet w (Other ev)" using Cons.prems by (simp add: unattended_quiet)
  have "whole_inv (whole_step ev w)" using Cons.prems(1) by (rule whole_inv_step)
  from Cons.IH [OF this] show ?case
    using Cons.prems quiet_commands(1) [OF _ q] quiet_commands(2) [OF _ q, of p] by simp
qed simp

lemma two_steps:
  assumes "lane_ok (lane p (wb_bot w))"
  shows "unfinished p (fold whole_step [Bot_runs (Worker_runs p), Bot_runs (Worker_runs p)] w) = 0"
proof -
  let ?b = "wb_bot w"
  obtain acc srv wk q where l: "lane p ?b = (acc, srv, wk, q)" by (metis prod_cases4)
  obtain acc1 srv1 wk1 q1 where l1: "lane p (worker_step p ?b) = (acc1, srv1, wk1, q1)" by (metis prod_cases4)
  have "snd (snd (snd (lane p (worker_step p (worker_step p ?b))))) = []
      \<and> in_service (fst (snd (snd (lane p (worker_step p (worker_step p ?b)))))) = []"
    using assms worker_lane(1) [OF l] worker_lane(1) [OF l1] l l1
    by (cases wk; cases "the wk"; cases q; cases "tl q"; auto split: option.splits worker.splits list.splits)
  then show ?thesis by (simp add: unfinished_def lane_def Let_def)
qed

lemma workers_finish:
  assumes "whole_inv w"
  shows "commands_done (fold whole_step (finish_workers w) w)"
proof -
  have "unfinished p (fold whole_step (concat (map (\<lambda>p. [Bot_runs (Worker_runs p), Bot_runs (Worker_runs p)]) ps)) w) = 0"
    if "whole_inv w" "p \<in> set ps" for p ps and w :: "'a whole_bot"
    using that
  proof (induction ps arbitrary: w)
    case (Cons r ps)
    let ?two = "[Bot_runs (Worker_runs r), Bot_runs (Worker_runs r)]"
    let ?rest = "concat (map (\<lambda>p. [Bot_runs (Worker_runs p), Bot_runs (Worker_runs p)]) ps)"
    have inv: "whole_inv (fold whole_step ?two w)" using Cons.prems(1) by (rule whole_inv_fold)
    show ?case
    proof (cases "p \<in> set ps")
      case True
      then show ?thesis using Cons.IH [OF inv] by simp
    next
      case False
      then have "unfinished p (fold whole_step ?two w) = 0"
        using Cons.prems two_steps [of r w] by (simp add: whole_inv_def del: fold_simps)
      moreover have "list_all unattended ?rest" by (auto simp: list_all_iff)
      ultimately have "unfinished p (fold whole_step ?rest (fold whole_step ?two w)) = 0"
        using unattended_run [OF inv] by blast
      then show ?thesis by simp
    qed
  qed simp
  moreover have "command_keys (fold whole_step (finish_workers w) w) = command_keys w"
    using unattended_run [OF assms, of "finish_workers w"] unattended_finish [of w] by (simp add: finish_tasks_def)
  ultimately show ?thesis using assms by (simp add: commands_done_def finish_workers_def)
qed

lemma apply_run: "fan_apply (Run t) s = fan_run t s"
  by (auto simp: fan_run_def task_live_def split: ftask.split)

lemma runs_of_fan:
  "fan_of m ((whole_step (Fan_runs n (Run t)) ^^ k) w) =
     (if m = n then (fan_run t ^^ k) (fan_of n w) else fan_of m w)"
  by (induction k) (auto simp: fan_of_update apply_run simp del: fan_apply.simps)

lemma finish_fan_of:
  "fan_of m (fold whole_step (finish_fan w0 n) w) =
     (if m = n then (case dict_worker (fan_of n w0) of None \<Rightarrow> fan_of n w | Some t \<Rightarrow> (fan_run t ^^ rounds (fan_of n w0)) (fan_of n w))
      else fan_of m w)"
  by (simp add: finish_fan_def fold_replicate runs_of_fan split: option.split)

lemma finish_fan_other: "n \<noteq> m \<Longrightarrow> fan_of m (fold whole_step (finish_fan w0 n) w) = fan_of m w"
  by (simp add: finish_fan_of)

lemma finish_fan_settles:
  assumes "fan_inv (fan_of n w)" and "fan_of n w = fan_of n w0"
  shows "settled (fan_of n (fold whole_step (finish_fan w0 n) w))"
proof (cases "dict_worker (fan_of n w)")
  case None
  then have "fan_idle (fan_of n w)" using assms(1) by (auto simp: fan_inv_def fan_busy_def)
  then show ?thesis using None assms(2) by (simp add: finish_fan_of idle_settled)
next
  case (Some t)
  let ?s = "(fan_run t ^^ rounds (fan_of n w)) (fan_of n w)"
  have inv: "fan_inv s \<Longrightarrow> fan_inv ((fan_run t ^^ k) s) \<and> submitted ((fan_run t ^^ k) s) = submitted s" for k and s :: "'a fanout"
  proof (induction k)
    case (Suc k)
    have "submitted (fan_run t s) = submitted s" for s :: "'a fanout"
      by (auto simp: fan_run_def task_loop_def split: ftask.split option.split list.split)
    then show ?case
      using Suc fan_inv_apply [of "(fan_run t ^^ k) s" "Run t"] by (simp add: apply_run del: fan_apply.simps)
  qed simp
  have all: "finished ?s = submitted (fan_of n w)" by (rule drain_run [OF assms(1) Some]) (simp add: rounds_def)
  have "settled ?s"
  proof -
    from inv [OF assms(1), of "rounds (fan_of n w)"]
    consider "fan_idle ?s" | u q where "fan_busy u q ?s" by (auto simp: fan_inv_def)
    then show ?thesis
    proof cases
      case 1
      then show ?thesis by (rule idle_settled)
    next
      case 2
      have "submitted ?s = finished ?s" using inv [OF assms(1)] all by simp
      with 2 show ?thesis by (cases rule: fan_busyE) (simp_all add: settled_def pending_def)
    qed
  qed
  then show ?thesis using Some assms(2) by (simp add: finish_fan_of)
qed

lemma fans_finish:
  assumes "whole_inv w" and "distinct ns" and "\<And>n. n \<in> set ns \<Longrightarrow> fan_of n w = fan_of n w0"
  shows "settled (fan_of m (fold whole_step (concat (map (finish_fan w0) ns)) w)) \<or>
    m \<notin> set ns \<and> fan_of m (fold whole_step (concat (map (finish_fan w0) ns)) w) = fan_of m w"
  using assms
proof (induction ns arbitrary: w)
  case (Cons n ns)
  let ?w = "fold whole_step (finish_fan w0 n) w"
  have inv: "whole_inv ?w" using Cons.prems(1) by (rule whole_inv_fold)
  have "fan_of k ?w = fan_of k w0" if "k \<in> set ns" for k
    using that Cons.prems(2,3) finish_fan_other [of n k w0 w] by force
  from Cons.IH [OF inv _ this] Cons.prems(2)
  have ih: "settled (fan_of m (fold whole_step (concat (map (finish_fan w0) ns)) ?w)) \<or>
      m \<notin> set ns \<and> fan_of m (fold whole_step (concat (map (finish_fan w0) ns)) ?w) = fan_of m ?w" by simp
  have "fan_of n w = fan_of n w0" using Cons.prems(3) by simp
  moreover have "fan_inv (fan_of n w)" using Cons.prems(1) by (simp add: whole_inv_def)
  ultimately have "settled (fan_of n ?w)" by (intro finish_fan_settles)
  then show ?case using ih finish_fan_other [of n m w0 w] by (cases "m = n") auto
qed simp

lemma finished_tasks:
  fixes w :: "'j whole_bot"
  assumes "whole_inv w"
  defines "w1 \<equiv> fold whole_step (finish_tasks w) w"
  shows "whole_inv w1 \<and> command_keys w1 = command_keys w \<and> commands_done w1 \<and> (\<forall>n. fan_done n w1) \<and> bg_tasks (wb_background w1) = []"
proof -
  let ?wa = "fold whole_step (finish_workers w) w"
  let ?fans = "concat (map (finish_fan w) (remdups (map fst (wb_fans w))))"
  let ?wb = "fold whole_step ?fans ?wa"
  let ?bgs = "map Background_ends (bg_tasks (wb_background w)) @ [Background_ends 0] :: 'j task_event list"
  have w1: "w1 = fold whole_step ?bgs ?wb" by (simp add: w1_def finish_tasks_def)
  have inv: "whole_inv ?wa" "whole_inv ?wb" "whole_inv w1" using assms(1) by (simp_all add: whole_inv_fold w1_def)
  have un: "list_all unattended (finish_workers w)" "list_all unattended ?fans" "list_all unattended ?bgs"
    using unattended_finish [of w] unfolding finish_tasks_def by (simp_all only: list_all_append)
  have keys: "command_keys ?wa = command_keys w" "command_keys ?wb = command_keys ?wa" "command_keys w1 = command_keys ?wb"
    using unattended_run [OF assms(1) un(1)] unattended_run [OF inv(1) un(2)] unattended_run [OF inv(2) un(3)] unfolding w1 by blast+
  have "commands_done ?wa" using assms(1) by (rule workers_finish)
  then have cmds: "commands_done w1"
    using unattended_run [OF inv(1) un(2)] unattended_run [OF inv(2) un(3)] keys unfolding w1 commands_done_def by metis
  have same: "fan_of n (fold whole_step (concat (map (\<lambda>p. [Bot_runs (Worker_runs p), Bot_runs (Worker_runs p)]) ps)) w) = fan_of n w
      \<and> wb_background (fold whole_step (concat (map (\<lambda>p. [Bot_runs (Worker_runs p), Bot_runs (Worker_runs p)]) ps)) w) = wb_background w"
    for n ps and w :: "'j whole_bot"
  proof (induction ps arbitrary: w)
    case (Cons p ps)
    have one: "fan_of n (whole_step (Bot_runs (Worker_runs p)) v) = fan_of n v \<and>
        wb_background (whole_step (Bot_runs (Worker_runs p)) v) = wb_background v" for v :: "'j whole_bot"
      by (simp add: Let_def fan_of_def spawn_roll_calls_def worker_step_def worker_next_def split: option.split worker.split list.split)
    then show ?case using Cons by (simp del: whole_step.simps)
  qed simp
  have fan_wa: "fan_of n ?wa = fan_of n w" and bg_wa: "wb_background ?wa = wb_background w" for n
    by (simp_all add: finish_workers_def same)
  have fans: "settled (fan_of n ?wb)" for n
  proof (cases "n \<in> fst ` set (wb_fans w)")
    case True
    then show ?thesis using fans_finish [OF inv(1), of "remdups (map fst (wb_fans w))" w n] fan_wa by auto
  next
    case False
    then have "fan_of n w = new_fanout" by (simp add: fan_of_def map_of_eq_None_iff [symmetric])
    then have "settled (fan_of n ?wa)" by (simp add: fan_wa settled_def new_fanout_def pending_def in_flight_def)
    then show ?thesis using False fans_finish [OF inv(1), of "remdups (map fst (wb_fans w))" w n] fan_wa by auto
  qed
  have bg: "fan_of n (fold whole_step (map Background_ends ts) w) = fan_of n w \<and>
      bg_tasks (wb_background (fold whole_step (map Background_ends ts) w)) = filter (\<lambda>t. t \<notin> set ts) (bg_tasks (wb_background w))"
    for n ts and w :: "'j whole_bot"
  proof (induction ts arbitrary: w)
    case (Cons t ts)
    have "filter (\<lambda>x. x \<notin> set ts) (removeAll t xs) = filter (\<lambda>x. x \<noteq> t \<and> x \<notin> set ts) xs" for xs :: "nat list"
      by (simp add: removeAll_filter_not_eq eq_commute conj_commute)
    then show ?case using Cons [of "whole_step (Background_ends t) w"]
      by (simp add: on_background_done_def fan_of_def)
  qed simp
  have bgs: "?bgs = map Background_ends (bg_tasks (wb_background w) @ [0])" by simp
  have bg_fans: "wb_background (fold whole_step (concat (map (finish_fan w0) ns)) w) = wb_background w" for ns w0 and w :: "'j whole_bot"
  proof -
    have one: "wb_background ((whole_step (Fan_runs n (Run t)) ^^ k) w) = wb_background w" for k n t and w :: "'j whole_bot"
      by (induction k) simp_all
    have "wb_background (fold whole_step (finish_fan w0 n) w) = wb_background w" for n and w :: "'j whole_bot"
      by (simp add: finish_fan_def fold_replicate one del: whole_step.simps split: option.split)
    then show ?thesis by (induction ns arbitrary: w) simp_all
  qed
  have "bg_tasks (wb_background w1) = []"
    unfolding w1 bgs using bg [of 0 "bg_tasks (wb_background w) @ [0]" ?wb] by (simp add: bg_fans bg_wa)
  moreover have "fan_done n w1" for n
    unfolding w1 bgs using bg [of n "bg_tasks (wb_background w) @ [0]" ?wb] fans [of n] by (simp add: fan_done_settled)
  ultimately show ?thesis using inv(3) keys cmds by simp
qed

text \<open>When all is done, \<open>drain\<close> does not wait for anything.\<close>

lemma stale_count:
  assumes "fan_inv (fan_of n w)" and "others_empty (fan_of n w)" and "fan_done n w"
  shows "fan_unfinished (n, q) w = 0"
proof (cases "dict_queue (fan_of n w) = Some q")
  case True
  then show ?thesis using fan_count [OF assms(1) True] assms(3) by simp
next
  case False
  let ?s = "fan_of n w"
  from assms(1) consider "fan_idle ?s" | t q' where "fan_busy t q' ?s" by (auto simp: fan_inv_def)
  then have "\<not> works_on q (tasks ?s u)" for u
  proof cases
    case 1
    then show ?thesis using idle_task [OF 1, of u] by auto
  next
    case 2
    then show ?thesis
    proof (cases rule: fan_busyE)
      case Fresh
      then show ?thesis using Fresh(3) [of u] by (cases "tasks ?s u") (auto simp: task_live_def)
    next
      case (Running j)
      then show ?thesis using assms(3) by (simp add: fan_done_def)
    qed
  qed
  then show ?thesis using False assms(2) by (simp add: fan_unfinished_def Let_def others_empty_def)
qed

lemma drain_when_done:
  assumes "whole_inv w" and "commands_done w" and "\<And>n. fan_done n w" and "bg_tasks (wb_background w) = []"
  shows "drain_fans w nqs = Drained" and "drain_commands w i (length (command_keys w)) = Drained"
proof -
  have "bg_responses (wb_background w) = []" using assms(1,4) by (simp add: whole_inv_def)
  then have "drain_replies w = Drained" by (simp add: drain_replies_def has_pending_replies_def)
  moreover have "fan_unfinished nq w = 0" for nq
    using stale_count [of "fst nq" w "snd nq"] assms(1,3) by (simp add: whole_inv_def)
  ultimately have fans: "drain_fans w nqs = Drained" for nqs by (induction nqs) simp_all
  then show "drain_fans w nqs = Drained" .
  have "len = length (command_keys w) \<Longrightarrow> drain_commands w i len = Drained" for len
    using assms(2) fans
  proof (induction w i len rule: drain_commands.induct)
    case (1 w i len)
    show ?case using 1 by (auto simp: drain_commands.simps [of w i] commands_done_def)
  qed
  then show "drain_commands w i (length (command_keys w)) = Drained" by simp
qed


section \<open>An example, and where it fails\<close>

definition dm_from :: "string \<Rightarrow> incoming_message" where
  "dm_from p = \<lparr>im_text = ''look'', im_sender_name = None, im_pubkey_prefix = Some p, im_is_dm = True, im_channel_idx = 0\<rparr>"

definition look_item :: "string \<Rightarrow> work_item" where
  "look_item p = \<lparr>wi_ctx = make_ctx default_config (dm_from p) ''look'', wi_command = ''_game'', wi_args = ''look''\<rparr>"

lemma update_last: "map_of al k = None \<Longrightarrow> AList.update k v (al @ [(k, u)]) = al @ [(k, v)]"
  by (induction al) (auto split: if_splits)

lemma look_dm:
  assumes "bs_config b = default_config" and "map_of (bs_queues b) p = None" and "map_of (bs_workers b) p = None" and "p \<noteq> []"
  shows "dispatch_dm (dm_from p) b =
    b\<lparr>bs_queues := bs_queues b @ [(p, [look_item p])], bs_workers := bs_workers b @ [(p, Created)],
      accepted := accepted b @ [(p, look_item p)]\<rparr>"
proof -
  have parse: "fst (strip_address (strip ''look'') ''zorkbot'') = ''look''" "parse_command ''look'' = None" "strip ''look'' = ''look''" by code_simp+
  have name: "bot_name default_config = ''zorkbot''" by (simp add: default_config_def)
  have key: "queue_key (make_ctx default_config (dm_from p) ''look'') = p"
    using assms(4) by (simp add: queue_key_def make_ctx_def dm_from_def or_else_def truthy_def)
  have game: "''_game'' \<notin> set INTERRUPT_COMMANDS" by (simp add: INTERRUPT_COMMANDS_def)
  have "dispatch_dm (dm_from p) b = snd (enqueue (make_ctx default_config (dm_from p) ''look'') ''_game'' ''look'' b)"
    using parse by (simp add: dispatch_dm_def dm_from_def assms(1) name Let_def)
  also have "\<dots> = b\<lparr>bs_queues := bs_queues b @ [(p, [look_item p])], bs_workers := bs_workers b @ [(p, Created)],
      accepted := accepted b @ [(p, look_item p)]\<rparr>"
    using assms(2,3) by (simp add: enqueue_def key Let_def live_def queue_of_def alist_update_fresh look_item_def map_add_def update_last)
  finally show ?thesis .
qed

definition busy_bot :: "string whole_bot" where
  "busy_bot = fold whole_step [Bot_runs (Dm_msg (dm_from ''ab12'')), Bot_runs (Worker_runs ''ab12'')] (new_whole_bot default_config)"

lemma busy_bot_eq:
  "busy_bot = \<lparr>wb_bot = (new_bot default_config)\<lparr>bs_queues := [(''ab12'', [])], bs_workers := [(''ab12'', Handling (look_item ''ab12''))],
     accepted := [(''ab12'', look_item ''ab12'')]\<rparr>, wb_fans = [], wb_background = new_background\<rparr>"
  by (simp add: busy_bot_def new_whole_bot_def look_dm new_bot_def worker_step_def worker_next_def queue_of_def spawn_roll_calls_def Let_def)

lemmas drain_eval = drain_commands.simps drain_begin_def command_keys_def unfinished_def spawn_roll_calls_def drain_replies_def
  has_pending_replies_def fan_queues_def map_filter_def queue_of_def worker_step_def worker_next_def

lemma busy_begins: "drain_begin busy_bot = Joining_command 0 1 False"
  by (simp add: busy_bot_eq new_bot_def drain_eval)



text \<open>
  Without the hypothesis \<open>drain\<close> can raise: when a player who has not played yet sends a message while it
  waits for another player's command, the dictionary it iterates over has grown, and the iteration
  ends with \<open>RuntimeError\<close>.
\<close>

theorem drain_raises_on_new_player:
  "snd (fold drain_step [Other (Bot_runs (Dm_msg (dm_from ''cd34''))), Other (Bot_runs (Worker_runs ''ab12'')), Resumed]
     (busy_bot, drain_begin busy_bot)) = Size_changed"
  by (simp add: busy_begins) (simp add: busy_bot_eq new_bot_def look_dm drain_eval Let_def)

text \<open>
  After \<open>stop\<close> nothing runs and nothing waits: no worker, no background task, no fan-out task is alive, and
  no watcher job is pending, from any state; stopping again changes nothing.
\<close>

theorem stop_leaves_nothing_running:
  "(\<forall>p. live p (wb_bot (whole_stop w)) = False) \<and> has_pending_replies (wb_background (whole_stop w)) = False \<and>
   bg_tasks (wb_background (whole_stop w)) = [] \<and>
   list_all (\<lambda>(n, s). dict_queue s = None \<and> dict_worker s = None \<and> (\<forall>t. task_live t s = False)) (wb_fans (whole_stop w)) \<and>
   whole_stop (whole_stop w) = whole_stop w"
proof -
  have fan: "dict_queue (fan_stop s) = None \<and> dict_worker (fan_stop s) = None \<and> (\<forall>t. \<not> task_live t (fan_stop s))" for s :: "'a fanout"
    by (simp add: fan_stop_def Let_def task_live_def split: option.split)
  have again: "fan_stop (fan_stop s) = fan_stop s" for s :: "'a fanout"
  proof -
    have "(\<lambda>t. if task_live t s' then Ended else tasks s' t) = tasks s'" if "\<And>t. \<not> task_live t s'" for s' :: "'a fanout"
      using that by (simp add: fun_eq_iff)
    then have "s'\<lparr>tasks := (\<lambda>t. if task_live t s' then Ended else tasks s' t)\<rparr> = s'" if "\<And>t. \<not> task_live t s'" for s' :: "'a fanout"
      using that by simp
    moreover have "callbacks (fan_stop s) = []" by (simp add: fan_stop_def Let_def split: option.split)
    ultimately show ?thesis using fan [of s] unfolding fan_stop_def [of "fan_stop s"] Let_def by (simp del: fun_upd_apply)
  qed
  show ?thesis
    using fan again
    by (simp add: whole_stop_def bot_stop_def live_def has_pending_replies_def list_all_iff comp_def case_prod_beta)
qed

lemma reconcile_returns: "fst (reconcile_sessions env w) = Inr ()"
proof -
  have each: "fst (each_io (reconcile_one s ids) rs env v) = Inr ()" for s ids rs v using reconcile_each by blast
  show ?thesis
    by (cases "list_sessions env w"; cases "fst (list_sessions env w)")
      (auto simp: reconcile_sessions_def bind_io_def catch_io_def ret_def read_reg_def ask_def each)
qed

text \<open>The poller survives every failure of the game service: no round of it raises, whatever the service answers.\<close>

theorem poller_survives: "fst (poll_rounds k env w) = Inr ()"
  by (induction k arbitrary: w) (auto simp: ret_def bind_io_def split: prod.split sum.split, metis reconcile_returns fst_conv sum.distinct(1))
end
