(* ===== verification/Runner.thy ===== *)
theory Runner
  imports Bot_Queues Message_Window
begin

unbundle bit_operations_syntax

text \<open>
  The radio runner, \<^verbatim>\<open>src/zorkbot/src/zorkbot/runner.py\<close>: connecting and device settings, the
  startup flush, the conversion of radio events into messages, and the send gate every
  transmission goes through (\<open>_send_with_spacing\<close>, \<open>_wait_for_quiet_air\<close>).

  The \<open>meshcore\<close> library is a parameter: its contact table is a pair of lookup functions, its
  answers are arguments. In the send gate the callers of \<open>_send_with_spacing\<close> stand in a queue
  whose head holds the lock (\<open>asyncio.Lock\<close> hands the lock over in FIFO order); the holder polls the
  clock until the air is quiet, transmits, and releases the lock when the transmission returns.
\<close>

section \<open>Connecting\<close>

datatype connection = Serial string int | Ble string | Tcp string int

definition connect :: "string option \<Rightarrow> int \<Rightarrow> string option \<Rightarrow> string option \<Rightarrow> py_error + connection" where
  "connect serial baudrate ble tcp =
     (if length (filter truthy [serial, ble, tcp]) \<noteq> 1
      then Inl (ValueError ''specify exactly one of serial, ble, or tcp'')
      else if truthy serial then Inr (Serial (the serial) baudrate)
      else if truthy ble then Inr (Ble (the ble))
      else case partition_on CHR '':'' (the tcp) of (host, _, port) \<Rightarrow>
             if port = [] then Inr (Tcp host 5000)
             else case parse_int port of None \<Rightarrow> Inl (ValueError ''invalid literal for int()'') | Some n \<Rightarrow> Inr (Tcp host n))"

section \<open>Device settings\<close>

datatype device_command =
    Set_name string
  | Set_channel int string "nat list option"
  | Get_autoadd_config
  | Set_autoadd_config int

definition AUTOADD_OVERWRITE_OLDEST :: int where
  "AUTOADD_OVERWRITE_OLDEST = 1"

text \<open>
  The commands sent to the device; \<open>autoadd\<close> is the answer to \<open>get_autoadd_config\<close>, \<open>None\<close> an
  error, otherwise the payload's optional \<open>config\<close> entry.
\<close>

definition ensure_contacts_overwrite_oldest :: "int option option \<Rightarrow> device_command list" where
  "ensure_contacts_overwrite_oldest autoadd =
     Get_autoadd_config #
     (case autoadd of
        None \<Rightarrow> []
      | Some config \<Rightarrow>
          let flag = (case config of None \<Rightarrow> 0 | Some f \<Rightarrow> f)
          in if flag AND AUTOADD_OVERWRITE_OLDEST \<noteq> 0 then []
             else [Set_autoadd_config (flag OR AUTOADD_OVERWRITE_OLDEST)])"

definition apply_settings :: "bot_config \<Rightarrow> int option option \<Rightarrow> device_command list" where
  "apply_settings cfg autoadd =
     (if bot_name cfg = [] then [] else [Set_name (bot_name cfg)]) @
     [Set_channel (chan_index (channel cfg)) (chan_name (channel cfg)) (chan_secret (channel cfg))] @
     (case (if bots_enabled cfg then bots_channel cfg else None) of
        None \<Rightarrow> []
      | Some ch \<Rightarrow> [Set_channel (chan_index ch) (chan_name ch) (chan_secret ch)]) @
     ensure_contacts_overwrite_oldest autoadd"

section \<open>The startup flush\<close>

definition MAX_FLUSH_MESSAGES :: nat where
  "MAX_FLUSH_MESSAGES = 500"

text \<open>\<open>avail n\<close>: the \<open>n\<close>-th call of \<open>get_msg\<close> returns a message (not NO_MORE_MSGS or ERROR).\<close>

function flush_loop :: "(nat \<Rightarrow> bool) \<Rightarrow> nat \<Rightarrow> nat" where
  "flush_loop avail flushed =
     (if flushed < MAX_FLUSH_MESSAGES \<and> avail flushed then flush_loop avail (flushed + 1) else flushed)"
  by pat_completeness auto

termination by (relation "measure (\<lambda>(avail, n). MAX_FLUSH_MESSAGES - n)") auto

declare flush_loop.simps [simp del]

definition flush_pending_messages :: "(nat \<Rightarrow> bool) \<Rightarrow> nat" where
  "flush_pending_messages avail = flush_loop avail 0"

section \<open>Incoming messages\<close>

record contact_table =
  by_name :: "string \<Rightarrow> contact option"
  by_prefix :: "string \<Rightarrow> contact option"

record channel_payload =
  cp_channel_idx :: "int option"
  cp_text :: "string option"
  cp_pubkey_prefix :: "string option"

text \<open>Python truth of a contact: present and not empty.\<close>

definition known :: "contact option \<Rightarrow> bool" where
  "known c \<longleftrightarrow> c \<noteq> None \<and> c \<noteq> Some []"

definition build_channel_message :: "contact_table \<Rightarrow> channel_payload \<Rightarrow> incoming_message" where
  "build_channel_message tbl pl =
     (let raw = or_default (cp_text pl) [];
          (before, sep, rest) = partition_on CHR '':'' raw;
          sender = (if sep then Some (strip before) else None);
          t = (if sep then strip rest else raw);
          pfx = (if \<not> truthy (cp_pubkey_prefix pl) \<and> truthy sender \<and> known (by_name tbl (the sender))
                 then (let key = or_default (map_of (the (by_name tbl (the sender))) ''public_key'') []
                       in if key = [] then cp_pubkey_prefix pl else Some (take 12 key))
                 else cp_pubkey_prefix pl);
          name = (if \<not> truthy sender \<and> truthy pfx \<and> known (by_prefix tbl (the pfx))
                  then Some (or_default (map_of (the (by_prefix tbl (the pfx))) ''adv_name'') (take 8 (the pfx)))
                  else sender)
      in \<lparr>im_text = t, im_sender_name = name, im_pubkey_prefix = pfx, im_is_dm = False,
          im_channel_idx = or_default (cp_channel_idx pl) 0\<rparr>)"

definition build_dm_message :: "contact_table \<Rightarrow> string option \<Rightarrow> string option \<Rightarrow> incoming_message" where
  "build_dm_message tbl pfx t =
     \<lparr>im_text = strip (or_default t []),
      im_sender_name =
        (if \<not> truthy pfx then None
         else Some (if known (by_prefix tbl (the pfx))
                    then or_default (map_of (the (by_prefix tbl (the pfx))) ''adv_name'') (take 8 (the pfx))
                    else take 8 (the pfx))),
      im_pubkey_prefix = pfx, im_is_dm = True, im_channel_idx = 0\<rparr>"

section \<open>The send gate\<close>

record packet =
  pk_transport :: string
  pk_channel_idx :: "int option"
  pk_pubkey_prefix :: "string option"
  pk_chars :: nat
  pk_record :: bool
  pk_ack_aware :: bool
  pk_text :: "string option"

text \<open>What \<open>_send_dm\<close>, \<open>_send_watcher_dm\<close>, \<open>_send_chan_msg\<close> and \<open>send_advert\<close> pass to the gate.\<close>

definition dm_packet :: "bot_config \<Rightarrow> string \<Rightarrow> string \<Rightarrow> packet" where
  "dm_packet cfg pfx t =
     \<lparr>pk_transport = ''dm'', pk_channel_idx = None, pk_pubkey_prefix = Some pfx, pk_chars = length t,
      pk_record = True, pk_ack_aware = dm_ack_enabled cfg, pk_text = Some t\<rparr>"

definition watcher_packet :: "string \<Rightarrow> string \<Rightarrow> packet" where
  "watcher_packet pfx t =
     \<lparr>pk_transport = ''dm'', pk_channel_idx = None, pk_pubkey_prefix = Some pfx, pk_chars = length t,
      pk_record = True, pk_ack_aware = False, pk_text = Some t\<rparr>"

definition chan_packet :: "int \<Rightarrow> string \<Rightarrow> packet" where
  "chan_packet channel_idx t =
     \<lparr>pk_transport = ''channel'', pk_channel_idx = Some channel_idx, pk_pubkey_prefix = None, pk_chars = length t,
      pk_record = True, pk_ack_aware = False, pk_text = Some t\<rparr>"

definition advert_packet :: packet where
  "advert_packet =
     \<lparr>pk_transport = ''dm'', pk_channel_idx = None, pk_pubkey_prefix = None, pk_chars = 0,
      pk_record = False, pk_ack_aware = False, pk_text = None\<rparr>"

datatype gate_phase = Waiting | Sending real

text \<open>One transmission: the packet, its start, its end and the last channel message heard before it.\<close>

record transmission =
  tx_packet :: packet
  tx_start :: real
  tx_end :: real
  tx_heard :: "real option"

record send_gate =
  gate_queue :: "packet list"
  gate_phase :: gate_phase
  last_send_at :: "real option"
  last_channel_rx_at :: "real option"
  rx_at_start :: "real option"
  gate_sink :: "sink_event list"
  gate_windows :: message_windows
  tx_log :: "transmission list"
  gate_accepted :: "packet list"

definition new_gate :: "message_windows \<Rightarrow> send_gate" where
  "new_gate ws = \<lparr>gate_queue = [], gate_phase = Waiting, last_send_at = None, last_channel_rx_at = None,
     rx_at_start = None, gate_sink = [], gate_windows = ws, tx_log = [], gate_accepted = []\<rparr>"

text \<open>\<open>_send_queue_depth\<close>: every caller between the increment and the decrement is in the queue.\<close>

definition send_queue_depth :: "send_gate \<Rightarrow> int" where
  "send_queue_depth g = int (length (gate_queue g))"

definition message_tx :: "packet \<Rightarrow> bool \<Rightarrow> bool option \<Rightarrow> sink_event" where
  "message_tx pk dropped acked =
     Message_tx (pk_transport pk) (pk_channel_idx pk) (pk_pubkey_prefix pk) (pk_chars pk) dropped acked"

definition gate_submit :: "bot_config \<Rightarrow> packet \<Rightarrow> send_gate \<Rightarrow> bool \<times> send_gate" where
  "gate_submit cfg pk g =
     (if max_send_queue_depth cfg \<le> send_queue_depth g
      then (False, if pk_record pk then g\<lparr>gate_sink := gate_sink g @ [message_tx pk True None]\<rparr> else g)
      else (True, g\<lparr>gate_queue := gate_queue g @ [pk], gate_accepted := gate_accepted g @ [pk]\<rparr>))"

definition deadlines :: "bot_config \<Rightarrow> send_gate \<Rightarrow> real list" where
  "deadlines cfg g =
     (case last_send_at g of None \<Rightarrow> [] | Some l \<Rightarrow> [l + send_spacing_seconds cfg]) @
     (case last_channel_rx_at g of None \<Rightarrow> [] | Some r \<Rightarrow> [r + channel_rx_guard_seconds cfg])"

definition air_remaining :: "bot_config \<Rightarrow> real \<Rightarrow> send_gate \<Rightarrow> real" where
  "air_remaining cfg now g =
     (case map (\<lambda>d. d - now) (deadlines cfg g) of [] \<Rightarrow> 0 | x # xs \<Rightarrow> fold max xs x)"

text \<open>One round of \<open>_wait_for_quiet_air\<close> by the lock holder at time \<open>now\<close>: transmit or keep waiting.\<close>

definition gate_poll :: "bot_config \<Rightarrow> real \<Rightarrow> send_gate \<Rightarrow> send_gate" where
  "gate_poll cfg now g =
     (if gate_queue g \<noteq> [] \<and> gate_phase g = Waiting \<and> air_remaining cfg now g \<le> 0
      then g\<lparr>gate_phase := Sending now, rx_at_start := last_channel_rx_at g\<rparr>
      else g)"

text \<open>How the transmission returned: with a result, with \<open>None\<close>, or with an exception.\<close>

datatype tx_result = Tx_value | Tx_none | Tx_raised

definition tx_recorded :: "real \<Rightarrow> packet \<Rightarrow> tx_result \<Rightarrow> send_gate \<Rightarrow> send_gate" where
  "tx_recorded wall pk res g =
     (if res = Tx_raised \<or> \<not> pk_record pk then g
      else
        let acked = (if pk_ack_aware pk then Some (res = Tx_value) else None);
            g1 = g\<lparr>gate_sink := gate_sink g @ [message_tx pk False acked]\<rparr>
        in case pk_text pk of
             None \<Rightarrow> g1
           | Some t \<Rightarrow> g1\<lparr>gate_windows :=
               snd (record_tx wall (pk_transport pk) (pk_channel_idx pk) (pk_pubkey_prefix pk) t (gate_windows g1))\<rparr>)"

definition gate_finish :: "real \<Rightarrow> real \<Rightarrow> tx_result \<Rightarrow> send_gate \<Rightarrow> send_gate" where
  "gate_finish now wall res g =
     (case (gate_phase g, gate_queue g) of
        (Sending start, pk # rest) \<Rightarrow>
          (tx_recorded wall pk res g)
            \<lparr>last_send_at := Some now, gate_queue := rest, gate_phase := Waiting,
             tx_log := tx_log g @ [\<lparr>tx_packet = pk, tx_start = start, tx_end = now, tx_heard = rx_at_start g\<rparr>]\<rparr>
      | _ \<Rightarrow> g)"

definition note_channel_rx :: "real \<Rightarrow> send_gate \<Rightarrow> send_gate" where
  "note_channel_rx now g = g\<lparr>last_channel_rx_at := Some now\<rparr>"

datatype gate_event = Gate_send packet | Gate_poll real | Gate_finish real real tx_result | Gate_heard real

fun gate_step :: "bot_config \<Rightarrow> gate_event \<Rightarrow> send_gate \<Rightarrow> send_gate" where
  "gate_step cfg (Gate_send pk) g = snd (gate_submit cfg pk g)"
| "gate_step cfg (Gate_poll now) g = gate_poll cfg now g"
| "gate_step cfg (Gate_finish now wall res) g = gate_finish now wall res g"
| "gate_step cfg (Gate_heard now) g = note_channel_rx now g"

section \<open>Handlers of radio events\<close>

text \<open>
  The runner's state: the bot's queues and the send gate. The event sink is one object; what the
  handlers report is appended to the bot's log here.
\<close>

record runner =
  rn_bot :: bot_state
  rn_gate :: send_gate

text \<open>The channels the bot serves and the message windows it creates for them, \<open>ZorkBot.__init__\<close>.\<close>

definition served_channels :: "bot_config \<Rightarrow> (int \<times> string) list" where
  "served_channels cfg =
     (case (if bots_enabled cfg then bots_channel cfg else None) of
        None \<Rightarrow> [(chan_index (channel cfg), ''zork'')]
      | Some ch \<Rightarrow> AList.update (chan_index ch) ''bots'' [(chan_index (channel cfg), ''zork'')])"

definition bot_windows :: "bot_config \<Rightarrow> message_windows" where
  "bot_windows cfg =
     new_message_windows (radio_message_window (admin_ui cfg)) (radio_message_contacts (admin_ui cfg))
       (map fst (served_channels cfg)) (bot_name cfg)"

definition new_runner :: "bot_config \<Rightarrow> runner" where
  "new_runner cfg = \<lparr>rn_bot = new_bot cfg, rn_gate = new_gate (bot_windows cfg)\<rparr>"

definition transport_of :: "incoming_message \<Rightarrow> string" where
  "transport_of m = (if im_is_dm m then ''dm'' else ''channel'')"

definition channel_idx_of :: "incoming_message \<Rightarrow> int option" where
  "channel_idx_of m = (if im_is_dm m then None else Some (im_channel_idx m))"

definition runner_sink :: "sink_event \<Rightarrow> runner \<Rightarrow> runner" where
  "runner_sink ev rn = rn\<lparr>rn_bot := sink_push ev (rn_bot rn)\<rparr>"

definition observe_rx :: "real \<Rightarrow> incoming_message \<Rightarrow> runner \<Rightarrow> (key_error + unit) \<times> runner" where
  "observe_rx wall m rn =
     (let rn1 = (if truthy (im_pubkey_prefix m)
                 then runner_sink (Player_seen (the (im_pubkey_prefix m)) (im_sender_name m)) rn else rn)
      in case record_rx wall (transport_of m) (channel_idx_of m) (im_pubkey_prefix m) (im_sender_name m) (im_text m)
                (gate_windows (rn_gate rn1)) of
           (res, ws) \<Rightarrow> (res, rn1\<lparr>rn_gate := (rn_gate rn1)\<lparr>gate_windows := ws\<rparr>\<rparr>))"

definition rx_event :: "incoming_message \<Rightarrow> sink_event" where
  "rx_event m = Message_rx (transport_of m) (channel_idx_of m) (im_pubkey_prefix m) (length (im_text m))"

definition count_rx :: "incoming_message \<Rightarrow> runner \<Rightarrow> runner" where
  "count_rx m rn = runner_sink (rx_event m) rn"

text \<open>Replies to a channel message go to the send gate as channel packets.\<close>

definition send_chan_msgs :: "int \<Rightarrow> string list \<Rightarrow> runner \<Rightarrow> runner" where
  "send_chan_msgs channel_idx ts rn =
     rn\<lparr>rn_gate := fold (\<lambda>t g. snd (gate_submit (bs_config (rn_bot rn)) (chan_packet channel_idx t) g)) ts (rn_gate rn)\<rparr>"

definition on_channel_msg ::
  "real \<Rightarrow> real \<Rightarrow> contact_table \<Rightarrow> channel_payload \<Rightarrow> runner \<Rightarrow> (key_error + unit) \<times> runner" where
  "on_channel_msg now wall tbl pl rn =
     (let m = build_channel_message tbl pl
      in case observe_rx wall m rn of
           (Inl e, rn1) \<Rightarrow> (Inl e, rn1)
         | (Inr _, rn1) \<Rightarrow>
             let rn2 = rn1\<lparr>rn_gate := note_channel_rx now (rn_gate rn1)\<rparr>
             in case dispatch_channel m (rn_bot rn2) of
                  ((answered, replies), b) \<Rightarrow>
                    let rn3 = send_chan_msgs (im_channel_idx m) replies (rn2\<lparr>rn_bot := b\<rparr>)
                    in (Inr (), if answered then count_rx m rn3 else rn3))"

definition on_bots_channel_msg ::
  "real \<Rightarrow> real \<Rightarrow> real \<Rightarrow> contact_table \<Rightarrow> channel_payload \<Rightarrow> runner \<Rightarrow> (key_error + unit) \<times> runner" where
  "on_bots_channel_msg now mono_now wall tbl pl rn =
     (let m = build_channel_message tbl pl
      in case observe_rx wall m rn of
           (Inl e, rn1) \<Rightarrow> (Inl e, rn1)
         | (Inr _, rn1) \<Rightarrow>
             let rn2 = rn1\<lparr>rn_gate := note_channel_rx now (rn_gate rn1)\<rparr>
             in case dispatch_bots_channel mono_now m (rn_bot rn2) of
                  (answered, b) \<Rightarrow>
                    let rn3 = rn2\<lparr>rn_bot := b\<rparr>
                    in (Inr (), if answered then count_rx m rn3 else rn3))"

definition on_dm_msg :: "real \<Rightarrow> contact_table \<Rightarrow> string option \<Rightarrow> string option \<Rightarrow> runner \<Rightarrow> (key_error + unit) \<times> runner" where
  "on_dm_msg wall tbl pfx t rn =
     (let m = build_dm_message tbl pfx t
      in case observe_rx wall m rn of
           (Inl e, rn1) \<Rightarrow> (Inl e, rn1)
         | (Inr _, rn1) \<Rightarrow>
             let rn2 = count_rx m rn1
             in (Inr (), rn2\<lparr>rn_bot := dispatch_dm m (rn_bot rn2)\<rparr>))"

text \<open>
  \<open>MeshCoreRunner.start\<close>: what it does to the radio and to the bot, in order. \<open>Flushed\<close> carries the
  number of discarded messages.
\<close>

datatype start_action =
    Auto_update_contacts
  | Ensure_contacts
  | Flushed nat
  | Subscribe_channel int
  | Subscribe_bots_channel int
  | Subscribe_dm
  | Inject_senders
  | Start_poller
  | Start_fetching
  | Start_advertiser
  | Announce int string

definition STARTUP_MESSAGE :: string where
  "STARTUP_MESSAGE = ''Zork I is live - DM me !start to begin your private session. '' @
     ''Use !list, !watch, !help on this channel.''"

definition runner_start :: "bot_config \<Rightarrow> (nat \<Rightarrow> bool) \<Rightarrow> start_action list" where
  "runner_start cfg avail =
     [Auto_update_contacts, Ensure_contacts, Flushed (flush_pending_messages avail),
      Subscribe_channel (chan_index (channel cfg))] @
     (case (if bots_enabled cfg then bots_channel cfg else None) of
        None \<Rightarrow> [] | Some ch \<Rightarrow> [Subscribe_bots_channel (chan_index ch)]) @
     [Subscribe_dm, Inject_senders] @
     (if session_poll_seconds cfg \<le> 0 then [] else [Start_poller]) @
     [Start_fetching] @
     (if advert_enabled cfg then [Start_advertiser] else []) @
     (if announce_on_start cfg then [Announce (chan_index (channel cfg)) STARTUP_MESSAGE] else [])"

section \<open>The invariant of the gate\<close>

definition quiet_start :: "bot_config \<Rightarrow> real option \<Rightarrow> real option \<Rightarrow> real \<Rightarrow> bool" where
  "quiet_start cfg sent heard start \<longleftrightarrow>
     (case sent of None \<Rightarrow> True | Some l \<Rightarrow> l + send_spacing_seconds cfg \<le> start) \<and>
     (case heard of None \<Rightarrow> True | Some r \<Rightarrow> r + channel_rx_guard_seconds cfg \<le> start)"

lemma air_remaining_quiet:
  "air_remaining cfg now g \<le> 0 \<longleftrightarrow> quiet_start cfg (last_send_at g) (last_channel_rx_at g) now"
  by (auto simp: air_remaining_def deadlines_def quiet_start_def split: option.split)

definition gate_inv :: "bot_config \<Rightarrow> send_gate \<Rightarrow> bool" where
  "gate_inv cfg g \<longleftrightarrow>
     gate_accepted g = map tx_packet (tx_log g) @ gate_queue g \<and>
     int (length (gate_queue g)) \<le> max 0 (max_send_queue_depth cfg) \<and>
     last_send_at g = (if tx_log g = [] then None else Some (tx_end (last (tx_log g)))) \<and>
     successively (\<lambda>a b. tx_end a + send_spacing_seconds cfg \<le> tx_start b) (tx_log g) \<and>
     list_all (\<lambda>x. quiet_start cfg None (tx_heard x) (tx_start x)) (tx_log g) \<and>
     (case gate_phase g of
        Waiting \<Rightarrow> True
      | Sending start \<Rightarrow> gate_queue g \<noteq> [] \<and> quiet_start cfg (last_send_at g) (rx_at_start g) start)"

lemma tx_recorded_fields [simp]:
  "gate_queue (tx_recorded w pk r g) = gate_queue g" "gate_accepted (tx_recorded w pk r g) = gate_accepted g"
  "tx_log (tx_recorded w pk r g) = tx_log g"
  by (simp_all add: tx_recorded_def Let_def split: option.split)

lemma gate_inv_step:
  assumes "gate_inv cfg g"
  shows "gate_inv cfg (gate_step cfg ev g)"
proof (cases ev)
  case (Gate_send pk)
  then show ?thesis
    using assms by (auto simp: gate_inv_def gate_submit_def send_queue_depth_def split: gate_phase.splits)
next
  case (Gate_poll now)
  then show ?thesis
    using assms by (auto simp: gate_inv_def gate_poll_def air_remaining_quiet split: gate_phase.splits)
next
  case (Gate_finish now wall res)
  show ?thesis
  proof (cases "gate_phase g")
    case (Sending start)
    then obtain pk rest where q: "gate_queue g = pk # rest" using assms by (auto simp: gate_inv_def neq_Nil_conv)
    have "quiet_start cfg (last_send_at g) (rx_at_start g) start" using assms Sending by (auto simp: gate_inv_def)
    then show ?thesis
      using assms Gate_finish Sending q
      by (auto simp: gate_inv_def gate_finish_def successively_append_iff quiet_start_def split: if_splits option.splits)
  qed (use assms Gate_finish in \<open>simp add: gate_finish_def\<close>)
next
  case (Gate_heard now)
  then show ?thesis
    using assms by (auto simp: gate_inv_def note_channel_rx_def split: gate_phase.splits)
qed

lemma gate_inv_run: "gate_inv cfg (fold (gate_step cfg) evs (new_gate ws))"
proof -
  have "gate_inv cfg g \<Longrightarrow> gate_inv cfg (fold (gate_step cfg) evs g)" for g
    by (induction evs arbitrary: g) (simp_all add: gate_inv_step)
  moreover have "gate_inv cfg (new_gate ws)" by (simp add: gate_inv_def new_gate_def)
  ultimately show ?thesis by blast
qed

section \<open>Properties\<close>


text \<open>
  C17. The gate loses nothing it accepted and keeps the order: the packets accepted are those
  transmitted followed by those still queued. The queue never exceeds \<open>max_send_queue_depth\<close>, and a
  packet is refused exactly when the queue is that long; a refused packet changes only the event
  log, which records the drop (adverts are not recorded).
\<close>

theorem send_queue_bounded_fifo:
  fixes evs :: "gate_event list" and cfg :: bot_config and ws :: message_windows and pk :: packet
  defines "g \<equiv> fold (gate_step cfg) evs (new_gate ws)"
  shows "gate_accepted g = map tx_packet (tx_log g) @ gate_queue g \<and>
    int (length (gate_queue g)) \<le> max 0 (max_send_queue_depth cfg) \<and>
    (case gate_submit cfg pk g of (ok, g') \<Rightarrow>
       ok = (int (length (gate_queue g)) < max_send_queue_depth cfg) \<and>
       (if ok then gate_queue g' = gate_queue g @ [pk]
        else g' = g\<lparr>gate_sink := gate_sink g @ (if pk_record pk then [message_tx pk True None] else [])\<rparr>))"
  using gate_inv_run [of cfg evs ws]
  by (simp add: g_def gate_inv_def gate_submit_def send_queue_depth_def)



lemma channel_message_attribution:
  assumes "cp_text pl = Some (name @ '':'' @ t)" and "CHR '':'' \<notin> set name" and "strip name \<noteq> []"
    and "\<not> truthy (cp_pubkey_prefix pl)"
    and "by_name tbl (strip name) = Some c" and "map_of c ''public_key'' = Some key" and "key \<noteq> []"
  shows "im_pubkey_prefix (build_channel_message tbl pl) = Some (take 12 key) \<and>
    im_sender_name (build_channel_message tbl pl) = Some (strip name) \<and>
    im_text (build_channel_message tbl pl) = strip t \<and> \<not> im_is_dm (build_channel_message tbl pl)"
proof -
  have "takeWhile (\<lambda>c. c \<noteq> CHR '':'') (name @ '':'' @ t) = name"
    using assms(2) by (simp add: takeWhile_tail) (metis takeWhile_eq_all_conv)
  then have "partition_on CHR '':'' (name @ '':'' @ t) = (name, True, t)"
    by (simp add: partition_on_def)
  moreover have "c \<noteq> []" using assms(6) by auto
  ultimately show ?thesis
    using assms by (simp add: build_channel_message_def or_default_def truthy_def known_def Let_def)
qed

text \<open>
  The identity of a channel message is whatever name its text begins with: a message
  \<open>Name: text\<close> without key material is attributed to the contact of that name, with the first 12
  characters of that contact's key, whoever transmitted it.
\<close>

theorem channel_identity_is_typed_name:
  assumes "cp_text pl = Some (name @ '':'' @ t)" and "CHR '':'' \<notin> set name" and "strip name \<noteq> []"
    and "\<not> truthy (cp_pubkey_prefix pl)"
    and "by_name tbl (strip name) = Some c" and "map_of c ''public_key'' = Some key" and "key \<noteq> []"
  shows "im_pubkey_prefix (build_channel_message tbl pl) = Some (take 12 key) \<and>
    im_sender_name (build_channel_message tbl pl) = Some (strip name) \<and>
    im_text (build_channel_message tbl pl) = strip t \<and> \<not> im_is_dm (build_channel_message tbl pl)"
  using assms by (rule channel_message_attribution)

theorem channel_identity_is_typed_name_witness:
  "im_pubkey_prefix (build_channel_message
     \<lparr>by_name = \<lambda>n. if n = ''Ann'' then Some [(''public_key'', ''aabbccddeeff0011'')] else None, by_prefix = \<lambda>_. None\<rparr>
     \<lparr>cp_channel_idx = Some 1, cp_text = Some ''Ann: !start'', cp_pubkey_prefix = None\<rparr>) = Some ''aabbccddeeff''"
proof -
  have "strip ''Ann'' = ''Ann''" by code_simp
  then show ?thesis
    using channel_identity_is_typed_name [of "\<lparr>cp_channel_idx = Some 1, cp_text = Some ''Ann: !start'', cp_pubkey_prefix = None\<rparr>"
      "''Ann''" "'' !start''" "\<lparr>by_name = \<lambda>n. if n = ''Ann'' then Some [(''public_key'', ''aabbccddeeff0011'')] else None, by_prefix = \<lambda>_. None\<rparr>"
      "[(''public_key'', ''aabbccddeeff0011'')]" "''aabbccddeeff0011''"]
    by (simp add: truthy_def)
qed

text \<open>
  Enabling overwrite-oldest on the radio touches no other setting: if a configuration is written
  at all, it has the overwrite bit set and every other bit as the radio reported it, and it is
  written exactly when the radio answered and the bit was clear.
\<close>

theorem autoadd_sets_one_bit:
  "ensure_contacts_overwrite_oldest autoadd =
     (case autoadd of
        None \<Rightarrow> [Get_autoadd_config]
      | Some config \<Rightarrow>
          if bit (or_default config 0) 0 then [Get_autoadd_config]
          else [Get_autoadd_config, Set_autoadd_config (set_bit 0 (or_default config 0))])"
  by (auto simp: ensure_contacts_overwrite_oldest_def AUTOADD_OVERWRITE_OLDEST_def or_default_def set_bit_eq_or
      and_one_eq odd_iff_mod_2_eq_one bit_0 split: option.split)

lemma flush_loop_bounds:
  assumes "n \<le> MAX_FLUSH_MESSAGES" and "\<And>i. i < n \<Longrightarrow> avail i"
  shows "flush_loop avail n \<le> MAX_FLUSH_MESSAGES \<and> (\<forall>i < flush_loop avail n. avail i) \<and>
    (flush_loop avail n = MAX_FLUSH_MESSAGES \<or> \<not> avail (flush_loop avail n))"
  using assms
proof (induction avail n rule: flush_loop.induct)
  case (1 avail n)
  show ?case
  proof (cases "n < MAX_FLUSH_MESSAGES \<and> avail n")
    case True
    then have "avail i" if "i < n + 1" for i using that 1(3) by (cases "i = n") auto
    with True 1(1) show ?thesis by (simp add: flush_loop.simps [of avail n])
  next
    case False
    with 1(2,3) show ?thesis by (auto simp: flush_loop.simps [of avail n])
  qed
qed

text \<open>
  Statistics of received traffic: handling a channel message adds exactly one received-message
  entry if the bot answered it (the command was accepted, or refused with the pointer to the lobby)
  and none otherwise, and it always notes the time for the receive guard. Stated for a message that
  is handled without an exception.
\<close>

lemma channel_rx_counted_iff_answered:
  assumes "on_channel_msg now wall tbl pl rn = (Inr (), rn')" and "m = build_channel_message tbl pl"
    and "observe_rx wall m rn = (Inr (), rn1)"
  shows "bs_sink (rn_bot rn') = bs_sink (snd (dispatch_channel m (rn_bot rn1))) @
      (if fst (fst (dispatch_channel m (rn_bot rn1))) then [rx_event m] else []) \<and>
    last_channel_rx_at (rn_gate rn') = Some now"
proof -
  have gate: "last_channel_rx_at (fold (\<lambda>t g. snd (gate_submit cfg (chan_packet i t) g)) ts g) = last_channel_rx_at g" for cfg i ts g
    by (induction ts arbitrary: g) (simp_all add: gate_submit_def)
  show ?thesis
    using assms
    by (auto simp: on_channel_msg_def Let_def split_beta send_chan_msgs_def count_rx_def runner_sink_def sink_push_def
        note_channel_rx_def gate)
qed

text \<open>
  The startup flush always ends, after discarding at most 500 messages, and it discards exactly
  the backlog: every message it counted was there, and it stopped because the limit was reached or
  because the radio had no further message.
\<close>

theorem flush_outcome:
  "flush_pending_messages avail \<le> 500 \<and> list_all avail [0..<flush_pending_messages avail] \<and>
     (flush_pending_messages avail = 500 \<or> avail (flush_pending_messages avail) = False)"
  using flush_loop_bounds [of 0 avail]
  by (simp add: flush_pending_messages_def MAX_FLUSH_MESSAGES_def list_all_iff)

end
