(* ===== verification/Lifecycle.thy ===== *)
theory Lifecycle
  imports Runner
begin

text \<open>
  The life of the process: \<open>parse_args\<close> and \<open>run\<close> of \<^verbatim>\<open>src/zorkbot/src/zorkbot/cli.py\<close>, with
  \<open>start\<close>, \<open>stop\<close> and \<open>run_forever\<close> of the runner (\<^verbatim>\<open>runner.py\<close>).

  What these functions do to the outside and to the other components is a sequence of steps, each of
  which may raise. A \<open>task\<close> is a function of the fate of every step (what it raises, if anything, after
  a given history) and of the process so far; the history says for each step whether it succeeded.
  \<open>try: ... finally: ...\<close> is \<open>try_finally\<close>. Theorems hold for every fate.
\<close>

section \<open>Command line\<close>

record cli_args =
  arg_serial :: "string option"
  arg_ble :: "string option"
  arg_tcp :: "string option"
  arg_simulate :: bool
  arg_baudrate :: int
  arg_config :: "string option"
  arg_name :: "string option"

definition no_args :: cli_args where
  "no_args = \<lparr>arg_serial = None, arg_ble = None, arg_tcp = None, arg_simulate = False, arg_baudrate = 115200,
     arg_config = None, arg_name = None\<rparr>"

text \<open>
  The options as \<open>argparse\<close> has split them, in order; a repeated option overrides the earlier one. The four
  transports exclude each other and one of them is required: a usage error otherwise, as for an
  unknown option or a baud rate that is no number.
\<close>

definition transports_given :: "cli_args \<Rightarrow> nat" where
  "transports_given a =
     length (filter (\<lambda>b. b) [arg_serial a \<noteq> None, arg_ble a \<noteq> None, arg_tcp a \<noteq> None, arg_simulate a])"

fun parse_option :: "string \<times> string \<Rightarrow> cli_args \<Rightarrow> cli_args option" where
  "parse_option (opt, v) a =
     (if opt = ''--serial'' then Some (a\<lparr>arg_serial := Some v\<rparr>)
      else if opt = ''--ble'' then Some (a\<lparr>arg_ble := Some v\<rparr>)
      else if opt = ''--tcp'' then Some (a\<lparr>arg_tcp := Some v\<rparr>)
      else if opt = ''--simulate'' then Some (a\<lparr>arg_simulate := True\<rparr>)
      else if opt = ''--baudrate'' then map_option (\<lambda>n. a\<lparr>arg_baudrate := n\<rparr>) (parse_int v)
      else if opt = ''--config'' then Some (a\<lparr>arg_config := Some v\<rparr>)
      else if opt = ''--name'' then Some (a\<lparr>arg_name := Some v\<rparr>)
      else None)"

fun parse_options :: "(string \<times> string) list \<Rightarrow> cli_args \<Rightarrow> cli_args option" where
  "parse_options [] a = Some a"
| "parse_options (ov # ovs) a =
     (case parse_option ov a of
        None \<Rightarrow> None
      | Some a' \<Rightarrow> if transports_given a' \<le> 1 then parse_options ovs a' else None)"

definition parse_args :: "(string \<times> string) list \<Rightarrow> cli_args option" where
  "parse_args ovs =
     (case parse_options ovs no_args of
        None \<Rightarrow> None
      | Some a \<Rightarrow> if transports_given a = 1 then Some a else None)"

section \<open>Tasks\<close>

datatype failure = Raised py_error | System_exit string | Cancelled

datatype subscription = Channel_sub | Bots_sub | Dm_sub

datatype step =
    Set_log_level string
  | Make_console
  | Open_client
  | Close_client
  | Make_bot string
  | Start_console
  | Stop_console
  | Repl
  | Open_link connection
  | Device device_command
  | Close_link
  | Start_step start_action
  | Serve
  | Unsubscribe subscription
  | Stop_fetching
  | Stop_advertiser
  | Stop_bot

record process =
  history :: "(step \<times> bool) list"
  subscribed :: "subscription list"

type_synonym fates = "(step \<times> bool) list \<Rightarrow> step \<Rightarrow> failure option"
type_synonym 'a task = "fates \<Rightarrow> process \<Rightarrow> (failure + 'a) \<times> process"

definition done_with :: "'a \<Rightarrow> 'a task" where
  "done_with x = (\<lambda>fates p. (Inr x, p))"

definition fail_with :: "failure \<Rightarrow> 'a task" where
  "fail_with e = (\<lambda>fates p. (Inl e, p))"

definition perform :: "step \<Rightarrow> unit task" where
  "perform s = (\<lambda>fates p. case fates (history p) s of
     None \<Rightarrow> (Inr (), p\<lparr>history := history p @ [(s, True)]\<rparr>)
   | Some e \<Rightarrow> (Inl e, p\<lparr>history := history p @ [(s, False)]\<rparr>))"

definition and_then :: "'a task \<Rightarrow> ('a \<Rightarrow> 'b task) \<Rightarrow> 'b task" where
  "and_then m f = (\<lambda>fates p. case m fates p of (Inl e, p') \<Rightarrow> (Inl e, p') | (Inr x, p') \<Rightarrow> f x fates p')"

definition try_finally :: "'a task \<Rightarrow> unit task \<Rightarrow> 'a task" where
  "try_finally m cleanup = (\<lambda>fates p. case m fates p of
     (r, p') \<Rightarrow> (case cleanup fates p' of (Inl e, p'') \<Rightarrow> (Inl e, p'') | (Inr _, p'') \<Rightarrow> (r, p'')))"

fun perform_all :: "step list \<Rightarrow> unit task" where
  "perform_all [] = done_with ()"
| "perform_all (s # ss) = and_then (perform s) (\<lambda>_. perform_all ss)"

definition only_if :: "bool \<Rightarrow> unit task \<Rightarrow> unit task" where
  "only_if b m = (if b then m else done_with ())"

section \<open>The runner\<close>

text \<open>
  \<open>start\<close> remembers what it has subscribed. \<open>run_forever\<close> sleeps until it is cancelled, or until
  whatever else ends the task, and stops the runner only after a start that has succeeded.
\<close>

fun subscription_of :: "start_action \<Rightarrow> subscription option" where
  "subscription_of (Subscribe_channel i) = Some Channel_sub"
| "subscription_of (Subscribe_bots_channel i) = Some Bots_sub"
| "subscription_of Subscribe_dm = Some Dm_sub"
| "subscription_of a = None"

definition note_subscription :: "start_action \<Rightarrow> unit task" where
  "note_subscription a = (\<lambda>fates p. (Inr (), case subscription_of a of None \<Rightarrow> p | Some s \<Rightarrow> p\<lparr>subscribed := subscribed p @ [s]\<rparr>))"

fun start_actions :: "start_action list \<Rightarrow> unit task" where
  "start_actions [] = done_with ()"
| "start_actions (a # as) = and_then (perform (Start_step a)) (\<lambda>_. and_then (note_subscription a) (\<lambda>_. start_actions as))"

definition unsubscribe :: "subscription \<Rightarrow> unit task" where
  "unsubscribe s = (\<lambda>fates p. if s \<in> set (subscribed p)
     then and_then (perform (Unsubscribe s)) (\<lambda>_ fates p. (Inr (), p\<lparr>subscribed := removeAll s (subscribed p)\<rparr>)) fates p
     else (Inr (), p))"

definition runner_stop :: "unit task" where
  "runner_stop = and_then (unsubscribe Channel_sub) (\<lambda>_. and_then (unsubscribe Bots_sub) (\<lambda>_. and_then (unsubscribe Dm_sub) (\<lambda>_.
     perform_all [Stop_fetching, Stop_advertiser, Stop_bot])))"

definition serve :: "unit task" where
  "serve = (\<lambda>fates p. (Inl (case fates (history p) Serve of None \<Rightarrow> Cancelled | Some e \<Rightarrow> e), p\<lparr>history := history p @ [(Serve, False)]\<rparr>))"

definition run_forever :: "bot_config \<Rightarrow> (nat \<Rightarrow> bool) \<Rightarrow> unit task" where
  "run_forever cfg avail = and_then (start_actions (runner_start cfg avail)) (\<lambda>_. try_finally serve runner_stop)"

section \<open>\<open>run\<close>\<close>

text \<open>
  What the outside answers: the loaded configuration, the name the device reports, the device's
  auto-add setting and the messages in its backlog.
\<close>

record surroundings =
  loaded :: "failure + bot_config"
  device_name :: "string option"
  autoadd_answer :: "int option option"
  backlog_avail :: "nat \<Rightarrow> bool"

definition with_name :: "string option \<Rightarrow> bot_config \<Rightarrow> bot_config" where
  "with_name nm cfg = (if truthy nm then cfg\<lparr>bot_name := the nm\<rparr> else cfg)"

definition console_wanted :: "bot_config \<Rightarrow> bool" where
  "console_wanted cfg \<longleftrightarrow> ui_enabled (admin_ui cfg)"

definition shut_down :: "bot_config \<Rightarrow> unit task" where
  "shut_down cfg = and_then (perform Stop_bot) (\<lambda>_. only_if (console_wanted cfg) (perform Stop_console))"

definition simulate :: "bot_config \<Rightarrow> unit task" where
  "simulate cfg = and_then (perform (Make_bot (bot_name cfg))) (\<lambda>_.
     and_then (only_if (console_wanted cfg) (perform Start_console)) (\<lambda>_. try_finally (perform Repl) (shut_down cfg)))"

definition named_config :: "bot_config \<Rightarrow> string option \<Rightarrow> bot_config task" where
  "named_config cfg dev =
     (if bot_name cfg \<noteq> [] then done_with cfg
      else if truthy dev then done_with (cfg\<lparr>bot_name := the dev\<rparr>)
      else fail_with (System_exit ''could not determine bot name; set name in config or --name''))"

definition serve_radio :: "bot_config \<Rightarrow> surroundings \<Rightarrow> unit task" where
  "serve_radio cfg0 out = and_then (perform_all (map Device (apply_settings cfg0 (autoadd_answer out)))) (\<lambda>_.
     and_then (named_config cfg0 (device_name out)) (\<lambda>cfg.
     and_then (perform (Make_bot (bot_name cfg))) (\<lambda>_.
     and_then (only_if (console_wanted cfg) (perform Start_console)) (\<lambda>_.
     try_finally (run_forever cfg (backlog_avail out)) (shut_down cfg)))))"

definition radio :: "cli_args \<Rightarrow> bot_config \<Rightarrow> surroundings \<Rightarrow> unit task" where
  "radio args cfg out =
     (case connect (arg_serial args) (arg_baudrate args) (arg_ble args) (arg_tcp args) of
        Inl e \<Rightarrow> fail_with (Raised e)
      | Inr c \<Rightarrow> and_then (perform (Open_link c)) (\<lambda>_. try_finally (serve_radio cfg out) (perform Close_link)))"

definition cli_run :: "cli_args \<Rightarrow> surroundings \<Rightarrow> unit task" where
  "cli_run args out =
     (case loaded out of
        Inl e \<Rightarrow> fail_with e
      | Inr cfg0 \<Rightarrow>
          let cfg = with_name (arg_name args) cfg0
          in and_then (only_if (truthy (log_level cfg0)) (perform (Set_log_level (the (log_level cfg0))))) (\<lambda>_.
             and_then (only_if (console_wanted cfg) (perform Make_console)) (\<lambda>_.
             and_then (perform Open_client) (\<lambda>_.
             try_finally (if arg_simulate args then simulate cfg else radio args cfg out) (perform Close_client)))))"

definition new_process :: process where
  "new_process = \<lparr>history = [], subscribed = []\<rparr>"

section \<open>Reasoning about tasks\<close>

text \<open>
  \<open>runs fates P m Q R\<close>: from a process with \<open>P\<close>, the task returns \<open>x\<close> in one with \<open>Q x\<close>, or raises in one
  with \<open>R\<close>.
\<close>

definition runs ::
  "fates \<Rightarrow> (process \<Rightarrow> bool) \<Rightarrow> 'a task \<Rightarrow> ('a \<Rightarrow> process \<Rightarrow> bool) \<Rightarrow> (process \<Rightarrow> bool) \<Rightarrow> bool" where
  "runs fates P m Q R \<longleftrightarrow> (\<forall>p. P p \<longrightarrow> (case m fates p of (Inl e, p') \<Rightarrow> R p' | (Inr x, p') \<Rightarrow> Q x p'))"

lemma runsI: "(\<And>p. P p \<Longrightarrow> case m fates p of (Inl e, p') \<Rightarrow> R p' | (Inr x, p') \<Rightarrow> Q x p') \<Longrightarrow> runs fates P m Q R"
  by (simp add: runs_def)

lemma runsE:
  assumes "runs fates P m Q R" and "P p"
  obtains e p' where "m fates p = (Inl e, p')" "R p'" | x p' where "m fates p = (Inr x, p')" "Q x p'"
proof (cases "m fates p")
  case (Pair r p')
  with assms that show ?thesis by (cases r) (auto simp: runs_def)
qed

lemma runs_weaken:
  assumes "runs fates P m Q R" and "\<And>x p. Q x p \<Longrightarrow> Q' x p" and "\<And>p. R p \<Longrightarrow> R' p"
  shows "runs fates P m Q' R'"
proof (rule runsI)
  fix p assume "P p"
  with assms(1) show "case m fates p of (Inl e, p') \<Rightarrow> R' p' | (Inr x, p') \<Rightarrow> Q' x p'"
    by (cases rule: runsE) (auto intro: assms(2,3))
qed

lemma runs_done: "(\<And>p. P p \<Longrightarrow> Q x p) \<Longrightarrow> runs fates P (done_with x) Q R"
  by (simp add: runs_def done_with_def)

lemma runs_fail: "(\<And>p. P p \<Longrightarrow> R p) \<Longrightarrow> runs fates P (fail_with e) Q R"
  by (simp add: runs_def fail_with_def)

lemma runs_and_then:
  assumes "runs fates P m Q R" and "\<And>x. runs fates (Q x) (f x) S R"
  shows "runs fates P (and_then m f) S R"
proof (rule runsI)
  fix p assume "P p"
  with assms(1) show "case and_then m f fates p of (Inl e, p') \<Rightarrow> R p' | (Inr x, p') \<Rightarrow> S x p'"
  proof (cases rule: runsE)
    case (2 x p')
    then show ?thesis using assms(2) [of x] by (auto simp: and_then_def runs_def)
  qed (simp add: and_then_def)
qed

lemma runs_try_finally:
  assumes "runs fates P m (\<lambda>_. Q) Q" and "runs fates Q cleanup (\<lambda>_. R) R"
  shows "runs fates P (try_finally m cleanup) (\<lambda>_. R) R"
proof (rule runsI)
  fix p assume "P p"
  have after: "Q p' \<Longrightarrow> R (snd (cleanup fates p'))" for p'
    using assms(2) by (auto elim: runsE)
  have "Q (snd (m fates p))" using assms(1) \<open>P p\<close> by (auto elim: runsE)
  then have "R (snd (try_finally m cleanup fates p))"
    using after by (simp add: try_finally_def split: prod.split sum.split) (metis snd_conv)
  then show "case try_finally m cleanup fates p of (Inl e, p') \<Rightarrow> R p' | (Inr x, p') \<Rightarrow> R p'"
    by (cases "try_finally m cleanup fates p") (simp split: sum.split)
qed

lemma runs_only_if: "(b \<Longrightarrow> runs fates P m (\<lambda>_. Q) R) \<Longrightarrow> (\<And>p. \<not> b \<Longrightarrow> P p \<Longrightarrow> Q p) \<Longrightarrow> runs fates P (only_if b m) (\<lambda>_. Q) R"
  by (simp add: only_if_def runs_done)

section \<open>What is held\<close>

text \<open>
  The discipline of a run: the client, the link and the console are acquired in this order and given
  back in the reverse one; the device, the runner and the bot are used under an open link; the
  console and the link are given back only when the bot that used them has stopped. The state is the
  stack of what is held and whether the bot is at work; \<open>None\<close> is a violation.
\<close>

datatype holding = Client | Link | Console

definition close_top :: "holding \<Rightarrow> holding list \<times> bool \<Rightarrow> (holding list \<times> bool) option" where
  "close_top x s = (case s of (y # ys, False) \<Rightarrow> if x = y then Some (ys, False) else None | _ \<Rightarrow> None)"

fun track :: "step \<times> bool \<Rightarrow> holding list \<times> bool \<Rightarrow> (holding list \<times> bool) option" where
  "track (Open_client, ok) (st, busy) = (if st = [] \<and> \<not> busy then Some (if ok then ([Client], False) else ([], False)) else None)"
| "track (Open_link c, ok) (st, busy) = (if st = [Client] \<and> \<not> busy then Some (if ok then (Link # st, False) else (st, False)) else None)"
| "track (Start_console, ok) (st, busy) =
     (if Client \<in> set st \<and> Console \<notin> set st \<and> \<not> busy then Some (if ok then (Console # st, False) else (st, False)) else None)"
| "track (Close_client, ok) s = close_top Client s"
| "track (Close_link, ok) s = close_top Link s"
| "track (Stop_console, ok) s = close_top Console s"
| "track (Device d, ok) (st, busy) = (if hd st = Link \<and> \<not> busy then Some (st, busy) else None)"
| "track (Start_step a, ok) (st, busy) = (if Link \<in> set st then Some (st, True) else None)"
| "track (Serve, ok) (st, busy) = (if Link \<in> set st then Some (st, True) else None)"
| "track (Unsubscribe x, ok) (st, busy) = (if Link \<in> set st then Some (st, busy) else None)"
| "track (Stop_fetching, ok) (st, busy) = (if Link \<in> set st then Some (st, busy) else None)"
| "track (Stop_advertiser, ok) (st, busy) = (if Link \<in> set st then Some (st, busy) else None)"
| "track (Repl, ok) (st, busy) = (if Link \<notin> set st then Some (st, True) else None)"
| "track (Stop_bot, ok) (st, busy) = Some (st, if ok then False else busy)"
| "track (s, ok) (st, busy) = (if busy then None else Some (st, busy))"

fun tracked :: "(step \<times> bool) list \<Rightarrow> holding list \<times> bool \<Rightarrow> (holding list \<times> bool) option" where
  "tracked [] s = Some s"
| "tracked (x # xs) s = (case track x s of None \<Rightarrow> None | Some s' \<Rightarrow> tracked xs s')"

lemma tracked_snoc: "tracked (xs @ [x]) s = (case tracked xs s of None \<Rightarrow> None | Some s' \<Rightarrow> track x s')"
  by (induction xs arbitrary: s) (auto split: option.split)

definition holds :: "holding list \<Rightarrow> bool \<Rightarrow> process \<Rightarrow> bool" where
  "holds st busy p \<longleftrightarrow> tracked (history p) ([], False) = Some (st, busy)"

definition at_work :: "holding list \<Rightarrow> process \<Rightarrow> bool" where
  "at_work st p \<longleftrightarrow> holds st True p \<or> holds st False p"

lemma runs_perform:
  assumes "track (s, True) (st, busy) = Some (st', busy')" and "track (s, False) (st, busy) = Some (st'', busy'')"
  shows "runs fates (holds st busy) (perform s) (\<lambda>_. holds st' busy') (holds st'' busy'')"
  using assms by (auto simp: runs_def perform_def holds_def tracked_snoc split: option.split)

text \<open>A step of the runner, or of its stop, from wherever the bot is.\<close>

definition radio_step :: "step \<Rightarrow> bool" where
  "radio_step s \<longleftrightarrow> (\<forall>ok st busy. Link \<in> set st \<longrightarrow> (\<exists>busy'. track (s, ok) (st, busy) = Some (st, busy')))"

lemma runs_radio_step: "radio_step s \<Longrightarrow> Link \<in> set st \<Longrightarrow> runs fates (at_work st) (perform s) (\<lambda>_. at_work st) (at_work st)"
  unfolding runs_def perform_def at_work_def holds_def radio_step_def
  by (auto simp: tracked_snoc split: option.split) (metis (full_types))+

lemma radio_steps [simp]: "radio_step (Start_step a)" "radio_step Serve" "radio_step (Unsubscribe x)" "radio_step Stop_fetching"
  "radio_step Stop_advertiser" "radio_step Stop_bot"
  by (auto simp: radio_step_def)

lemma runs_radio_steps:
  "list_all radio_step ss \<Longrightarrow> Link \<in> set st \<Longrightarrow> runs fates (at_work st) (perform_all ss) (\<lambda>_. at_work st) (at_work st)"
  by (induction ss) (auto intro!: runs_done runs_and_then runs_radio_step)

lemma runs_start: "Link \<in> set st \<Longrightarrow> runs fates (at_work st) (start_actions as) (\<lambda>_. at_work st) (at_work st)"
proof (induction as)
  case (Cons a as)
  have "runs fates (at_work st) (note_subscription a) (\<lambda>_. at_work st) (at_work st)"
    by (auto simp: runs_def note_subscription_def at_work_def holds_def split: option.split)
  with Cons show ?case by (auto intro!: runs_and_then runs_radio_step)
qed (auto intro!: runs_done)

lemma runs_unsubscribe: "Link \<in> set st \<Longrightarrow> runs fates (at_work st) (unsubscribe x) (\<lambda>_. at_work st) (at_work st)"
proof -
  assume "Link \<in> set st"
  then have "runs fates (at_work st) (perform (Unsubscribe x)) (\<lambda>_. at_work st) (at_work st)" by (rule runs_radio_step [OF radio_steps(3)])
  then have "runs fates (at_work st) (and_then (perform (Unsubscribe x)) (\<lambda>_ fates p. (Inr (), p\<lparr>subscribed := removeAll x (subscribed p)\<rparr>)))
      (\<lambda>_. at_work st) (at_work st)"
    by (rule runs_and_then) (simp add: runs_def at_work_def holds_def)
  then show ?thesis by (simp add: runs_def unsubscribe_def)
qed

lemma runs_forever: "Link \<in> set st \<Longrightarrow> runs fates (at_work st) (run_forever cfg avail) (\<lambda>_. at_work st) (at_work st)"
proof -
  assume link: "Link \<in> set st"
  have "runs fates (at_work st) serve (\<lambda>_. at_work st) (at_work st)"
    using link by (auto simp: runs_def serve_def at_work_def holds_def tracked_snoc)
  moreover have "runs fates (at_work st) runner_stop (\<lambda>_. at_work st) (at_work st)"
    unfolding runner_stop_def by (intro runs_and_then [OF runs_unsubscribe] runs_radio_steps link) simp
  ultimately show ?thesis
    unfolding run_forever_def by (intro runs_and_then [OF runs_start] runs_try_finally link)
qed

section \<open>The whole run\<close>

definition with_console :: "bot_config \<Rightarrow> holding list \<Rightarrow> holding list" where
  "with_console cfg st = (if console_wanted cfg then Console # st else st)"

text \<open>Stopping the bot does not itself raise.\<close>

definition stops_cleanly :: "fates \<Rightarrow> bool" where
  "stops_cleanly fates \<longleftrightarrow> (\<forall>h. fates h Stop_bot = None)"

lemma runs_start_console:
  assumes "Client \<in> set st" and "Console \<notin> set st"
  shows "runs fates (holds st False) (only_if (console_wanted cfg) (perform Start_console))
    (\<lambda>_. holds (with_console cfg st) False) (holds st False)"
  using assms by (intro runs_only_if runs_perform) (simp_all add: with_console_def)

lemma runs_shut_down:
  assumes "stops_cleanly fates"
  shows "runs fates (at_work (with_console cfg st)) (shut_down cfg) (\<lambda>_. holds st False) (holds st False)"
  unfolding shut_down_def
proof (rule runs_and_then [where Q = "\<lambda>_. holds (with_console cfg st) False"])
  show "runs fates (at_work (with_console cfg st)) (perform Stop_bot) (\<lambda>_. holds (with_console cfg st) False) (holds st False)"
    using assms by (auto simp: stops_cleanly_def runs_def perform_def at_work_def holds_def tracked_snoc)
  show "runs fates (holds (with_console cfg st) False) (only_if (console_wanted cfg) (perform Stop_console))
      (\<lambda>_. holds st False) (holds st False)"
    by (intro runs_only_if runs_perform) (simp_all add: with_console_def close_top_def)
qed

lemma runs_simulate:
  assumes "stops_cleanly fates"
  shows "runs fates (holds [Client] False) (simulate cfg) (\<lambda>_. holds [Client] False) (holds [Client] False)"
proof -
  have repl: "runs fates (holds (with_console cfg [Client]) False) (perform Repl)
      (\<lambda>_. at_work (with_console cfg [Client])) (at_work (with_console cfg [Client]))"
    by (cases "console_wanted cfg"; rule runs_weaken [OF runs_perform]) (auto simp: at_work_def with_console_def)
  have "runs fates (holds [Client] False) (perform (Make_bot n)) (\<lambda>_. holds [Client] False) (holds [Client] False)" for n
    by (intro runs_perform) simp_all
  then show ?thesis
    unfolding simulate_def
    by (intro runs_and_then [OF _ runs_and_then [OF runs_start_console runs_try_finally [OF repl runs_shut_down [OF assms]]]]) simp_all
qed

lemma runs_devices:
  "runs fates (holds [Link, Client] False) (perform_all (map Device ds)) (\<lambda>_. holds [Link, Client] False) (holds [Link, Client] False)"
  by (induction ds) (auto intro!: runs_done runs_and_then runs_perform)

lemma runs_serve_radio:
  assumes "stops_cleanly fates"
  shows "runs fates (holds [Link, Client] False) (serve_radio cfg out) (\<lambda>_. holds [Link, Client] False) (holds [Link, Client] False)"
proof -
  have name: "runs fates (holds [Link, Client] False) (named_config cfg dev) (\<lambda>_. holds [Link, Client] False) (holds [Link, Client] False)"
    for dev by (simp add: named_config_def runs_done runs_fail)
  have bot: "runs fates (holds [Link, Client] False) (perform (Make_bot n)) (\<lambda>_. holds [Link, Client] False) (holds [Link, Client] False)"
    for n by (intro runs_perform) simp_all
  have serve: "runs fates (holds (with_console c [Link, Client]) False) (run_forever c (backlog_avail out))
      (\<lambda>_. at_work (with_console c [Link, Client])) (at_work (with_console c [Link, Client]))" for c
    using runs_forever [of "with_console c [Link, Client]" fates c "backlog_avail out"]
    by (auto simp: runs_def at_work_def with_console_def)
  show ?thesis
    unfolding serve_radio_def
    by (rule runs_and_then [OF runs_devices], rule runs_and_then [OF name], rule runs_and_then [OF bot],
        rule runs_and_then [OF runs_start_console]) (simp_all add: runs_try_finally [OF serve runs_shut_down [OF assms]])
qed

lemma runs_radio:
  assumes "stops_cleanly fates"
  shows "runs fates (holds [Client] False) (radio args cfg out) (\<lambda>_. holds [Client] False) (holds [Client] False)"
proof -
  have "runs fates (holds [Link, Client] False) (perform Close_link) (\<lambda>_. holds [Client] False) (holds [Client] False)"
    by (intro runs_perform) (simp_all add: close_top_def)
  then have session: "runs fates (holds [Link, Client] False) (try_finally (serve_radio cfg out) (perform Close_link))
      (\<lambda>_. holds [Client] False) (holds [Client] False)"
    by (rule runs_try_finally [OF runs_serve_radio [OF assms]])
  have "runs fates (holds [Client] False) (perform (Open_link c)) (\<lambda>_. holds [Link, Client] False) (holds [Client] False)" for c
    by (intro runs_perform) simp_all
  from runs_and_then [OF this session] show ?thesis
    by (simp add: radio_def runs_fail split: sum.split)
qed

lemma runs_cli:
  assumes "stops_cleanly fates"
  shows "runs fates (holds [] False) (cli_run args out) (\<lambda>_. holds [] False) (holds [] False)"
proof -
  have keep: "runs fates (holds [] False) (perform s) (\<lambda>_. holds [] False) (holds [] False)"
    if "s = Make_console \<or> (\<exists>l. s = Set_log_level l)" for s
    using that by (auto intro!: runs_perform)
  have body: "runs fates (holds [Client] False) (if arg_simulate args then simulate cfg else radio args cfg out)
      (\<lambda>_. holds [Client] False) (holds [Client] False)" for cfg
    using runs_simulate [OF assms] runs_radio [OF assms] by simp
  have close: "runs fates (holds [Client] False) (perform Close_client) (\<lambda>_. holds [] False) (holds [] False)"
    by (intro runs_perform) (simp_all add: close_top_def)
  have "runs fates (holds [] False) (perform Open_client) (\<lambda>_. holds [Client] False) (holds [] False)"
    by (intro runs_perform) simp_all
  note client = runs_and_then [OF this runs_try_finally [OF body close]]
  have "runs fates (holds [] False) (only_if b (perform s)) (\<lambda>_. holds [] False) (holds [] False)"
    if "s = Make_console \<or> (\<exists>l. s = Set_log_level l)" for b s
    by (intro runs_only_if keep that)
  note steps = this
  show ?thesis
  proof (cases "loaded out")
    case (Inr cfg0)
    show ?thesis
      unfolding cli_run_def Inr sum.case Let_def
      by (rule runs_and_then [OF steps], simp, rule runs_and_then [OF steps], simp, rule client)
  qed (simp add: cli_run_def runs_fail)
qed


definition demo_out :: surroundings where
  "demo_out = \<lparr>loaded = Inr (default_config\<lparr>admin_ui := default_admin_ui\<lparr>ui_enabled := True\<rparr>\<rparr>), device_name = None,
     autoadd_answer = Some (Some 1), backlog_avail = (\<lambda>n. n < 2)\<rparr>"

lemma no_backlog_left: "flush_pending_messages (\<lambda>n. n < 2) = 2"
  by (simp add: flush_pending_messages_def flush_loop.simps MAX_FLUSH_MESSAGES_def)


section \<open>Names, transports, subscriptions\<close>

definition only_steps :: "(step \<Rightarrow> bool) \<Rightarrow> process \<Rightarrow> bool" where
  "only_steps S p \<longleftrightarrow> list_all (\<lambda>(s, ok). S s) (history p)"

lemma only_perform: "S s \<Longrightarrow> runs fates (only_steps S) (perform s) (\<lambda>_. only_steps S) (only_steps S)"
  by (auto simp: runs_def perform_def only_steps_def split: option.split)

lemma only_perform_all: "list_all S ss \<Longrightarrow> runs fates (only_steps S) (perform_all ss) (\<lambda>_. only_steps S) (only_steps S)"
  by (induction ss) (auto intro!: runs_done runs_and_then only_perform)

lemma only_start: "(\<And>a. S (Start_step a)) \<Longrightarrow> runs fates (only_steps S) (start_actions as) (\<lambda>_. only_steps S) (only_steps S)"
proof (induction as)
  case (Cons a as)
  have "runs fates (only_steps S) (note_subscription a) (\<lambda>_. only_steps S) (only_steps S)"
    by (auto simp: runs_def note_subscription_def only_steps_def split: option.split)
  with Cons show ?case by (auto intro!: runs_and_then only_perform)
qed (auto intro!: runs_done)

lemma only_unsubscribe: "S (Unsubscribe x) \<Longrightarrow> runs fates (only_steps S) (unsubscribe x) (\<lambda>_. only_steps S) (only_steps S)"
proof -
  assume unsub: "S (Unsubscribe x)"
  have "runs fates (only_steps S) (perform (Unsubscribe x)) (\<lambda>_. only_steps S) (only_steps S)"
    using unsub by (rule only_perform)
  then have "runs fates (only_steps S) (and_then (perform (Unsubscribe x)) (\<lambda>_ fates p. (Inr (), p\<lparr>subscribed := removeAll x (subscribed p)\<rparr>)))
      (\<lambda>_. only_steps S) (only_steps S)"
    by (rule runs_and_then) (simp add: runs_def only_steps_def)
  then show ?thesis by (simp add: runs_def unsubscribe_def)
qed

text \<open>Every step but the making of the bot.\<close>

definition bot_named :: "(string \<Rightarrow> bool) \<Rightarrow> step \<Rightarrow> bool" where
  "bot_named N s = (case s of Make_bot n \<Rightarrow> N n | _ \<Rightarrow> True)"

lemma named_forever: "runs fates (only_steps (bot_named N)) (run_forever cfg avail) (\<lambda>_. only_steps (bot_named N)) (only_steps (bot_named N))"
proof -
  have "runs fates (only_steps (bot_named N)) serve (\<lambda>_. only_steps (bot_named N)) (only_steps (bot_named N))"
    by (auto simp: runs_def serve_def only_steps_def bot_named_def)
  moreover have "runs fates (only_steps (bot_named N)) runner_stop (\<lambda>_. only_steps (bot_named N)) (only_steps (bot_named N))"
    unfolding runner_stop_def by (intro runs_and_then [OF only_unsubscribe] only_perform_all) (simp_all add: bot_named_def)
  ultimately show ?thesis
    unfolding run_forever_def by (intro runs_and_then [OF only_start] runs_try_finally) (simp add: bot_named_def)
qed

lemma named_shut_down: "runs fates (only_steps (bot_named N)) (shut_down cfg) (\<lambda>_. only_steps (bot_named N)) (only_steps (bot_named N))"
  unfolding shut_down_def by (intro runs_and_then [OF only_perform] runs_only_if only_perform) (simp_all add: bot_named_def)

lemma named_console:
  "runs fates (only_steps (bot_named N)) (only_if b (perform Start_console)) (\<lambda>_. only_steps (bot_named N)) (only_steps (bot_named N))"
  by (intro runs_only_if only_perform) (simp_all add: bot_named_def)

lemma named_simulate:
  assumes "N (bot_name cfg)"
  shows "runs fates (only_steps (bot_named N)) (simulate cfg) (\<lambda>_. only_steps (bot_named N)) (only_steps (bot_named N))"
  unfolding simulate_def
  by (intro runs_and_then [OF only_perform] runs_and_then [OF named_console] runs_try_finally [OF only_perform] named_shut_down)
    (simp_all add: bot_named_def assms)

lemma named_radio:
  assumes "bot_name cfg \<noteq> [] \<Longrightarrow> N (bot_name cfg)" and "\<And>d. bot_name cfg = [] \<Longrightarrow> device_name out = Some d \<Longrightarrow> d \<noteq> [] \<Longrightarrow> N d"
  shows "runs fates (only_steps (bot_named N)) (radio args cfg out) (\<lambda>_. only_steps (bot_named N)) (only_steps (bot_named N))"
proof -
  let ?I = "only_steps (bot_named N)"
  have name: "runs fates ?I (named_config cfg (device_name out)) (\<lambda>c p. ?I p \<and> N (bot_name c)) ?I"
    using assms by (auto simp: named_config_def truthy_def intro!: runs_done runs_fail split: option.splits)
  have bot: "runs fates (\<lambda>p. ?I p \<and> N (bot_name c)) (perform (Make_bot (bot_name c))) (\<lambda>_. ?I) ?I" for c
    by (auto simp: runs_def perform_def only_steps_def bot_named_def split: option.split)
  have "runs fates ?I (serve_radio cfg out) (\<lambda>_. ?I) ?I"
    unfolding serve_radio_def
    by (intro runs_and_then [OF only_perform_all] runs_and_then [OF name] runs_and_then [OF bot] runs_and_then [OF named_console]
        runs_try_finally [OF named_forever named_shut_down]) (simp add: list_all_iff bot_named_def)
  then show ?thesis
    unfolding radio_def
    by (auto split: sum.split intro!: runs_fail runs_and_then [OF only_perform] runs_try_finally only_perform)
      (simp_all add: bot_named_def)
qed

text \<open>
  The bot is made with the name given on the command line if there is one, with the configured name
  otherwise; on a radio an empty name gives way to the device's own, and no bot is ever made there
  without a name.
\<close>

theorem bot_made_with_name:
  assumes "loaded out = Inr cfg0" and "(Make_bot n, ok) \<in> set (history (snd (cli_run args out fates new_process)))"
  shows "if truthy (arg_name args) then n = the (arg_name args)
    else if bot_name cfg0 \<noteq> [] then n = bot_name cfg0
    else if arg_simulate args then n = [] else Some n = device_name out \<and> n \<noteq> []"
proof -
  define cfg where "cfg = with_name (arg_name args) cfg0"
  define N where "N m = (if bot_name cfg = [] \<and> \<not> arg_simulate args then Some m = device_name out \<and> m \<noteq> [] else m = bot_name cfg)" for m
  let ?I = "only_steps (bot_named N)"
  have skip: "runs fates ?I (only_if b (perform s)) (\<lambda>_. ?I) ?I" if "s = Make_console \<or> (\<exists>l. s = Set_log_level l)" for b s
    using that by (auto simp: bot_named_def intro!: runs_only_if only_perform)
  have body: "runs fates ?I (if arg_simulate args then simulate cfg else radio args cfg out) (\<lambda>_. ?I) ?I"
    using named_simulate [of N cfg fates] named_radio [of cfg N out fates args] by (auto simp: N_def)
  have ends: "runs fates ?I (perform s) (\<lambda>_. ?I) ?I" if "s = Open_client \<or> s = Close_client" for s
    using that by (auto simp: bot_named_def intro!: only_perform)
  have "runs fates ?I (cli_run args out) (\<lambda>_. ?I) ?I"
    unfolding cli_run_def assms(1) sum.case Let_def cfg_def [symmetric]
    by (rule runs_and_then [OF skip], simp, rule runs_and_then [OF skip], simp, rule runs_and_then [OF ends], simp,
        rule runs_try_finally [OF body ends]) simp
  moreover have "?I new_process" by (simp add: only_steps_def new_process_def)
  ultimately have "?I (snd (cli_run args out fates new_process))"
    by (cases "cli_run args out fates new_process"; cases "fst (cli_run args out fates new_process)") (auto simp: runs_def)
  then have "N n" using assms(2) by (auto simp: only_steps_def list_all_iff bot_named_def)
  then show ?thesis by (cases "arg_name args") (auto simp: N_def cfg_def with_name_def truthy_def split: if_splits)
qed

theorem bot_made_with_name_witness:
  "case cli_run (no_args\<lparr>arg_simulate := True, arg_name := Some ''zed''\<rparr>) demo_out (\<lambda>_ _. None) new_process of
    (r, p) \<Rightarrow> r = Inr () \<and> (Make_bot ''zed'', True) \<in> set (history p)"
proof -
  let ?run = "cli_run (no_args\<lparr>arg_simulate := True, arg_name := Some ''zed''\<rparr>) demo_out (\<lambda>_ _. None) new_process"
  have "\<exists>n. (Make_bot n, True) \<in> set (history (snd ?run)) \<and> fst ?run = Inr ()"
    by (simp add: cli_run_def demo_out_def default_config_def default_admin_ui_def only_if_def console_wanted_def and_then_def
        done_with_def perform_def try_finally_def no_args_def with_name_def simulate_def new_process_def shut_down_def truthy_def Let_def)
  then obtain n where n: "(Make_bot n, True) \<in> set (history (snd ?run))" "fst ?run = Inr ()" by blast
  have "loaded demo_out = Inr (default_config\<lparr>admin_ui := default_admin_ui\<lparr>ui_enabled := True\<rparr>\<rparr>)" by (simp add: demo_out_def)
  from bot_made_with_name [OF this n(1)] n show ?thesis by (simp add: truthy_def case_prod_beta)
qed

lemma transports_ok: "parse_options ovs a = Some b \<Longrightarrow> transports_given a \<le> 1 \<Longrightarrow> transports_given b \<le> 1"
  by (induction ovs arbitrary: a) (auto split: option.splits if_splits)

text \<open>
  What the parser accepts names exactly one transport: with \<open>--simulate\<close> no device is given, and without it
  connecting cannot fail for the number of transports unless the one given is an empty string.
\<close>

theorem accepted_args_name_one_transport:
  assumes "parse_args ovs = Some a"
  shows "if arg_simulate a then arg_serial a = None \<and> arg_ble a = None \<and> arg_tcp a = None
    else (\<exists>x. mset [arg_serial a, arg_ble a, arg_tcp a] = {#Some x, None, None#} \<and>
      (connect (arg_serial a) (arg_baudrate a) (arg_ble a) (arg_tcp a) =
         Inl (ValueError ''specify exactly one of serial, ble, or tcp'')) = (x = []))"
proof -
  have "transports_given a = 1" using assms by (auto simp: parse_args_def split: option.splits if_splits)
  then show ?thesis
    by (cases "arg_simulate a"; cases "arg_serial a"; cases "arg_ble a"; cases "arg_tcp a")
      (auto simp: transports_given_def connect_def truthy_def add_mset_commute split: prod.split option.split)
qed

theorem accepted_args_name_one_transport_witness:
  "parse_args [(''--tcp'', ''10.0.0.7:5000''), (''--name'', ''zed'')] = Some (no_args\<lparr>arg_tcp := Some ''10.0.0.7:5000'', arg_name := Some ''zed''\<rparr>) \<and>
   (\<exists>x. mset [None, None, Some ''10.0.0.7:5000''] = {#Some x, None, None#} \<and> x \<noteq> [])"
proof -
  have "parse_args [(''--tcp'', ''10.0.0.7:5000''), (''--name'', ''zed'')] = Some (no_args\<lparr>arg_tcp := Some ''10.0.0.7:5000'', arg_name := Some ''zed''\<rparr>)"
    by (simp add: parse_args_def no_args_def transports_given_def)
  from accepted_args_name_one_transport [OF this] this show ?thesis by (auto simp: no_args_def)
qed

text \<open>
  A runner that has started leaves nothing subscribed when it ends, unless an \<open>unsubscribe\<close> raises; a
  start that fails half-way is outside the \<open>try\<close>, and leaves behind what it had subscribed.
\<close>

lemma unsubscribed:
  assumes "\<And>h x. fates h (Unsubscribe x) = None"
  shows "fst (unsubscribe s fates p) = Inr () \<and> subscribed (snd (unsubscribe s fates p)) = removeAll s (subscribed p)"
  using assms by (simp add: unsubscribe_def and_then_def perform_def removeAll_id)

lemma perform_all_subscribed: "subscribed (snd (perform_all ss fates p)) = subscribed p"
  by (induction ss arbitrary: p) (simp_all add: done_with_def and_then_def perform_def split: option.split)

theorem runner_unsubscribes:
  assumes "\<And>h x. fates h (Unsubscribe x) = None" and "fst (start_actions (runner_start cfg avail) fates p) = Inr ()"
  shows "subscribed (snd (run_forever cfg avail fates p)) = []"
proof -
  have none: "removeAll Dm_sub (removeAll Bots_sub (removeAll Channel_sub xs)) = []" for xs
  proof (induction xs)
    case (Cons x xs)
    then show ?case by (cases x) simp_all
  qed simp
  have step: "\<exists>p'. unsubscribe s fates p = (Inr (), p') \<and> subscribed p' = removeAll s (subscribed p)" for s p
    using unsubscribed [of fates s p] assms(1) by (cases "unsubscribe s fates p") simp
  have stop: "subscribed (snd (runner_stop fates q)) = []" for q
  proof -
    obtain q1 q2 q3 where "unsubscribe Channel_sub fates q = (Inr (), q1)" "unsubscribe Bots_sub fates q1 = (Inr (), q2)"
      "unsubscribe Dm_sub fates q2 = (Inr (), q3)" "subscribed q3 = []"
      using step none by metis
    then show ?thesis by (simp add: runner_stop_def and_then_def perform_all_subscribed del: perform_all.simps)
  qed
  obtain q where "start_actions (runner_start cfg avail) fates p = (Inr (), q)"
    using assms(2) by (cases "start_actions (runner_start cfg avail) fates p") auto
  then show ?thesis
    using stop by (simp add: run_forever_def and_then_def try_finally_def case_prod_beta split: sum.split)
qed

theorem runner_unsubscribes_witness:
  "subscribed (snd (run_forever default_config (\<lambda>n. n < 2) (\<lambda>_ _. None) new_process)) = []"
  by (rule runner_unsubscribes)
    (simp_all add: runner_start_def default_config_def no_backlog_left and_then_def perform_def note_subscription_def done_with_def)

text \<open>A start that fails after subscribing, here when it starts fetching messages, leaves the subscriptions behind.\<close>

theorem failed_start_keeps_subscriptions:
  "case run_forever default_config (\<lambda>n. n < 2) (\<lambda>h s. if s = Start_step Start_fetching then Some Cancelled else None) new_process of
    (r, p) \<Rightarrow> r = Inl Cancelled \<and> subscribed p = [Channel_sub, Dm_sub]"
  by (simp add: run_forever_def runner_start_def default_config_def no_backlog_left and_then_def perform_def note_subscription_def
      new_process_def)

end
