(* ===== verification/Radio_State.thy ===== *)
theory Radio_State
  imports Zork_Prelude "HOL-Library.List_Lexorder" "HOL-Library.Char_ord" "HOL-Library.Product_Lexorder"
begin

text \<open>
  The cached view of the attached radio and the guarded channel writes,
  \<^verbatim>\<open>src/zorkbot/src/zorkbot/radio_state.py\<close>.

  The radio library is not part of the program: what a command answers is an argument, collected
  in \<open>device_env\<close> (the clock readings of one locked operation belong to it too). A command
  that the object does not have is \<open>None\<close>; an answer is an exception or an event whose
  payload may not be a dictionary. The lock is held for the whole of \<open>refresh_locked\<close> and of
  \<open>write_channel\<close>, and nothing else changes the cache, so each of them is one step; what
  other tasks do while a caller waits for the lock is an argument of the routes.

  \<open>link\<close> is the sequence of commands given to the radio, in order. Fields of dictionaries whose
  values are only passed on are \<open>pyval\<close>; coordinates are numbers or absent. Error
  descriptions are prose and left out.
\<close>

section \<open>Values\<close>

datatype pyval = P_none | P_bool bool | P_int int | P_float real | P_str string | P_other bool

type_synonym pydict = "(string \<times> pyval) list"

definition pyget :: "pydict \<Rightarrow> string \<Rightarrow> pyval" where
  "pyget d k = (case map_of d k of None \<Rightarrow> P_none | Some v \<Rightarrow> v)"

fun pytrue :: "pyval \<Rightarrow> bool" where
  "pytrue P_none = False"
| "pytrue (P_bool b) = b"
| "pytrue (P_int i) = (i \<noteq> 0)"
| "pytrue (P_float x) = (x \<noteq> 0)"
| "pytrue (P_str s) = (s \<noteq> [])"
| "pytrue (P_other b) = b"

text \<open>\<open>isinstance(v, int)\<close> with the value; \<open>bool\<close> is a subclass of \<open>int\<close>.\<close>

fun as_int :: "pyval \<Rightarrow> int option" where
  "as_int (P_int i) = Some i"
| "as_int (P_bool b) = Some (if b then 1 else 0)"
| "as_int v = None"

fun as_number :: "pyval \<Rightarrow> real option" where
  "as_number (P_float x) = Some x"
| "as_number (P_int i) = Some (real_of_int i)"
| "as_number v = None"

section \<open>Contacts\<close>

definition CONTACT_TYPES :: "(int \<times> string) list" where
  "CONTACT_TYPES = [(0, ''none''), (1, ''chat''), (2, ''repeater''), (3, ''room''), (4, ''sensor'')]"

definition MAX_CHANNEL_NAME_BYTES :: nat where
  "MAX_CHANNEL_NAME_BYTES = 31"

definition EARTH_RADIUS_KM :: real where
  "EARTH_RADIUS_KM = 6371"

definition contact_type_name :: "int option \<Rightarrow> string" where
  "contact_type_name ty =
     (case ty of None \<Rightarrow> ''unknown''
      | Some i \<Rightarrow> (case map_of CONTACT_TYPES i of None \<Rightarrow> ''unknown'' | Some n \<Rightarrow> n))"

definition location_is_set :: "real option \<Rightarrow> real option \<Rightarrow> bool" where
  "location_is_set lat lon =
     (case lat of None \<Rightarrow> False
      | Some x \<Rightarrow> (case lon of None \<Rightarrow> False | Some y \<Rightarrow> \<not> (x = 0 \<and> y = 0)))"

definition radians :: "real \<Rightarrow> real" where
  "radians x = x * pi / 180"

definition haversine_a :: "real \<Rightarrow> real \<Rightarrow> real \<Rightarrow> real \<Rightarrow> real" where
  "haversine_a lat1 lon1 lat2 lon2 =
     (let p1 = radians lat1; p2 = radians lat2; dp = p2 - p1; dl = radians (lon2 - lon1)
      in (sin (dp / 2))\<^sup>2 + cos p1 * cos p2 * (sin (dl / 2))\<^sup>2)"

definition haversine_km :: "real \<Rightarrow> real \<Rightarrow> real \<Rightarrow> real \<Rightarrow> real" where
  "haversine_km lat1 lon1 lat2 lon2 =
     2 * EARTH_RADIUS_KM * arcsin (sqrt (haversine_a lat1 lon1 lat2 lon2))"

text \<open>\<open>round(x, 1)\<close>: to the nearest tenth, a tie to the even one.\<close>

definition round_tenth :: "real \<Rightarrow> real" where
  "round_tenth x =
     (let y = 10 * x; f = \<lfloor>y\<rfloor>; d = y - of_int f
      in of_int (if d < 1 / 2 then f else if d > 1 / 2 then f + 1 else if even f then f else f + 1) / 10)"

record raw_contact =
  rc_public_key :: "string option"
  rc_adv_name :: "string option"
  rc_type :: "int option"
  rc_last_advert :: "int option"
  rc_adv_lat :: "real option"
  rc_adv_lon :: "real option"
  rc_out_path_len :: "int option"
  rc_out_path_hash_mode :: "int option"
  rc_out_path :: "string option"

record contact_row =
  cr_name :: "string option"
  cr_pubkey_prefix :: string
  cr_type :: string
  cr_type_code :: "int option"
  cr_last_advert_at :: int
  cr_distance_km :: "real option"
  cr_routing :: string
  cr_hops :: "int option"
  cr_path :: "string option"
  cr_path_hash_size :: "int option"

definition distance_km :: "raw_contact \<Rightarrow> (real \<times> real) option \<Rightarrow> real option" where
  "distance_km contact origin =
     (case origin of
        None \<Rightarrow> None
      | Some (olat, olon) \<Rightarrow>
          if \<not> location_is_set (rc_adv_lat contact) (rc_adv_lon contact) then None
          else Some (round_tenth (haversine_km olat olon (the (rc_adv_lat contact)) (the (rc_adv_lon contact)))))"

definition or_none :: "string option \<Rightarrow> string option" where
  "or_none x = (if truthy x then x else None)"

definition contact_dict :: "raw_contact \<Rightarrow> (real \<times> real) option \<Rightarrow> contact_row" where
  "contact_dict contact origin =
     (let public_key = or_else (rc_public_key contact) [];
          flooding = (case rc_out_path_len contact of None \<Rightarrow> True | Some h \<Rightarrow> h < 0)
      in \<lparr>cr_name = or_none (rc_adv_name contact),
          cr_pubkey_prefix = take 12 public_key,
          cr_type = contact_type_name (rc_type contact),
          cr_type_code = rc_type contact,
          cr_last_advert_at = (case rc_last_advert contact of None \<Rightarrow> 0 | Some t \<Rightarrow> t),
          cr_distance_km = distance_km contact origin,
          cr_routing = (if flooding then ''flood'' else ''path''),
          cr_hops = (if flooding then None else rc_out_path_len contact),
          cr_path = (if flooding then None else or_none (rc_out_path contact)),
          cr_path_hash_size =
            (if flooding then None
             else Some ((case rc_out_path_hash_mode contact of None \<Rightarrow> 0 | Some m \<Rightarrow> m) + 1))\<rparr>)"

text \<open>
  What the radio object shows without a round trip: \<open>self_info\<close> and \<open>contacts\<close> (\<open>None\<close>:
  absent or not a dictionary; entries that are not dictionaries are \<open>None\<close>).
\<close>

record mesh_view =
  mv_self_info :: pydict
  mv_contacts :: "raw_contact option list option"

definition connected :: "mesh_view \<Rightarrow> bool" where
  "connected mv \<longleftrightarrow> mv_self_info mv \<noteq> []"

definition own_location :: "mesh_view \<Rightarrow> (real \<times> real) option" where
  "own_location mv =
     (let lat = as_number (pyget (mv_self_info mv) ''adv_lat''); lon = as_number (pyget (mv_self_info mv) ''adv_lon'')
      in if location_is_set lat lon then Some (the lat, the lon) else None)"

definition contact_key :: "contact_row \<Rightarrow> string \<times> string" where
  "contact_key row = (lower (or_else (cr_name row) []), cr_pubkey_prefix row)"

definition list_contacts :: "mesh_view \<Rightarrow> contact_row list" where
  "list_contacts mv =
     (case mv_contacts mv of
        None \<Rightarrow> []
      | Some raw \<Rightarrow>
          sort_key contact_key
            (map (\<lambda>rc. contact_dict rc (own_location mv)) (List.map_filter id raw)))"

section \<open>State\<close>

record channel_payload_in =
  ci_channel_idx :: "int option"
  ci_channel_name :: "string option"
  ci_channel_hash :: "string option"
  ci_channel_secret :: "string option"

datatype 'a answer = Raises | Payload "'a option"

record device_env =
  de_mono :: real
  de_mono_done :: real
  de_wall :: real
  de_query :: "pydict answer option"
  de_get_channel :: "(int \<Rightarrow> channel_payload_in answer) option"

record swept_channel =
  ce_idx :: int
  ce_name :: string
  ce_hash :: "string option"

datatype link_op = Query | Read int | Write real int string "string option"

record radio_state =
  cache_seconds :: real
  rs_served :: "(int \<times> string) list"
  write_enabled :: bool
  write_min_interval :: real
  rs_device :: "pydict option"
  rs_channels :: "swept_channel list option"
  fetched_at :: real
  stale_since :: "int option"
  last_write_at :: "real option"
  link :: "link_op list"

definition new_radio_state :: "real \<Rightarrow> (int \<times> string) list \<Rightarrow> bool \<Rightarrow> real \<Rightarrow> radio_state" where
  "new_radio_state cache served enabled interval =
     \<lparr>cache_seconds = cache, rs_served = served, write_enabled = enabled, write_min_interval = interval,
      rs_device = None, rs_channels = None, fetched_at = 0, stale_since = None, last_write_at = None, link = []\<rparr>"

section \<open>Cached reads\<close>

text \<open>\<open>_query_device\<close>: \<open>None\<close> is an exception.\<close>

definition query_device :: "device_env \<Rightarrow> pydict option" where
  "query_device env =
     (case de_query env of
        None \<Rightarrow> Some []
      | Some Raises \<Rightarrow> None
      | Some (Payload None) \<Rightarrow> Some []
      | Some (Payload (Some d)) \<Rightarrow> Some d)"

definition query_ops :: "device_env \<Rightarrow> link_op list" where
  "query_ops env = (if de_query env = None then [] else [Query])"

definition read_channel :: "(int \<Rightarrow> channel_payload_in answer) \<Rightarrow> int \<Rightarrow> swept_channel option" where
  "read_channel get_channel idx =
     (case get_channel idx of
        Payload (Some p) \<Rightarrow>
          (let name = or_else (ci_channel_name p) []
           in if name = [] then None
              else Some \<lparr>ce_idx = (case ci_channel_idx p of None \<Rightarrow> idx | Some i \<Rightarrow> i), ce_name = name,
                         ce_hash = ci_channel_hash p\<rparr>)
      | _ \<Rightarrow> None)"

definition sweep_bound :: "device_env \<Rightarrow> pyval \<Rightarrow> int" where
  "sweep_bound env max_channels =
     (if de_get_channel env = None then 0
      else case as_int max_channels of None \<Rightarrow> 0 | Some n \<Rightarrow> max 0 n)"

definition sweep_channels :: "device_env \<Rightarrow> pyval \<Rightarrow> swept_channel list" where
  "sweep_channels env max_channels =
     (case de_get_channel env of
        None \<Rightarrow> []
      | Some get_channel \<Rightarrow> List.map_filter (read_channel get_channel) [0..sweep_bound env max_channels - 1])"

definition sweep_ops :: "device_env \<Rightarrow> pyval \<Rightarrow> link_op list" where
  "sweep_ops env max_channels = map Read [0..sweep_bound env max_channels - 1]"

definition refresh_locked :: "bool \<Rightarrow> device_env \<Rightarrow> radio_state \<Rightarrow> bool \<times> radio_state" where
  "refresh_locked force env st =
     (let fresh = rs_device st \<noteq> None \<and> de_mono env - fetched_at st < cache_seconds st
      in if fresh \<and> \<not> force then (True, st)
         else case query_device env of
           None \<Rightarrow>
             (False, st\<lparr>link := link st @ query_ops env,
                        stale_since := (case stale_since st of None \<Rightarrow> Some (trunc (de_wall env)) | Some t \<Rightarrow> Some t)\<rparr>)
         | Some device \<Rightarrow>
             (True, st\<lparr>link := link st @ query_ops env @ sweep_ops env (pyget device ''max_channels''),
                       rs_device := Some device, rs_channels := Some (sweep_channels env (pyget device ''max_channels'')),
                       fetched_at := de_mono_done env, stale_since := None\<rparr>))"

definition device_info :: "radio_state \<Rightarrow> pydict" where
  "device_info st = (case rs_device st of None \<Rightarrow> [] | Some d \<Rightarrow> d)"

definition channel_list :: "radio_state \<Rightarrow> swept_channel list" where
  "channel_list st = (case rs_channels st of None \<Rightarrow> [] | Some cs \<Rightarrow> cs)"

definition channel_role :: "int \<Rightarrow> radio_state \<Rightarrow> string option" where
  "channel_role idx st = map_of (rs_served st) idx"

definition max_channels :: "radio_state \<Rightarrow> int option" where
  "max_channels st =
     (case as_int (pyget (device_info st) ''max_channels'') of
        None \<Rightarrow> None
      | Some n \<Rightarrow> if 0 < n then Some n else None)"

definition free_slots :: "radio_state \<Rightarrow> int list" where
  "free_slots st =
     (case max_channels st of
        None \<Rightarrow> []
      | Some bound \<Rightarrow> filter (\<lambda>idx. idx \<notin> ce_idx ` set (channel_list st)) [0..bound - 1])"

section \<open>Writes\<close>

datatype radio_write_error = RadioWriteError string

text \<open>
  \<open>_write_channel\<close>. What \<open>set_channel\<close> itself answers, or that it raises, has no influence on
  the result; its effect shows in the read-back, whose answers are \<open>env\<close>.
\<close>

definition write_channel ::
  "bool \<Rightarrow> mesh_view \<Rightarrow> device_env \<Rightarrow> real \<Rightarrow> int \<Rightarrow> string \<Rightarrow> string option \<Rightarrow> string option \<Rightarrow> radio_state \<Rightarrow>
     (radio_write_error + swept_channel option) \<times> radio_state" where
  "write_channel has_set_channel mv env now idx name secret expect_name st =
     (if \<not> has_set_channel \<or> \<not> connected mv then (Inl (RadioWriteError ''radio_unavailable''), st)
      else if (case last_write_at st of None \<Rightarrow> False | Some l \<Rightarrow> now - l < write_min_interval st)
      then (Inl (RadioWriteError ''write_too_frequent''), st)
      else
        (let st1 = st\<lparr>last_write_at := Some now, link := link st @ [Write now idx name secret]\<rparr>
         in case refresh_locked True env st1 of
              (False, st2) \<Rightarrow> (Inl (RadioWriteError ''radio_write_failed''), st2)
            | (True, st2) \<Rightarrow>
                (let actual = find (\<lambda>c. ce_idx c = idx) (channel_list st2)
                 in if map_option ce_name actual \<noteq> expect_name
                    then (Inl (RadioWriteError ''radio_write_failed''), st2)
                    else (Inr actual, st2))))"

definition set_channel ::
  "bool \<Rightarrow> mesh_view \<Rightarrow> device_env \<Rightarrow> real \<Rightarrow> int \<Rightarrow> string \<Rightarrow> string option \<Rightarrow> radio_state \<Rightarrow>
     (radio_write_error + swept_channel option) \<times> radio_state" where
  "set_channel has_set_channel mv env now idx name secret st =
     write_channel has_set_channel mv env now idx name secret (Some name) st"

definition clear_channel ::
  "bool \<Rightarrow> mesh_view \<Rightarrow> device_env \<Rightarrow> real \<Rightarrow> string \<Rightarrow> int \<Rightarrow> radio_state \<Rightarrow>
     (radio_write_error + swept_channel option) \<times> radio_state" where
  "clear_channel has_set_channel mv env now random_key idx st =
     write_channel has_set_channel mv env now idx [] (Some random_key) None st"

section \<open>The composite view\<close>

record radio_snapshot =
  sn_connected :: bool
  sn_name :: pyval
  sn_public_key :: pyval
  sn_radio :: pydict
  sn_lat :: "real option"
  sn_lon :: "real option"
  sn_located :: bool
  sn_firmware :: pydict
  sn_contacts_count :: nat
  sn_contacts_max :: pyval
  sn_channels_count :: nat
  sn_channels_max :: pyval
  sn_writes_enabled :: bool
  sn_stale_since :: "int option"

text \<open>The payload of \<open>/api/radio\<close>, after the two reads have been refreshed.\<close>

definition snapshot :: "mesh_view \<Rightarrow> radio_state \<Rightarrow> radio_snapshot" where
  "snapshot mv st =
     (let info = mv_self_info mv; device = device_info st; loc = own_location mv
      in \<lparr>sn_connected = connected mv, sn_name = pyget info ''name'', sn_public_key = pyget info ''public_key'',
          sn_radio =
            [(''freq_mhz'', pyget info ''radio_freq''), (''bandwidth_khz'', pyget info ''radio_bw''),
             (''spreading_factor'', pyget info ''radio_sf''), (''coding_rate'', pyget info ''radio_cr''),
             (''tx_power_dbm'', pyget info ''tx_power''), (''max_tx_power_dbm'', pyget info ''max_tx_power''),
             (''path_hash_size'', pyget device ''path_hash_mode'')],
          sn_lat = map_option fst loc, sn_lon = map_option snd loc, sn_located = (loc \<noteq> None),
          sn_firmware =
            [(''model'', pyget device ''model''), (''version'', pyget device ''ver''),
             (''build'', pyget device ''fw_build''), (''protocol'', pyget device ''fw ver'')],
          sn_contacts_count = (case mv_contacts mv of None \<Rightarrow> 0 | Some raw \<Rightarrow> length raw),
          sn_contacts_max = pyget device ''max_contacts'',
          sn_channels_count = length (channel_list st), sn_channels_max = pyget device ''max_channels'',
          sn_writes_enabled = write_enabled st, sn_stale_since = stale_since st\<rparr>)"

section \<open>Distances\<close>

lemma haversine_dot:
  "haversine_a lat1 lon1 lat2 lon2 =
    (1 - (sin (radians lat1) * sin (radians lat2) +
          cos (radians lat1) * cos (radians lat2) * cos (radians (lon2 - lon1)))) / 2"
proof -
  have half: "(sin (x / 2))\<^sup>2 = (1 - cos x) / 2" for x :: real
    using cos_double_sin [of "x / 2"] by simp
  show ?thesis
    unfolding haversine_a_def Let_def half by (simp add: cos_diff field_simps)
qed

lemma dot_bound:
  fixes x y d :: real
  shows "\<bar>sin x * sin y + cos x * cos y * cos d\<bar> \<le> 1"
proof -
  have sum: "sin x * sin y + cos x * cos y * cos d =
      cos (x - y) * ((1 + cos d) / 2) + (- cos (x + y)) * ((1 - cos d) / 2)"
    by (simp add: cos_diff cos_add field_simps)
  have pos: "0 \<le> 1 + cos d" using cos_ge_minus_one [of d] by linarith
  then have weights: "\<bar>(1 + cos d) / 2\<bar> = (1 + cos d) / 2" "\<bar>(1 - cos d) / 2\<bar> = (1 - cos d) / 2"
    by simp_all
  have "\<bar>cos (x - y) * ((1 + cos d) / 2)\<bar> \<le> 1 * ((1 + cos d) / 2)"
    unfolding abs_mult weights using pos by (intro mult_right_mono) simp_all
  moreover have "\<bar>(- cos (x + y)) * ((1 - cos d) / 2)\<bar> \<le> 1 * ((1 - cos d) / 2)"
    unfolding abs_mult weights using cos_le_one [of d] by (intro mult_right_mono) simp_all
  moreover have "1 * ((1 + cos d) / 2) + 1 * ((1 - cos d) / 2) = 1" by (simp add: field_simps)
  ultimately show ?thesis
    unfolding sum using abs_triangle_ineq [of "cos (x - y) * ((1 + cos d) / 2)" "- cos (x + y) * ((1 - cos d) / 2)"] by linarith
qed

text \<open>
  The great-circle distance is defined for all coordinates (the argument of the arc sine is
  between 0 and 1), does not depend on the order of the two points, is zero from a point to itself
  and at most half the circumference of the Earth.
\<close>

theorem haversine_bounds:
  "0 \<le> haversine_a lat1 lon1 lat2 lon2 \<and> haversine_a lat1 lon1 lat2 lon2 \<le> 1 \<and>
    0 \<le> haversine_km lat1 lon1 lat2 lon2 \<and> haversine_km lat1 lon1 lat2 lon2 \<le> pi * EARTH_RADIUS_KM \<and>
    haversine_km lat1 lon1 lat2 lon2 = haversine_km lat2 lon2 lat1 lon1 \<and>
    haversine_km lat1 lon1 lat1 lon1 = 0"
proof -
  let ?a = "haversine_a lat1 lon1 lat2 lon2"
  have a: "0 \<le> ?a" "?a \<le> 1"
    unfolding haversine_dot using dot_bound [of "radians lat1" "radians lat2" "radians (lon2 - lon1)"] by (simp_all add: abs_le_iff)
  then have "0 \<le> sqrt ?a" "sqrt ?a \<le> 1" by simp_all
  moreover from this have "- 1 \<le> sqrt ?a" by linarith
  ultimately have "0 \<le> arcsin (sqrt ?a)" "arcsin (sqrt ?a) \<le> pi / 2"
    using arcsin_le_arcsin [of 0 "sqrt ?a"] arcsin_ubound [of "sqrt ?a"] by simp_all
  moreover have "cos (radians (lon1 - lon2)) = cos (radians (lon2 - lon1))"
  proof -
    have "radians (lon1 - lon2) = - radians (lon2 - lon1)" by (simp add: radians_def field_simps)
    then show ?thesis by simp
  qed
  then have "haversine_a lat2 lon2 lat1 lon1 = ?a" unfolding haversine_dot by (simp add: mult.commute)
  moreover have "haversine_a lat1 lon1 lat1 lon1 = 0" by (simp add: haversine_a_def radians_def)
  ultimately show ?thesis using a by (simp add: haversine_km_def EARTH_RADIUS_KM_def)
qed

section \<open>Operations on the cache\<close>

text \<open>The operations that take the lock, as one step each.\<close>

datatype radio_op =
    Refresh bool device_env
  | Set_channel bool mesh_view device_env real int string "string option"
  | Clear_channel bool mesh_view device_env real string int

fun radio_step :: "radio_op \<Rightarrow> radio_state \<Rightarrow> radio_state" where
  "radio_step (Refresh force env) st = snd (refresh_locked force env st)"
| "radio_step (Set_channel has mv env now idx name secret) st = snd (set_channel has mv env now idx name secret st)"
| "radio_step (Clear_channel has mv env now key idx) st = snd (clear_channel has mv env now key idx st)"

fun write_time :: "link_op \<Rightarrow> real option" where
  "write_time (Write t idx name secret) = Some t"
| "write_time op = None"

definition write_times :: "link_op list \<Rightarrow> real list" where
  "write_times ops = List.map_filter write_time ops"

lemma write_times_append [simp]: "write_times (xs @ ys) = write_times xs @ write_times ys"
  by (induction xs) (simp_all add: write_times_def map_filter_simps split: option.split)

lemma write_times_reads [simp]:
  "write_times [] = []" "write_times (query_ops env) = []" "write_times (sweep_ops env m) = []"
  "write_times [Write t idx name secret] = [t]"
  by (simp_all add: write_times_def query_ops_def sweep_ops_def map_filter_simps map_filter_def comp_def)

lemma refresh_keeps:
  "last_write_at (snd (refresh_locked force env st)) = last_write_at st"
  "write_times (link (snd (refresh_locked force env st))) = write_times (link st)"
  "write_min_interval (snd (refresh_locked force env st)) = write_min_interval st"
  "rs_served (snd (refresh_locked force env st)) = rs_served st"
  "write_enabled (snd (refresh_locked force env st)) = write_enabled st"
  by (simp_all add: refresh_locked_def Let_def split: option.split)

definition write_log_ok :: "radio_state \<Rightarrow> bool" where
  "write_log_ok st \<longleftrightarrow>
     successively (\<lambda>a b. a + write_min_interval st \<le> b) (write_times (link st)) \<and>
     (write_times (link st) \<noteq> [] \<longrightarrow> last_write_at st = Some (last (write_times (link st))))"

lemma write_channel_log:
  "write_log_ok st \<Longrightarrow> write_log_ok (snd (write_channel has mv env now idx name secret ex st))"
  "write_min_interval (snd (write_channel has mv env now idx name secret ex st)) = write_min_interval st"
proof -
  let ?st1 = "st\<lparr>last_write_at := Some now, link := link st @ [Write now idx name secret]\<rparr>"
  have snd_eq: "snd (write_channel has mv env now idx name secret ex st) =
    (if \<not> has \<or> \<not> connected mv \<or> (case last_write_at st of None \<Rightarrow> False | Some l \<Rightarrow> now - l < write_min_interval st)
     then st else snd (refresh_locked True env ?st1))"
    by (auto simp: write_channel_def Let_def split: prod.split bool.split)
  show "write_min_interval (snd (write_channel has mv env now idx name secret ex st)) = write_min_interval st"
    unfolding snd_eq by (simp add: refresh_keeps)
  assume "write_log_ok st"
  then show "write_log_ok (snd (write_channel has mv env now idx name secret ex st))"
    unfolding snd_eq write_log_ok_def by (auto simp: refresh_keeps successively_append_iff split: option.splits)
qed

lemma radio_step_log: "write_log_ok st \<Longrightarrow> write_log_ok (radio_step op st)"
  by (cases op) (simp_all add: set_channel_def clear_channel_def write_channel_log write_log_ok_def [of "snd (refresh_locked _ _ _)"]
      refresh_keeps, simp add: write_log_ok_def)

lemma radio_step_interval: "write_min_interval (radio_step op st) = write_min_interval st"
  by (cases op) (simp_all add: set_channel_def clear_channel_def write_channel_log refresh_keeps)

text \<open>
  The radio's flash is spared: whatever refreshes and channel writes the console performs, two
  consecutive write commands given to the radio are at least \<open>write_min_interval\<close> apart.
\<close>

theorem radio_writes_spaced:
  "successively (\<lambda>a b. a + interval \<le> b)
     (write_times (link (fold radio_step ops (new_radio_state cache served enabled interval))))"
proof -
  let ?st0 = "new_radio_state cache served enabled interval"
  have run: "write_log_ok (fold radio_step ops st) \<and> write_min_interval (fold radio_step ops st) = write_min_interval st"
    if "write_log_ok st" for st
    using that by (induction ops arbitrary: st) (simp_all add: radio_step_log radio_step_interval)
  have "write_log_ok ?st0" "write_min_interval ?st0 = interval"
    by (simp_all add: write_log_ok_def new_radio_state_def)
  then have ok: "write_log_ok (fold radio_step ops ?st0)" and interval: "write_min_interval (fold radio_step ops ?st0) = interval"
    using run [of ?st0] by simp_all
  from ok show ?thesis unfolding write_log_ok_def interval by (rule conjunct1)
qed

section \<open>What the console is told about a write\<close>

text \<open>
  A radio that answers the read-back: it reports \<open>n\<close> slots and every slot by its contents (the
  empty name for a free one).
\<close>

definition reports :: "int \<Rightarrow> (int \<Rightarrow> string) \<Rightarrow> device_env \<Rightarrow> bool" where
  "reports n slots env \<longleftrightarrow>
     (\<exists>d get. de_query env = Some (Payload (Some d)) \<and> as_int (pyget d ''max_channels'') = Some n \<and>
       de_get_channel env = Some get \<and>
       (\<forall>i \<in> {0..<n}. \<exists>p. get i = Payload (Some p) \<and> or_else (ci_channel_name p) [] = slots i \<and>
         (ci_channel_idx p = None \<or> ci_channel_idx p = Some i)))"

lemma find_map_filter:
  assumes "\<And>i e. i \<in> set is \<Longrightarrow> f i = Some e \<Longrightarrow> key e = i" and "distinct is"
  shows "find (\<lambda>e. key e = k) (List.map_filter f is) = (if k \<in> set is then f k else None)"
  using assms
proof (induction "is")
  case (Cons i "is")
  have "find (\<lambda>e. key e = k) (List.map_filter f is) = (if k \<in> set is then f k else None)"
    using Cons.prems by (intro Cons.IH) auto
  then show ?case
    using Cons.prems by (auto simp: map_filter_simps split: option.split)
qed (simp add: map_filter_simps)

lemma forced_refresh:
  "refresh_locked True env st =
    (case query_device env of
       None \<Rightarrow> (False, st\<lparr>link := link st @ query_ops env,
          stale_since := (case stale_since st of None \<Rightarrow> Some (trunc (de_wall env)) | Some t \<Rightarrow> Some t)\<rparr>)
     | Some device \<Rightarrow> (True, st\<lparr>link := link st @ query_ops env @ sweep_ops env (pyget device ''max_channels''),
          rs_device := Some device, rs_channels := Some (sweep_channels env (pyget device ''max_channels'')),
          fetched_at := de_mono_done env, stale_since := None\<rparr>))"
  by (simp add: refresh_locked_def)

lemma reports_refresh:
  assumes "reports n slots env"
  shows "fst (refresh_locked True env st) = True"
    and "0 \<le> idx \<Longrightarrow> idx < n \<Longrightarrow>
      map_option ce_name (find (\<lambda>c. ce_idx c = idx) (channel_list (snd (refresh_locked True env st)))) =
      (if slots idx = [] then None else Some (slots idx))"
proof -
  from assms obtain d get where d: "de_query env = Some (Payload (Some d))" "as_int (pyget d ''max_channels'') = Some n"
      "de_get_channel env = Some get"
    and slot: "\<And>i. 0 \<le> i \<Longrightarrow> i < n \<Longrightarrow> \<exists>p. get i = Payload (Some p) \<and> or_else (ci_channel_name p) [] = slots i \<and>
         (ci_channel_idx p = None \<or> ci_channel_idx p = Some i)"
    unfolding reports_def by auto
  have q: "query_device env = Some d" using d(1) by (simp add: query_device_def)
  then show "fst (refresh_locked True env st) = True" by (simp add: forced_refresh)
  have read: "map_option ce_name (read_channel get i) = (if slots i = [] then None else Some (slots i))"
    "\<And>e. read_channel get i = Some e \<Longrightarrow> ce_idx e = i" if "0 \<le> i" "i < n" for i
    using slot [OF that] by (auto simp: read_channel_def Let_def split: option.splits if_splits)
  assume idx: "0 \<le> idx" "idx < n"
  have "channel_list (snd (refresh_locked True env st)) = List.map_filter (read_channel get) [0..n - 1]"
    using q d idx by (simp add: forced_refresh channel_list_def sweep_channels_def sweep_bound_def)
  then have "find (\<lambda>c. ce_idx c = idx) (channel_list (snd (refresh_locked True env st))) = read_channel get idx"
    using idx find_map_filter [of "[0..n - 1]" "read_channel get" ce_idx idx] read(2) by auto
  then show "map_option ce_name (find (\<lambda>c. ce_idx c = idx) (channel_list (snd (refresh_locked True env st)))) =
      (if slots idx = [] then None else Some (slots idx))"
    using read(1) [OF idx] by simp
qed

definition admitted :: "bool \<Rightarrow> mesh_view \<Rightarrow> real \<Rightarrow> radio_state \<Rightarrow> bool" where
  "admitted has mv now st \<longleftrightarrow> has \<and> connected mv \<and>
     (case last_write_at st of None \<Rightarrow> True | Some l \<Rightarrow> write_min_interval st \<le> now - l)"


definition demo_env :: device_env where
  "demo_env = \<lparr>de_mono = 0, de_mono_done = 0, de_wall = 0,
     de_query = Some (Payload (Some [(''max_channels'', P_int 2)])),
     de_get_channel = Some (\<lambda>i. Payload (Some \<lparr>ci_channel_idx = Some i,
       ci_channel_name = (if i = 1 then Some ''#den'' else Some []), ci_channel_hash = None, ci_channel_secret = None\<rparr>))\<rparr>"

definition demo_mesh :: mesh_view where
  "demo_mesh = \<lparr>mv_self_info = [(''name'', P_str ''zork'')], mv_contacts = None\<rparr>"


text \<open>
  Clearing a channel is confirmed without evidence when the read-back of the slot fails: a
  failed read of one slot only leaves the slot out, which is also how an empty slot shows, so
  the clear succeeds although the slot may still hold the channel.
\<close>

theorem clear_unread_slot:
  assumes "admitted has mv now st" and "query_device env = Some d" and "de_get_channel env = Some get"
    and "get idx = Raises" and "\<And>i p. get i = Payload (Some p) \<Longrightarrow> ci_channel_idx p \<in> {None, Some i}"
  shows "fst (clear_channel has mv env now key idx st) = Inr None"
proof -
  have "ce_idx e \<noteq> idx" if "read_channel get i = Some e" for i e
    using that assms(4) assms(5) [of i]
    by (cases "get i") (auto simp: read_channel_def Let_def split: option.splits if_splits)
  then have "find (\<lambda>c. ce_idx c = idx) (List.map_filter (read_channel get) js) = None" for js
    by (induction js) (auto simp: map_filter_simps split: option.split)
  then have "find (\<lambda>c. ce_idx c = idx) (channel_list (snd (refresh_locked True env s))) = None" for s
    using assms(2,3) by (simp add: forced_refresh channel_list_def sweep_channels_def)
  moreover have "fst (refresh_locked True env s) = True" for s using assms(2) by (simp add: forced_refresh)
  ultimately show ?thesis
    using assms(1)
    by (auto simp: clear_channel_def write_channel_def admitted_def Let_def case_prod_beta split: option.splits bool.splits)
qed

theorem clear_unread_slot_witness:
  "fst (clear_channel True demo_mesh (demo_env\<lparr>de_get_channel := Some (\<lambda>_. Raises)\<rparr>) 5 ''key'' 1 (new_radio_state 30 [] True 2)) = Inr None"
  by (rule clear_unread_slot [where get = "\<lambda>_. Raises" and d = "[(''max_channels'', P_int 2)]"])
    (simp_all add: admitted_def demo_mesh_def connected_def new_radio_state_def demo_env_def query_device_def)

section \<open>Secrets and staleness\<close>

definition blank_secret :: "channel_payload_in answer \<Rightarrow> channel_payload_in answer" where
  "blank_secret a = (case a of Payload (Some p) \<Rightarrow> Payload (Some (p\<lparr>ci_channel_secret := None\<rparr>)) | _ \<Rightarrow> a)"

definition without_secrets :: "device_env \<Rightarrow> device_env" where
  "without_secrets env = env\<lparr>de_get_channel := map_option (\<lambda>get. blank_secret \<circ> get) (de_get_channel env)\<rparr>"

lemma read_channel_blank: "read_channel (blank_secret \<circ> get) i = read_channel get i"
  by (auto simp: read_channel_def blank_secret_def Let_def split: answer.split option.split)

lemma refresh_blank: "refresh_locked force (without_secrets env) st = refresh_locked force env st"
proof -
  have "sweep_channels (without_secrets env) m = sweep_channels env m"
    and "sweep_ops (without_secrets env) m = sweep_ops env m" for m :: pyval
    by (auto simp: sweep_channels_def sweep_ops_def sweep_bound_def without_secrets_def read_channel_blank [abs_def] map_filter_def
        split: option.split)
  moreover have "query_device (without_secrets env) = query_device env" "query_ops (without_secrets env) = query_ops env"
    by (simp_all add: query_device_def query_ops_def without_secrets_def)
  moreover have "de_mono (without_secrets env) = de_mono env" "de_mono_done (without_secrets env) = de_mono_done env"
      "de_wall (without_secrets env) = de_wall env"
    by (simp_all add: without_secrets_def)
  ultimately show ?thesis by (auto simp: refresh_locked_def cong: option.case_cong)
qed

text \<open>
  The pre-shared keys the radio reports never leave the sweep: the cache, and the answer to a
  write, are the same whatever keys the channel reads carry. Everything the console shows about
  channels is computed from that cache.
\<close>

theorem channel_secrets_confined:
  "refresh_locked force (without_secrets env) st = refresh_locked force env st \<and>
    write_channel has mv (without_secrets env) now idx name secret expect st =
    write_channel has mv env now idx name secret expect st"
  by (simp add: write_channel_def refresh_blank)

fun warm :: "bool \<times> device_env \<Rightarrow> radio_state \<Rightarrow> bool" where
  "warm (force, env) st = (\<not> force \<and> rs_device st \<noteq> None \<and> de_mono env - fetched_at st < cache_seconds st)"

definition refresh_run :: "(bool \<times> device_env) list \<Rightarrow> radio_state \<Rightarrow> radio_state" where
  "refresh_run rs st = fold (\<lambda>(force, env) st. snd (refresh_locked force env st)) rs st"

lemma failed_refresh:
  assumes "query_device env = None"
  shows "rs_device (snd (refresh_locked force env st)) = rs_device st"
    and "rs_channels (snd (refresh_locked force env st)) = rs_channels st"
    and "fetched_at (snd (refresh_locked force env st)) = fetched_at st"
    and "cache_seconds (snd (refresh_locked force env st)) = cache_seconds st"
    and "stale_since (snd (refresh_locked force env st)) =
      (if warm (force, env) st then stale_since st
       else case stale_since st of None \<Rightarrow> Some (trunc (de_wall env)) | Some t \<Rightarrow> Some t)"
  using assms by (auto simp: refresh_locked_def split: option.split)

text \<open>
  Stale on error: while the device query keeps failing, the console serves the last good values
  unchanged, and \<open>stale_since\<close> is the time of the first failure, however often the read is
  retried.
\<close>

theorem stale_since_first_failure:
  assumes "stale_since st = None" and "\<not> warm (force, env) st" and "query_device env = None"
    and "list_all (\<lambda>r. query_device (snd r) = None) retries"
  shows "device_info (refresh_run ((force, env) # retries) st) = device_info st \<and>
    channel_list (refresh_run ((force, env) # retries) st) = channel_list st \<and>
    stale_since (refresh_run ((force, env) # retries) st) = Some (trunc (de_wall env))"
proof -
  have run: "rs_device (refresh_run retries s) = rs_device s \<and> rs_channels (refresh_run retries s) = rs_channels s \<and>
      stale_since (refresh_run retries s) = Some t" if "stale_since s = Some t" for s t
    using assms(4) that
  proof (induction retries arbitrary: s)
    case (Cons r retries)
    obtain f e where r: "r = (f, e)" by (cases r)
    have "stale_since (snd (refresh_locked f e s)) = Some t" using failed_refresh(5) [of e f s] Cons.prems r by simp
    with Cons.IH [of "snd (refresh_locked f e s)"] Cons.prems r show ?case by (simp add: refresh_run_def failed_refresh(1,2))
  qed (simp add: refresh_run_def)
  let ?st1 = "snd (refresh_locked force env st)"
  have "stale_since ?st1 = Some (trunc (de_wall env))" using failed_refresh(5) [OF assms(3), of force st] assms(1,2) by simp
  from run [OF this] show ?thesis
    using failed_refresh(1,2) [OF assms(3)] by (simp add: refresh_run_def device_info_def channel_list_def)
qed

theorem stale_since_first_failure_witness:
  "stale_since (refresh_run [(False, demo_env\<lparr>de_query := Some Raises, de_wall := 7\<rparr>), (True, demo_env\<lparr>de_query := Some Raises, de_wall := 9\<rparr>)]
     (new_radio_state 30 [] True 2)) = Some 7"
  using stale_since_first_failure [of "new_radio_state 30 [] True 2" False "demo_env\<lparr>de_query := Some Raises, de_wall := 7\<rparr>"
      "[(True, demo_env\<lparr>de_query := Some Raises, de_wall := 9\<rparr>)]"]
  by (simp add: new_radio_state_def query_device_def trunc_def)

end
