(* ===== verification/Admin_Auth.thy ===== *)
theory Admin_Auth
  imports Zork_Prelude
begin

text \<open>
  The authentication service of the admin console, \<^verbatim>\<open>src/zorkbot/src/zorkbot/admin/auth.py\<close>, with
  the two tables of the store it keeps its state in (\<open>admin_user\<close> and \<open>refresh_tokens\<close> of
  \<^verbatim>\<open>admin/store.py\<close>).

  The key derivation function and the hash (\<open>hashlib.scrypt\<close>, \<open>hashlib.sha256\<close>) are
  parameters, collected in \<open>crypto\<close>; random values (\<open>secrets\<close>) are arguments of the
  operations that draw them. A clock reading is an argument too: one reading for a stretch without
  an await, a further one after it. Where the code awaits the store in the middle of an operation,
  the operation is split at the await (\<open>login_check\<close>, \<open>login_finish\<close>; \<open>refresh_lookup\<close>,
  \<open>refresh_issue\<close>, \<open>refresh_retire\<close>) and the whole is their composition, so that both
  the sequential behaviour and the interleaving of two requests can be stated.

  A primary key is enforced by the table: a second row with the same \<open>token_hash\<close> raises.
\<close>

section \<open>State\<close>

type_synonym bytes = string

record kdf_params =
  kdf_n :: int
  kdf_r :: int
  kdf_p :: int
  kdf_dklen :: int

record crypto =
  scrypt :: "string \<Rightarrow> bytes \<Rightarrow> kdf_params \<Rightarrow> bytes"
  sha256 :: "string \<Rightarrow> bytes"

definition DEFAULT_PASSWORD :: string where
  "DEFAULT_PASSWORD = ''zorkbot-admin!''"

definition MIN_PASSWORD_LENGTH :: nat where
  "MIN_PASSWORD_LENGTH = 12"

definition DEFAULT_KDF_PARAMS :: kdf_params where
  "DEFAULT_KDF_PARAMS = \<lparr>kdf_n = 16384, kdf_r = 8, kdf_p = 1, kdf_dklen = 32\<rparr>"

definition SCOPE_ADMIN :: string where
  "SCOPE_ADMIN = ''admin''"

definition SCOPE_PASSWORD_CHANGE :: string where
  "SCOPE_PASSWORD_CHANGE = ''password:change''"

definition THROTTLE_THRESHOLD :: nat where
  "THROTTLE_THRESHOLD = 5"

definition THROTTLE_BASE_SECONDS :: nat where
  "THROTTLE_BASE_SECONDS = 60"

definition THROTTLE_MAX_SECONDS :: nat where
  "THROTTLE_MAX_SECONDS = 900"

lemmas auth_constants = MIN_PASSWORD_LENGTH_def THROTTLE_THRESHOLD_def THROTTLE_BASE_SECONDS_def
  THROTTLE_MAX_SECONDS_def

datatype auth_exn =
    AuthError string string int
  | AssertionFailed string
  | IntegrityError string

record bucket =
  failures :: nat
  locked_until :: real

record login_throttle =
  by_ip :: "(string \<times> bucket) list"
  global_bucket :: bucket

record admin_user =
  username :: string
  password_hash :: bytes
  password_salt :: bytes
  user_kdf_params :: kdf_params
  must_change_password :: bool
  password_changed_at :: "int option"
  created_at :: int

record refresh_row =
  token_hash :: bytes
  issued_at :: int
  expires_at :: int
  revoked_at :: "int option"
  replaced_by :: "bytes option"

record access_entry =
  ae_expires_at :: real
  ae_scope :: string

record auth_state =
  access_ttl :: int
  refresh_ttl :: int
  user_row :: "admin_user option"
  refresh_rows :: "refresh_row list"
  throttle :: login_throttle
  access_tokens :: "(bytes \<times> access_entry) list"

record token_result =
  tr_access_token :: string
  tr_refresh_token :: string
  tr_expires_in :: int
  tr_scope :: string
  tr_must_change_password :: bool

definition fresh_bucket :: bucket where
  "fresh_bucket = \<lparr>failures = 0, locked_until = 0\<rparr>"

definition new_throttle :: login_throttle where
  "new_throttle = \<lparr>by_ip = [], global_bucket = fresh_bucket\<rparr>"

definition new_auth_service :: "int \<Rightarrow> int \<Rightarrow> admin_user option \<Rightarrow> refresh_row list \<Rightarrow> auth_state" where
  "new_auth_service access_token_ttl refresh_token_ttl user rows =
     \<lparr>access_ttl = access_token_ttl, refresh_ttl = refresh_token_ttl, user_row = user,
      refresh_rows = rows, throttle = new_throttle, access_tokens = []\<rparr>"

section \<open>The login throttle\<close>

definition locked_for :: "real \<Rightarrow> bucket \<Rightarrow> real" where
  "locked_for now b = max 0 (locked_until b - now)"

definition bad_login :: auth_exn where
  "bad_login = AuthError ''invalid_grant'' ''invalid username or password'' 400"

definition throttle_check :: "real \<Rightarrow> string \<Rightarrow> login_throttle \<Rightarrow> auth_exn + unit" where
  "throttle_check now ip th =
     (if (\<exists>b \<in> set (case map_of (by_ip th) ip of None \<Rightarrow> [] | Some b \<Rightarrow> [b]). 0 < locked_for now b) \<or>
         0 < locked_for now (global_bucket th)
      then Inl bad_login else Inr ())"

definition backoff :: "nat \<Rightarrow> nat" where
  "backoff n = min (THROTTLE_BASE_SECONDS * 2 ^ (n - THROTTLE_THRESHOLD)) THROTTLE_MAX_SECONDS"

definition count_failure :: "real \<Rightarrow> bucket \<Rightarrow> bucket" where
  "count_failure now b =
     (let n = failures b + 1
      in \<lparr>failures = n,
          locked_until = (if THROTTLE_THRESHOLD \<le> n then now + real (backoff n) else locked_until b)\<rparr>)"

definition record_failure :: "real \<Rightarrow> string \<Rightarrow> login_throttle \<Rightarrow> login_throttle" where
  "record_failure now ip th =
     (let b = (case map_of (by_ip th) ip of None \<Rightarrow> fresh_bucket | Some b \<Rightarrow> b)
      in \<lparr>by_ip = AList.update ip (count_failure now b) (by_ip th),
          global_bucket = count_failure now (global_bucket th)\<rparr>)"

definition record_success :: "string \<Rightarrow> login_throttle \<Rightarrow> login_throttle" where
  "record_success ip th = \<lparr>by_ip = AList.delete ip (by_ip th), global_bucket = fresh_bucket\<rparr>"

section \<open>The service\<close>

definition ensure_admin_user :: "crypto \<Rightarrow> real \<Rightarrow> bytes \<Rightarrow> auth_state \<Rightarrow> auth_state" where
  "ensure_admin_user c wall salt st =
     (case user_row st of
        Some _ \<Rightarrow> st
      | None \<Rightarrow>
          st\<lparr>user_row := Some
               \<lparr>username = ''admin'', password_hash = scrypt c DEFAULT_PASSWORD salt DEFAULT_KDF_PARAMS,
                password_salt = salt, user_kdf_params = DEFAULT_KDF_PARAMS,
                must_change_password = True, password_changed_at = None, created_at = trunc wall\<rparr>\<rparr>)"

definition get_user :: "auth_state \<Rightarrow> auth_exn + admin_user" where
  "get_user st =
     (case user_row st of
        None \<Rightarrow> Inl (AssertionFailed ''admin_user not bootstrapped'')
      | Some u \<Rightarrow> Inr u)"

definition get_user_public :: "auth_state \<Rightarrow> auth_exn + string \<times> bool \<times> int option" where
  "get_user_public st =
     (case get_user st of
        Inl e \<Rightarrow> Inl e
      | Inr u \<Rightarrow> Inr (username u, must_change_password u, password_changed_at u))"

definition scope_for :: "admin_user \<Rightarrow> string" where
  "scope_for u = (if must_change_password u then SCOPE_PASSWORD_CHANGE else SCOPE_ADMIN)"

definition find_token :: "bytes \<Rightarrow> auth_state \<Rightarrow> refresh_row option" where
  "find_token h st = find (\<lambda>r. token_hash r = h) (refresh_rows st)"

definition insert_token :: "bytes \<Rightarrow> int \<Rightarrow> int \<Rightarrow> auth_state \<Rightarrow> (auth_exn + unit) \<times> auth_state" where
  "insert_token h now expires st =
     (case find_token h st of
        Some _ \<Rightarrow> (Inl (IntegrityError ''UNIQUE constraint failed: refresh_tokens.token_hash''), st)
      | None \<Rightarrow>
          (Inr (), st\<lparr>refresh_rows := refresh_rows st @
             [\<lparr>token_hash = h, issued_at = now, expires_at = expires, revoked_at = None, replaced_by = None\<rparr>]\<rparr>))"

definition issue_tokens ::
  "crypto \<Rightarrow> real \<Rightarrow> string \<Rightarrow> string \<Rightarrow> admin_user \<Rightarrow> auth_state \<Rightarrow> (auth_exn + token_result) \<times> auth_state" where
  "issue_tokens c wall access_token refresh_token u st =
     (let scope = scope_for u;
          st1 = st\<lparr>access_tokens := AList.update (sha256 c access_token)
                     \<lparr>ae_expires_at = wall + real_of_int (access_ttl st), ae_scope = scope\<rparr> (access_tokens st)\<rparr>;
          now = trunc wall
      in case insert_token (sha256 c refresh_token) now (now + refresh_ttl st) st1 of
           (Inl e, st2) \<Rightarrow> (Inl e, st2)
         | (Inr _, st2) \<Rightarrow>
             (Inr \<lparr>tr_access_token = access_token, tr_refresh_token = refresh_token,
                   tr_expires_in = access_ttl st, tr_scope = scope,
                   tr_must_change_password = must_change_password u\<rparr>, st2))"

text \<open>\<open>password_grant\<close> before and after its await.\<close>

definition login_check :: "real \<Rightarrow> string \<Rightarrow> auth_state \<Rightarrow> auth_exn + unit" where
  "login_check t source_ip st = throttle_check t source_ip (throttle st)"

definition password_ok :: "crypto \<Rightarrow> string \<Rightarrow> admin_user \<Rightarrow> bool" where
  "password_ok c password u \<longleftrightarrow>
     scrypt c password (password_salt u) (user_kdf_params u) = password_hash u"

definition login_finish ::
  "crypto \<Rightarrow> real \<Rightarrow> real \<Rightarrow> string \<Rightarrow> string \<Rightarrow> string \<Rightarrow> string \<Rightarrow> string \<Rightarrow> auth_state \<Rightarrow>
     (auth_exn + token_result) \<times> auth_state" where
  "login_finish c t wall access_token refresh_token name password source_ip st =
     (case get_user st of
        Inl e \<Rightarrow> (Inl e, st)
      | Inr u \<Rightarrow>
          if \<not> (name = username u \<and> password_ok c password u)
          then (Inl bad_login, st\<lparr>throttle := record_failure t source_ip (throttle st)\<rparr>)
          else issue_tokens c wall access_token refresh_token u
                 (st\<lparr>throttle := record_success source_ip (throttle st)\<rparr>))"

definition password_grant ::
  "crypto \<Rightarrow> real \<Rightarrow> real \<Rightarrow> real \<Rightarrow> string \<Rightarrow> string \<Rightarrow> string \<Rightarrow> string \<Rightarrow> string \<Rightarrow> auth_state \<Rightarrow>
     (auth_exn + token_result) \<times> auth_state" where
  "password_grant c t t' wall access_token refresh_token name password source_ip st =
     (case login_check t source_ip st of
        Inl e \<Rightarrow> (Inl e, st)
      | Inr _ \<Rightarrow> login_finish c t' wall access_token refresh_token name password source_ip st)"

definition revoke_row :: "int \<Rightarrow> refresh_row \<Rightarrow> refresh_row" where
  "revoke_row now r = (if revoked_at r = None then r\<lparr>revoked_at := Some now\<rparr> else r)"

definition revoke_all :: "real \<Rightarrow> auth_state \<Rightarrow> auth_state" where
  "revoke_all wall st =
     st\<lparr>refresh_rows := map (revoke_row (trunc wall)) (refresh_rows st), access_tokens := []\<rparr>"

text \<open>\<open>refresh_grant\<close>: the look-up and its refusals, the new pair, the retirement of the old token.\<close>

definition refresh_lookup :: "crypto \<Rightarrow> real \<Rightarrow> string \<Rightarrow> auth_state \<Rightarrow> (auth_exn + unit) \<times> auth_state" where
  "refresh_lookup c wall refresh_token st =
     (case find_token (sha256 c refresh_token) st of
        None \<Rightarrow> (Inl (AuthError ''invalid_grant'' ''unknown refresh token'' 400), st)
      | Some row \<Rightarrow>
          if revoked_at row \<noteq> None
          then (Inl (AuthError ''invalid_grant'' ''refresh token already used'' 400), revoke_all wall st)
          else if expires_at row < trunc wall
          then (Inl (AuthError ''invalid_grant'' ''refresh token expired'' 400), st)
          else (Inr (), st))"

definition refresh_issue ::
  "crypto \<Rightarrow> real \<Rightarrow> string \<Rightarrow> string \<Rightarrow> auth_state \<Rightarrow> (auth_exn + token_result) \<times> auth_state" where
  "refresh_issue c wall access_token new_refresh st =
     (case get_user st of
        Inl e \<Rightarrow> (Inl e, st)
      | Inr u \<Rightarrow> issue_tokens c wall access_token new_refresh u st)"

definition refresh_retire :: "crypto \<Rightarrow> real \<Rightarrow> string \<Rightarrow> string \<Rightarrow> auth_state \<Rightarrow> auth_state" where
  "refresh_retire c wall new_refresh refresh_token st =
     st\<lparr>refresh_rows := map (\<lambda>r. if token_hash r = sha256 c refresh_token
          then r\<lparr>revoked_at := Some (trunc wall), replaced_by := Some (sha256 c new_refresh)\<rparr> else r)
        (refresh_rows st)\<rparr>"

definition refresh_grant ::
  "crypto \<Rightarrow> real \<Rightarrow> real \<Rightarrow> string \<Rightarrow> string \<Rightarrow> string \<Rightarrow> auth_state \<Rightarrow>
     (auth_exn + token_result) \<times> auth_state" where
  "refresh_grant c wall wall' access_token new_refresh refresh_token st =
     (case refresh_lookup c wall refresh_token st of
        (Inl e, st1) \<Rightarrow> (Inl e, st1)
      | (Inr _, st1) \<Rightarrow>
          (case refresh_issue c wall' access_token new_refresh st1 of
             (Inl e, st2) \<Rightarrow> (Inl e, st2)
           | (Inr result, st2) \<Rightarrow>
               (Inr result, refresh_retire c wall (tr_refresh_token result) refresh_token st2)))"

definition revoke_refresh_token :: "crypto \<Rightarrow> real \<Rightarrow> string \<Rightarrow> auth_state \<Rightarrow> auth_state" where
  "revoke_refresh_token c wall refresh_token st =
     st\<lparr>refresh_rows := map (\<lambda>r. if token_hash r = sha256 c refresh_token
          then revoke_row (trunc wall) r else r) (refresh_rows st)\<rparr>"

definition verify_access_token :: "crypto \<Rightarrow> real \<Rightarrow> string \<Rightarrow> auth_state \<Rightarrow> access_entry option \<times> auth_state" where
  "verify_access_token c wall access_token st =
     (case map_of (access_tokens st) (sha256 c access_token) of
        None \<Rightarrow> (None, st)
      | Some entry \<Rightarrow>
          if ae_expires_at entry < wall
          then (None, st\<lparr>access_tokens := AList.delete (sha256 c access_token) (access_tokens st)\<rparr>)
          else (Some entry, st))"

definition change_password ::
  "crypto \<Rightarrow> real \<Rightarrow> bytes \<Rightarrow> string \<Rightarrow> string \<Rightarrow> auth_state \<Rightarrow> (auth_exn + unit) \<times> auth_state" where
  "change_password c wall salt current_password new_password st =
     (case get_user st of
        Inl e \<Rightarrow> (Inl e, st)
      | Inr u \<Rightarrow>
          if \<not> password_ok c current_password u
          then (Inl (AuthError ''invalid_grant'' ''current password is incorrect'' 400), st)
          else if length new_password < MIN_PASSWORD_LENGTH
          then (Inl (AuthError ''invalid_request''
                  (''new password must be at least '' @ str_nat MIN_PASSWORD_LENGTH @ '' characters'') 400), st)
          else if new_password = current_password \<or> new_password = DEFAULT_PASSWORD
          then (Inl (AuthError ''invalid_request'' ''new password must differ from the current one'' 400), st)
          else
            (Inr (), revoke_all wall
               (st\<lparr>user_row := Some (u\<lparr>password_hash := scrypt c new_password salt DEFAULT_KDF_PARAMS,
                    password_salt := salt, user_kdf_params := DEFAULT_KDF_PARAMS,
                    must_change_password := False, password_changed_at := Some (trunc wall)\<rparr>)\<rparr>)))"

text \<open>The part of the daily \<open>prune_retention\<close> that concerns this component.\<close>

definition prune_refresh_tokens :: "real \<Rightarrow> int \<Rightarrow> auth_state \<Rightarrow> auth_state" where
  "prune_refresh_tokens wall cutoff st =
     st\<lparr>refresh_rows := filter (\<lambda>r. \<not> (expires_at r < trunc wall \<or>
          (case revoked_at r of None \<Rightarrow> False | Some t \<Rightarrow> t < cutoff))) (refresh_rows st)\<rparr>"

section \<open>Runs\<close>

datatype auth_op =
    Login real real real string string string string string
  | Refresh real real string string string
  | Revoke real string
  | Verify real string
  | Change_password real bytes string string
  | Prune real int

fun auth_step :: "crypto \<Rightarrow> auth_op \<Rightarrow> auth_state \<Rightarrow> auth_state" where
  "auth_step c (Login t t' w a r u p ip) st = snd (password_grant c t t' w a r u p ip st)"
| "auth_step c (Refresh w w' a r tok) st = snd (refresh_grant c w w' a r tok st)"
| "auth_step c (Revoke w tok) st = revoke_refresh_token c w tok st"
| "auth_step c (Verify w tok) st = snd (verify_access_token c w tok st)"
| "auth_step c (Change_password w salt cur new) st = snd (change_password c w salt cur new st)"
| "auth_step c (Prune w cutoff) st = prune_refresh_tokens w cutoff st"

text \<open>The refresh token an operation draws, if it does.\<close>

fun drawn :: "auth_op \<Rightarrow> string option" where
  "drawn (Login t t' w a r u p ip) = Some r"
| "drawn (Refresh w w' a r tok) = Some r"
| "drawn op = None"

section \<open>Refresh tokens\<close>

definition spent :: "bytes \<Rightarrow> auth_state \<Rightarrow> bool" where
  "spent h st \<longleftrightarrow> (case find_token h st of None \<Rightarrow> True | Some r \<Rightarrow> revoked_at r \<noteq> None)"

lemma find_map_hash:
  "(\<And>r. token_hash (f r) = token_hash r) \<Longrightarrow>
    find (\<lambda>r. token_hash r = h) (map f rows) = map_option f (find (\<lambda>r. token_hash r = h) rows)"
  by (induction rows) simp_all

lemma find_SomeD: "find p xs = Some x \<Longrightarrow> p x \<and> x \<in> set xs"
  by (induction xs) (auto split: if_splits)

lemma find_filter:
  assumes "find p (filter q xs) = Some x" and "distinct (map f xs)" and "\<And>y. p y = (f y = h)"
  shows "find p xs = Some x"
  using assms(1,2)
proof (induction xs)
  case (Cons y ys)
  show ?case
  proof (cases "p y \<and> \<not> q y")
    case True
    then have "p x" "x \<in> set ys" using Cons.prems(1) by (auto dest: find_SomeD)
    with True Cons.prems(2) assms(3) show ?thesis by (metis distinct.simps(2) image_eqI list.simps(9) set_map)
  qed (use Cons in \<open>auto split: if_splits\<close>)
qed simp

lemma revoke_row_hash [simp]: "token_hash (revoke_row now r) = token_hash r"
  by (simp add: revoke_row_def)

lemma revoke_row_revoked [simp]: "\<exists>t. revoked_at (revoke_row now r) = Some t"
  by (simp add: revoke_row_def)

definition keyed :: "auth_state \<Rightarrow> bool" where
  "keyed st \<longleftrightarrow> distinct (map token_hash (refresh_rows st))"

lemma find_token_None: "find_token h st = None \<longleftrightarrow> h \<notin> token_hash ` set (refresh_rows st)"
  by (auto simp: find_token_def find_None_iff)

lemma find_append: "find p (xs @ ys) = (case find p xs of None \<Rightarrow> find p ys | Some x \<Rightarrow> Some x)"
  by (induction xs) simp_all

lemma revoke_all_find: "find_token h (revoke_all w st) = map_option (revoke_row (trunc w)) (find_token h st)"
  by (simp add: find_token_def revoke_all_def find_map_hash)

lemma revoke_all_spent [simp]: "spent h (revoke_all w st)"
  by (simp add: spent_def revoke_all_find split: option.split)

lemma revoke_all_keyed [simp]: "keyed (revoke_all w st) = keyed st"
  by (simp add: keyed_def revoke_all_def comp_def)

lemma issue_keyed: "keyed st \<Longrightarrow> keyed (snd (issue_tokens c w a r u st))"
  by (auto simp: issue_tokens_def insert_token_def Let_def keyed_def find_token_def find_None_iff split: option.splits)

lemma issue_spent:
  "sha256 c r \<noteq> h \<Longrightarrow> spent h (snd (issue_tokens c w a r u st)) = spent h st"
  by (simp add: issue_tokens_def insert_token_def Let_def spent_def find_token_def find_append split: option.split)

lemma retire_find:
  "find_token h (refresh_retire c w new tok st) =
    map_option (\<lambda>r. if token_hash r = sha256 c tok
      then r\<lparr>revoked_at := Some (trunc w), replaced_by := Some (sha256 c new)\<rparr> else r) (find_token h st)"
  by (simp add: find_token_def refresh_retire_def find_map_hash)

lemma retire_spent: "spent h st \<Longrightarrow> spent h (refresh_retire c w new tok st)"
  by (auto simp: spent_def retire_find split: option.splits)

lemma retire_spends: "spent (sha256 c tok) (refresh_retire c w new tok st)"
  by (auto simp: spent_def retire_find split: option.split) (auto simp: find_token_def dest: find_SomeD)

lemma retire_hashes:
  "map token_hash (refresh_rows (refresh_retire c w new tok st)) = map token_hash (refresh_rows st)"
  by (simp add: refresh_retire_def)

lemma retire_keyed [simp]: "keyed (refresh_retire c w new tok st) = keyed st"
  by (simp add: keyed_def retire_hashes del: map_map)

lemma lookup_cases:
  "snd (refresh_lookup c w tok st) \<in> {st, revoke_all w st}"
  by (simp add: refresh_lookup_def split: option.split)

lemma refresh_grant_snd:
  "snd (refresh_grant c w w' a r tok st) =
    (let st1 = snd (refresh_lookup c w tok st); st2 = snd (refresh_issue c w' a r st1)
     in case fst (refresh_lookup c w tok st) of
          Inl e \<Rightarrow> st1
        | Inr _ \<Rightarrow> (case fst (refresh_issue c w' a r st1) of
            Inl e \<Rightarrow> st2
          | Inr res \<Rightarrow> refresh_retire c w (tr_refresh_token res) tok st2))"
  by (simp add: refresh_grant_def Let_def case_prod_beta split: sum.split)

lemma refresh_issue_keyed: "keyed st \<Longrightarrow> keyed (snd (refresh_issue c w a r st))"
  by (simp add: refresh_issue_def issue_keyed split: sum.split)

lemma refresh_issue_spent:
  "spent h st \<Longrightarrow> sha256 c r \<noteq> h \<Longrightarrow> spent h (snd (refresh_issue c w a r st))"
  by (simp add: refresh_issue_def issue_spent split: sum.split)

lemma refresh_keyed: "keyed st \<Longrightarrow> keyed (snd (refresh_grant c w w' a r tok st))"
  using lookup_cases [of c w tok st]
  by (auto simp: refresh_grant_snd Let_def refresh_issue_keyed split: sum.split)

lemma refresh_spent:
  "spent h st \<Longrightarrow> sha256 c r \<noteq> h \<Longrightarrow> spent h (snd (refresh_grant c w w' a r tok st))"
  using lookup_cases [of c w tok st]
  by (auto simp: refresh_grant_snd Let_def refresh_issue_spent retire_spent split: sum.split)

lemma throttle_irrelevant [simp]:
  "spent h (st\<lparr>throttle := th\<rparr>) = spent h st" "keyed (st\<lparr>throttle := th\<rparr>) = keyed st"
  "spent h (st\<lparr>access_tokens := ts\<rparr>) = spent h st" "keyed (st\<lparr>access_tokens := ts\<rparr>) = keyed st"
  "spent h (st\<lparr>user_row := u\<rparr>) = spent h st" "keyed (st\<lparr>user_row := u\<rparr>) = keyed st"
  by (simp_all add: spent_def find_token_def keyed_def)

lemma login_keyed: "keyed st \<Longrightarrow> keyed (snd (password_grant c t t' w a r u p ip st))"
  by (simp add: password_grant_def login_finish_def issue_keyed split: sum.split)

lemma login_spent:
  "spent h st \<Longrightarrow> sha256 c r \<noteq> h \<Longrightarrow> spent h (snd (password_grant c t t' w a r u p ip st))"
  by (simp add: password_grant_def login_finish_def issue_spent split: sum.split)

lemma revoke_token_spent: "spent h st \<Longrightarrow> spent h (revoke_refresh_token c w tok st)"
  by (auto simp: spent_def revoke_refresh_token_def find_token_def find_map_hash split: option.splits)

lemma prune_spent: "keyed st \<Longrightarrow> spent h st \<Longrightarrow> spent h (prune_refresh_tokens w k st)"
  unfolding spent_def prune_refresh_tokens_def keyed_def find_token_def
  by (auto split: option.splits dest: find_filter [where f = token_hash and h = h])

lemma step_keyed: "keyed st \<Longrightarrow> keyed (auth_step c op st)"
proof (cases op)
  case (Prune w k)
  assume "keyed st"
  then show ?thesis using Prune by (simp add: keyed_def prune_refresh_tokens_def distinct_map_filter)
next
  case (Revoke w tok)
  assume "keyed st"
  moreover have "token_hash \<circ> (\<lambda>r :: refresh_row. if token_hash r = sha256 c tok then revoke_row (trunc w) r else r) = token_hash"
    by auto
  ultimately show ?thesis using Revoke by (simp add: keyed_def revoke_refresh_token_def)
qed (simp_all add: login_keyed refresh_keyed verify_access_token_def change_password_def split: option.split sum.split)

lemma step_spent:
  "keyed st \<Longrightarrow> spent h st \<Longrightarrow> h \<notin> set (map (sha256 c) (List.map_filter drawn [op])) \<Longrightarrow> spent h (auth_step c op st)"
  by (cases op) (simp_all add: map_filter_simps login_spent refresh_spent revoke_token_spent prune_spent
      verify_access_token_def change_password_def split: option.split sum.split)

lemma run_spent:
  "keyed st \<Longrightarrow> spent h st \<Longrightarrow> h \<notin> set (map (sha256 c) (List.map_filter drawn ops)) \<Longrightarrow>
    spent h (fold (auth_step c) ops st)"
proof (induction ops arbitrary: st)
  case (Cons op ops)
  have "h \<notin> set (map (sha256 c) (List.map_filter drawn [op]))" "h \<notin> set (map (sha256 c) (List.map_filter drawn ops))"
    using Cons.prems(3) by (auto simp: map_filter_simps split: option.splits)
  with Cons show ?case by (simp add: step_keyed step_spent)
qed simp

lemma spent_refused:
  assumes "spent (sha256 c tok) st"
  shows "\<exists>e. fst (refresh_grant c w w' a r tok st) = Inl e"
    and "find_token (sha256 c tok) st \<noteq> None \<Longrightarrow> snd (refresh_grant c w w' a r tok st) = revoke_all w st"
  using assms by (auto simp: refresh_grant_def refresh_lookup_def spent_def split: option.splits)

lemma run_keyed: "keyed st \<Longrightarrow> keyed (fold (auth_step c) ops st)"
  by (induction ops arbitrary: st) (simp_all add: step_keyed)

lemma new_service_keyed: "keyed (ensure_admin_user c w0 salt (new_auth_service attl rttl user []))"
  by (simp add: keyed_def ensure_admin_user_def new_auth_service_def split: option.split)

lemma refresh_success_spends:
  "refresh_grant c w w' a r tok st = (Inr res, st1) \<Longrightarrow> spent (sha256 c tok) st1"
  by (auto simp: refresh_grant_def retire_spends split: prod.splits sum.splits)

text \<open>
  C11. A refresh token is redeemed at most once: after a request that redeems it, whatever logins,
  refreshes, revocations, password changes, verifications and daily prunes follow, presenting it
  again is refused; and as long as its row has not been pruned, presenting it again revokes every
  refresh token and drops every access token. (Assumed: no token drawn later hashes to the
  same value, and requests do not overlap.)
\<close>

theorem refresh_token_single_use:
  fixes ops0 ops :: "auth_op list" and c :: crypto and v v' w w' :: real and attl rttl :: int
    and a a2 r r2 tok :: string and user :: "admin_user option"
  defines "st \<equiv> fold (auth_step c) ops0 (new_auth_service attl rttl user [])"
  assumes redeemed: "refresh_grant c w w' a r tok st = (Inr res, st1)"
    and fresh: "sha256 c tok \<notin> set (map (sha256 c) (List.map_filter drawn ops))"
  shows "case refresh_grant c v v' a2 r2 tok (fold (auth_step c) ops st1) of (res2, st3) \<Rightarrow>
    isl res2 \<and>
    (if find_token (sha256 c tok) (fold (auth_step c) ops st1) = None then True
     else access_tokens st3 = [] \<and> list_all (\<lambda>row. revoked_at row \<noteq> None) (refresh_rows st3))"
proof -
  have "keyed st" unfolding st_def by (rule run_keyed) (simp add: keyed_def new_auth_service_def)
  then have "keyed st1" using refresh_keyed [of st c w w' a r tok] redeemed by simp
  moreover have "spent (sha256 c tok) st1" using redeemed by (rule refresh_success_spends)
  ultimately have spent: "spent (sha256 c tok) (fold (auth_step c) ops st1)" using fresh by (rule run_spent)
  note refused = spent_refused [OF spent, of v v' a2 r2]
  have "list_all (\<lambda>row. revoked_at row \<noteq> None) (refresh_rows (revoke_all v s))" for s
    by (auto simp: revoke_all_def list_all_iff)
  moreover have "access_tokens (revoke_all v s) = []" for s by (simp add: revoke_all_def)
  ultimately show ?thesis using refused by (auto simp: case_prod_beta)
qed

definition toy_crypto :: crypto where
  "toy_crypto = \<lparr>scrypt = (\<lambda>p s k. p @ s), sha256 = (\<lambda>t. t)\<rparr>"

definition seeded :: auth_state where
  "seeded = ensure_admin_user toy_crypto 0 ''salt'' (new_auth_service 1800 2592000 None [])"

theorem refresh_token_single_use_witness:
  "isl (fst (refresh_grant toy_crypto 3 3 ''a3'' ''r3'' ''r1''
     (snd (refresh_grant toy_crypto 2 2 ''a2'' ''r2'' ''r1''
       (fold (auth_step toy_crypto) [Login 0 0 1 ''a1'' ''r1'' ''admin'' DEFAULT_PASSWORD ''ip'']
         (new_auth_service 1800 2592000 (user_row seeded) []))))))"
proof -
  let ?st = "fold (auth_step toy_crypto) [Login 0 0 1 ''a1'' ''r1'' ''admin'' DEFAULT_PASSWORD ''ip'']
         (new_auth_service 1800 2592000 (user_row seeded) [])"
  let ?out = "refresh_grant toy_crypto 2 2 ''a2'' ''r2'' ''r1'' ?st"
  have "fst ?out = Inr \<lparr>tr_access_token = ''a2'', tr_refresh_token = ''r2'', tr_expires_in = 1800,
      tr_scope = SCOPE_PASSWORD_CHANGE, tr_must_change_password = True\<rparr>"
    by (simp add: seeded_def ensure_admin_user_def new_auth_service_def toy_crypto_def password_grant_def login_check_def
        login_finish_def throttle_check_def new_throttle_def locked_for_def fresh_bucket_def get_user_def password_ok_def
        issue_tokens_def insert_token_def find_token_def Let_def scope_for_def record_success_def trunc_def
        refresh_grant_def refresh_lookup_def refresh_issue_def)
  then have out: "?out = (Inr \<lparr>tr_access_token = ''a2'', tr_refresh_token = ''r2'', tr_expires_in = 1800,
      tr_scope = SCOPE_PASSWORD_CHANGE, tr_must_change_password = True\<rparr>, snd ?out)"
    by (metis prod.collapse)
  show ?thesis
    using refresh_token_single_use [OF out, of "[]" 3 3 "''a3''" "''r3''"]
    by (simp add: map_filter_simps case_prod_beta)
qed

lemma retire_other_unspent:
  "h \<noteq> sha256 c tok \<Longrightarrow> spent h (refresh_retire c w new tok st) = spent h st"
proof -
  assume "h \<noteq> sha256 c tok"
  then have "token_hash x \<noteq> sha256 c tok" if "find_token h st = Some x" for x
    using that by (auto simp: find_token_def dest: find_SomeD)
  then show ?thesis by (simp add: spent_def retire_find split: option.split)
qed

lemma refresh_retire_user [simp]: "user_row (refresh_retire c w new tok st) = user_row st"
  by (simp add: refresh_retire_def)

lemma issue_fresh:
  assumes "sha256 c r \<notin> token_hash ` set (refresh_rows st)"
  shows "\<exists>res. fst (issue_tokens c w a r u st) = Inr res \<and> tr_refresh_token res = r"
    and "\<not> spent (sha256 c r) (snd (issue_tokens c w a r u st))"
    and "user_row (snd (issue_tokens c w a r u st)) = user_row st"
    and "token_hash ` set (refresh_rows (snd (issue_tokens c w a r u st))) = insert (sha256 c r) (token_hash ` set (refresh_rows st))"
proof -
  have new: "find (\<lambda>row. token_hash row = sha256 c r) (refresh_rows st) = None"
    using assms find_token_None [of "sha256 c r" st] by (simp add: find_token_def)
  show "\<exists>res. fst (issue_tokens c w a r u st) = Inr res \<and> tr_refresh_token res = r"
    and "\<not> spent (sha256 c r) (snd (issue_tokens c w a r u st))"
    and "user_row (snd (issue_tokens c w a r u st)) = user_row st"
    and "token_hash ` set (refresh_rows (snd (issue_tokens c w a r u st))) = insert (sha256 c r) (token_hash ` set (refresh_rows st))"
    using new by (simp_all add: issue_tokens_def insert_token_def Let_def find_token_def spent_def find_append)
qed

text \<open>
  The single use does not survive overlapping requests: two requests that present the same
  valid refresh token, the second looking it up before the first has retired it, are both
  given a new pair; both new refresh tokens are valid afterwards and no reuse is detected.
\<close>

theorem refresh_overlap:
  assumes valid: "find_token (sha256 c tok) st = Some row" "revoked_at row = None"
      "\<not> expires_at row < trunc w1" "\<not> expires_at row < trunc w2"
    and user: "user_row st = Some u"
    and fresh: "sha256 c r1 \<notin> token_hash ` set (refresh_rows st)" "sha256 c r2 \<notin> token_hash ` set (refresh_rows st)"
      "sha256 c r1 \<noteq> sha256 c r2"
    and first: "st1 = snd (refresh_issue c w1' a1 r1 st)" "st2 = refresh_retire c w1 r1 tok st1"
    and second: "st3 = snd (refresh_issue c w2' a2 r2 st2)" "st4 = refresh_retire c w2 r2 tok st3"
  shows "refresh_lookup c w1 tok st = (Inr (), st) \<and> refresh_lookup c w2 tok st = (Inr (), st) \<and>
    \<not> isl (fst (refresh_issue c w1' a1 r1 st)) \<and> \<not> isl (fst (refresh_issue c w2' a2 r2 st2)) \<and>
    \<not> spent (sha256 c r1) st4 \<and> \<not> spent (sha256 c r2) st4"
proof -
  have look: "refresh_lookup c w1 tok st = (Inr (), st)" "refresh_lookup c w2 tok st = (Inr (), st)"
    using valid by (simp_all add: refresh_lookup_def)
  have old: "sha256 c tok \<in> token_hash ` set (refresh_rows st)"
    using valid(1) by (force simp: find_token_def dest: find_SomeD)
  note i1 = issue_fresh [OF fresh(1), of w1' a1 u]
  have st1: "st1 = snd (issue_tokens c w1' a1 r1 u st)" using first user by (simp add: refresh_issue_def get_user_def)
  have rows2: "token_hash ` set (refresh_rows st2) = token_hash ` set (refresh_rows st1)"
    unfolding first(2) by (metis retire_hashes set_map)
  have fresh2: "sha256 c r2 \<notin> token_hash ` set (refresh_rows st2)"
    using i1(4) fresh st1 rows2 by auto
  note i2 = issue_fresh [OF fresh2, of w2' a2 u]
  have user2: "user_row st2 = Some u" using i1(3) user st1 first(2) by simp
  then have st3: "st3 = snd (issue_tokens c w2' a2 r2 u st2)" using second by (simp add: refresh_issue_def get_user_def)
  have ne: "sha256 c r1 \<noteq> sha256 c tok" "sha256 c r2 \<noteq> sha256 c tok" using old fresh by auto
  have "\<not> spent (sha256 c r1) st3"
    unfolding st3 using issue_spent [of c r2 "sha256 c r1"] i1(2) ne fresh(3) first(2) st1 by (simp add: retire_other_unspent)
  with ne i2(2) have "\<not> spent (sha256 c r1) st4 \<and> \<not> spent (sha256 c r2) st4"
    unfolding second(2) st3 by (simp add: retire_other_unspent)
  with look i1(1) i2(1) user user2 show ?thesis by (auto simp: refresh_issue_def get_user_def)
qed

definition one_token :: auth_state where
  "one_token = seeded\<lparr>refresh_rows := [\<lparr>token_hash = ''r0'', issued_at = 0, expires_at = 100, revoked_at = None, replaced_by = None\<rparr>]\<rparr>"

theorem refresh_overlap_witness:
  "\<not> spent ''r1'' (refresh_retire toy_crypto 2 ''r2'' ''r0'' (snd (refresh_issue toy_crypto 3 ''a2'' ''r2''
     (refresh_retire toy_crypto 1 ''r1'' ''r0'' (snd (refresh_issue toy_crypto 2 ''a1'' ''r1'' one_token))))))"
proof -
  have sha: "sha256 toy_crypto = (\<lambda>t. t)" by (simp add: toy_crypto_def)
  have rows: "refresh_rows one_token = [\<lparr>token_hash = ''r0'', issued_at = 0, expires_at = 100, revoked_at = None, replaced_by = None\<rparr>]"
    by (simp add: one_token_def)
  have user: "user_row one_token = Some (the (user_row one_token))"
    by (simp add: one_token_def seeded_def ensure_admin_user_def new_auth_service_def)
  show ?thesis
    using refresh_overlap [of toy_crypto "''r0''" one_token _ 1 2, OF _ _ _ _ user _ _ _ refl refl refl refl,
        of "\<lparr>token_hash = ''r0'', issued_at = 0, expires_at = 100, revoked_at = None, replaced_by = None\<rparr>" "''r1''" "''r2''"]
    by (simp add: sha rows find_token_def trunc_def)
qed

section \<open>Passwords and scopes\<close>

text \<open>
  C30. A successful password change ends every session: afterwards no access token verifies, every
  refresh token is revoked, the forced change is over, and a login (with the throttle open) succeeds
  exactly for the administrator's name with a password that hashes like the new one.
\<close>

theorem change_password_effect:
  assumes "change_password c wall salt cur new st = (Inr (), st1)"
    and "sha256 c r \<notin> token_hash ` set (refresh_rows st)"
  shows "(\<forall>now tok. fst (verify_access_token c now tok st1) = None) \<and>
    list_all (\<lambda>row. revoked_at row \<noteq> None) (refresh_rows st1) \<and>
    12 \<le> length new \<and> new \<noteq> cur \<and> new \<noteq> DEFAULT_PASSWORD \<and>
    (\<exists>u. user_row st1 = Some u \<and> \<not> must_change_password u \<and>
      (login_check t ip st1 = Inr () \<longrightarrow>
        (\<not> isl (fst (password_grant c t t' w a r name p ip st1)) \<longleftrightarrow>
          name = username u \<and> scrypt c p salt DEFAULT_KDF_PARAMS = scrypt c new salt DEFAULT_KDF_PARAMS)))"
proof -
  from assms(1) obtain u0 where u0: "user_row st = Some u0" "12 \<le> length new" "new \<noteq> cur" "new \<noteq> DEFAULT_PASSWORD"
    and st1: "st1 = revoke_all wall (st\<lparr>user_row := Some (u0\<lparr>password_hash := scrypt c new salt DEFAULT_KDF_PARAMS,
        password_salt := salt, user_kdf_params := DEFAULT_KDF_PARAMS,
        must_change_password := False, password_changed_at := Some (trunc wall)\<rparr>)\<rparr>)"
    by (auto simp: change_password_def get_user_def auth_constants split: option.splits if_splits)
  obtain u where u: "user_row st1 = Some u" "\<not> must_change_password u" "password_salt u = salt"
      "user_kdf_params u = DEFAULT_KDF_PARAMS" "password_hash u = scrypt c new salt DEFAULT_KDF_PARAMS"
    using st1 by (simp add: revoke_all_def)
  have dead: "access_tokens st1 = []" "list_all (\<lambda>row. revoked_at row \<noteq> None) (refresh_rows st1)"
    using st1 by (auto simp: revoke_all_def list_all_iff)
  have "token_hash ` set (refresh_rows st1) = token_hash ` set (refresh_rows st)"
    unfolding st1 by (auto simp: revoke_all_def image_iff)
  then have "sha256 c r \<notin> token_hash ` set (refresh_rows (st1\<lparr>throttle := th\<rparr>))" for th
    using assms(2) by simp
  then have "\<not> isl (fst (issue_tokens c w a r u (st1\<lparr>throttle := th\<rparr>)))" for th
    by (metis issue_fresh(1) sum.disc(2))
  then have "login_check t ip st1 = Inr () \<longrightarrow>
        (\<not> isl (fst (password_grant c t t' w a r name p ip st1)) \<longleftrightarrow>
          name = username u \<and> scrypt c p salt DEFAULT_KDF_PARAMS = scrypt c new salt DEFAULT_KDF_PARAMS)"
    using u by (auto simp: password_grant_def login_finish_def get_user_def password_ok_def)
  with u0 u dead show ?thesis by (auto simp: verify_access_token_def)
qed

theorem change_password_effect_witness:
  "\<forall>now tok. fst (verify_access_token toy_crypto now tok
     (snd (change_password toy_crypto 5 ''pepper'' DEFAULT_PASSWORD ''correct horse battery'' seeded))) = None"
proof -
  let ?out = "change_password toy_crypto 5 ''pepper'' DEFAULT_PASSWORD ''correct horse battery'' seeded"
  have "fst ?out = Inr ()"
    by (simp add: seeded_def ensure_admin_user_def new_auth_service_def toy_crypto_def change_password_def get_user_def
        password_ok_def auth_constants DEFAULT_PASSWORD_def)
  then have out: "?out = (Inr (), snd ?out)" by (metis prod.collapse)
  show ?thesis
    using change_password_effect [OF out, of "''r1''"]
    by (auto simp: seeded_def ensure_admin_user_def new_auth_service_def)
qed

section \<open>Pacing of password guesses\<close>

definition right_credentials :: "crypto \<Rightarrow> string \<Rightarrow> string \<Rightarrow> auth_state \<Rightarrow> bool" where
  "right_credentials c name p st \<longleftrightarrow>
     (case user_row st of None \<Rightarrow> False | Some u \<Rightarrow> name = username u \<and> password_ok c p u)"

text \<open>The times at which a wrong password is compared, in a run.\<close>

fun guess_at :: "crypto \<Rightarrow> auth_op \<Rightarrow> auth_state \<Rightarrow> real list" where
  "guess_at c (Login t t' w a r name p ip) st =
     (if login_check t ip st = Inr () \<and> user_row st \<noteq> None \<and> \<not> right_credentials c name p st then [t'] else [])"
| "guess_at c op st = []"

fun guess_times :: "crypto \<Rightarrow> auth_op list \<Rightarrow> auth_state \<Rightarrow> real list" where
  "guess_times c [] st = []"
| "guess_times c (op # ops) st = guess_at c op st @ guess_times c ops (auth_step c op st)"

text \<open>No request of the run logs in, and the monotonic clock does not run backwards.\<close>

fun logs_in :: "crypto \<Rightarrow> auth_op \<Rightarrow> auth_state \<Rightarrow> bool" where
  "logs_in c (Login t t' w a r name p ip) st = (login_check t ip st = Inr () \<and> right_credentials c name p st)"
| "logs_in c op st = False"

fun no_login :: "crypto \<Rightarrow> auth_op list \<Rightarrow> auth_state \<Rightarrow> bool" where
  "no_login c [] st = True"
| "no_login c (op # ops) st = (\<not> logs_in c op st \<and> no_login c ops (auth_step c op st))"

fun clocked :: "real \<Rightarrow> auth_op list \<Rightarrow> bool" where
  "clocked t0 [] = True"
| "clocked t0 (Login t t' w a r name p ip # ops) = (t0 \<le> t \<and> t \<le> t' \<and> clocked t' ops)"
| "clocked t0 (op # ops) = clocked t0 ops"

fun paced :: "nat \<Rightarrow> real \<Rightarrow> real list \<Rightarrow> bool" where
  "paced k l [] = True"
| "paced k l (g # gs) = (l \<le> g \<and> (5 \<le> k \<longrightarrow> l + real (backoff k) \<le> g) \<and> paced (Suc k) g gs)"

definition armed :: "nat \<Rightarrow> real \<Rightarrow> auth_state \<Rightarrow> bool" where
  "armed k l st \<longleftrightarrow> failures (global_bucket (throttle st)) = k \<and>
     (5 \<le> k \<longrightarrow> locked_until (global_bucket (throttle st)) = l + real (backoff k))"

lemma login_check_open:
  "login_check t ip st = Inr () \<Longrightarrow> locked_until (global_bucket (throttle st)) \<le> t"
  by (auto simp: login_check_def throttle_check_def locked_for_def split: if_splits)

fun is_login :: "auth_op \<Rightarrow> bool" where
  "is_login (Login t t' w a r name p ip) = True"
| "is_login op = False"

lemma other_ops_throttle: "\<not> is_login op \<Longrightarrow> throttle (auth_step c op st) = throttle st"
  by (cases op) (simp_all add: refresh_grant_snd refresh_lookup_def refresh_issue_def issue_tokens_def insert_token_def
      refresh_retire_def revoke_all_def revoke_refresh_token_def verify_access_token_def change_password_def
      prune_refresh_tokens_def Let_def split: option.split sum.split)

lemma refused_login:
  "login_check t ip st \<noteq> Inr () \<or> user_row st = None \<Longrightarrow> auth_step c (Login t t' w a r name p ip) st = st"
  by (auto simp: password_grant_def login_finish_def get_user_def split: sum.splits)

lemma failed_login:
  "login_check t ip st = Inr () \<Longrightarrow> user_row st \<noteq> None \<Longrightarrow> \<not> right_credentials c name p st \<Longrightarrow>
    auth_step c (Login t t' w a r name p ip) st = st\<lparr>throttle := record_failure t' ip (throttle st)\<rparr>"
  by (auto simp: password_grant_def login_finish_def get_user_def right_credentials_def)

lemma record_failure_armed:
  "failures (global_bucket (throttle st)) = k \<Longrightarrow> armed (Suc k) t' (st\<lparr>throttle := record_failure t' ip (throttle st)\<rparr>)"
  by (simp add: armed_def record_failure_def count_failure_def Let_def THROTTLE_THRESHOLD_def)

lemma guesses_paced:
  "armed k l st \<Longrightarrow> l \<le> t0 \<Longrightarrow> clocked t0 ops \<Longrightarrow> no_login c ops st \<Longrightarrow> paced k l (guess_times c ops st)"
proof (induction ops arbitrary: k l t0 st)
  case (Cons op ops)
  show ?case
  proof (cases "is_login op")
    case True
    then obtain t t' w a r name p ip where op: "op = Login t t' w a r name p ip" by (cases op) auto
    have clock: "t0 \<le> t" "t \<le> t'" "clocked t' ops" using Cons.prems(3) op by simp_all
    have "\<not> (login_check t ip st = Inr () \<and> right_credentials c name p st)" using Cons.prems(4) op by simp
    then consider (refused) "login_check t ip st \<noteq> Inr () \<or> user_row st = None"
      | (tested) "login_check t ip st = Inr ()" "user_row st \<noteq> None" "\<not> right_credentials c name p st"
      by blast
    then show ?thesis
    proof cases
      case refused
      then have "guess_at c op st = []" "auth_step c op st = st" using op refused_login by auto
      moreover have "paced k l (guess_times c ops st)"
        using Cons.prems calculation clock by (intro Cons.IH [of _ _ _ t']) auto
      ultimately show ?thesis by simp
    next
      case tested
      let ?st = "auth_step c op st"
      have step: "?st = st\<lparr>throttle := record_failure t' ip (throttle st)\<rparr>" using tested op failed_login by simp
      have "armed (Suc k) t' ?st" unfolding step using Cons.prems(1) by (intro record_failure_armed) (simp add: armed_def)
      then have "paced (Suc k) t' (guess_times c ops ?st)"
        using Cons.prems(4) clock by (intro Cons.IH [of _ _ _ t']) auto
      moreover have "5 \<le> k \<longrightarrow> l + real (backoff k) \<le> t'"
        using Cons.prems(1) login_check_open [OF tested(1)] clock by (auto simp: armed_def)
      ultimately show ?thesis using tested op clock Cons.prems(2) by simp
    qed
  next
    case False
    then have "clocked t0 ops" "guess_at c op st = []" using Cons.prems(3) by (cases op; simp)+
    moreover have "armed k l (auth_step c op st)" using Cons.prems(1) other_ops_throttle [of op c st] False by (auto simp: armed_def)
    ultimately show ?thesis using Cons.prems Cons.IH by simp
  qed
qed simp

lemma paced_nth:
  "paced k l gs \<Longrightarrow> i < length gs \<Longrightarrow>
    (if i = 0 then l else gs ! (i - 1)) + (if 5 \<le> k + i then real (backoff (k + i)) else 0) \<le> gs ! i"
proof (induction gs arbitrary: k l i)
  case (Cons g gs)
  then show ?case
    by (cases i) (use Cons.IH [of "Suc k" g "i - 1"] Cons.prems in \<open>auto split: if_splits\<close>)
qed simp

lemma backoff_max: "9 \<le> n \<Longrightarrow> backoff n = 900"
proof -
  assume "9 \<le> n"
  then have "(2::nat) ^ 4 \<le> 2 ^ (n - 5)" by (intro power_increasing) auto
  then show ?thesis by (simp add: backoff_def auth_constants)
qed

lemma paced_hd:
  assumes "paced 0 l gs"
  shows "j < length gs \<Longrightarrow> hd gs \<le> gs ! j"
proof (induction j)
  case (Suc j)
  then show ?case using paced_nth [OF assms, of "Suc j"] by (auto split: if_splits)
qed (auto simp: hd_conv_nth)

lemma paced_late:
  assumes "paced 0 l gs"
  shows "8 \<le> i \<Longrightarrow> i < length gs \<Longrightarrow> hd gs + 900 * real (i - 8) \<le> gs ! i"
proof (induction i rule: nat_induct_at_least)
  case base
  then show ?case using paced_hd [OF assms] by simp
next
  case (Suc i)
  have "gs ! i + 900 \<le> gs ! Suc i"
    using paced_nth [OF assms, of "Suc i"] Suc backoff_max [of "Suc i"] by (auto split: if_splits)
  moreover have "real (Suc i - 8) = real (i - 8) + 1" using Suc(1) by simp
  ultimately show ?case using Suc by simp
qed


definition wrong_login :: "real \<Rightarrow> auth_op" where
  "wrong_login t = Login t t 0 ''a'' ''r'' ''admin'' ''guess'' ''ip''"

lemmas throttle_eval = wrong_login_def login_check_def throttle_check_def locked_for_def record_failure_def count_failure_def
  backoff_def auth_constants right_credentials_def password_ok_def seeded_def ensure_admin_user_def new_auth_service_def
  new_throttle_def fresh_bucket_def toy_crypto_def password_grant_def login_finish_def get_user_def DEFAULT_PASSWORD_def


text \<open>
  The pacing holds for requests that do not overlap: the throttle is consulted before the store
  is awaited and charged after it, so requests that are in flight together are all compared, however
  many there are.
\<close>

lemma login_overlap:
  assumes "login_check t ip st = Inr ()" and "right_credentials c name p st"
    and "sha256 c r \<notin> token_hash ` set (refresh_rows st)"
    and "\<And>g. g \<in> set gs \<Longrightarrow> \<not> right_credentials c name g st"
  shows "\<not> isl (fst (login_finish c t' w a r name p ip
    (fold (\<lambda>g st. snd (login_finish c t' w a r name g ip st)) gs st)))"
proof -
  have "\<exists>th. fold (\<lambda>g st. snd (login_finish c t' w a r name g ip st)) gs st = st\<lparr>throttle := th\<rparr>"
    using assms(4)
  proof (induction gs rule: rev_induct)
    case Nil
    show ?case by (rule exI [of _ "throttle st"]) simp
  next
    case (snoc g gs)
    then obtain th where "fold (\<lambda>g st. snd (login_finish c t' w a r name g ip st)) gs st = st\<lparr>throttle := th\<rparr>" by auto
    with snoc.prems [of g] assms(2) show ?case
      by (auto simp: login_finish_def get_user_def right_credentials_def split: option.splits)
  qed
  then obtain th where st': "fold (\<lambda>g st. snd (login_finish c t' w a r name g ip st)) gs st = st\<lparr>throttle := th\<rparr>" by blast
  have "\<not> isl (fst (issue_tokens c w a r u (st\<lparr>throttle := th'\<rparr>)))" for u th'
    using issue_fresh(1) [of c r "st\<lparr>throttle := th'\<rparr>"] assms(3) by (metis auth_state.select_convs(4) auth_state.surjective auth_state.update_convs(5) sum.disc(2))
  then show ?thesis
    unfolding st' using assms(2) by (auto simp: login_finish_def get_user_def right_credentials_def split: option.splits)
qed

end
