(* ===== verification/Admin_Access.thy ===== *)
theory Admin_Access
  imports Admin_Auth
begin

text \<open>
  Access to the admin API: the bearer-token dependency of \<^verbatim>\<open>src/zorkbot/src/zorkbot/admin/deps.py\<close>
  and the authentication routes of \<^verbatim>\<open>admin/routes/auth.py\<close>.

  A handler's \<open>HTTPException\<close> is an \<open>http_error\<close> with the status, the error code and the
  description of its JSON detail; the other exceptions of the service reach the framework as
  \<open>Server_error\<close> (status 500). A required form field that is missing is refused by the
  framework before the handler runs, so it is not an option here.
\<close>

datatype http_error = Http_error int string string | Server_error

definition bearer_token :: "string option \<Rightarrow> http_error + string" where
  "bearer_token authorization =
     (let header = (case authorization of None \<Rightarrow> [] | Some h \<Rightarrow> h);
          missing = Inl (Http_error 401 ''invalid_request'' ''missing bearer token'')
      in if \<not> startswith (lower header) ''bearer '' then missing
         else let token = strip (drop (length ''bearer '') header)
              in if token = [] then missing else Inr token)"

definition require_scope ::
  "crypto \<Rightarrow> string \<Rightarrow> real \<Rightarrow> string option \<Rightarrow> auth_state \<Rightarrow> (http_error + access_entry) \<times> auth_state" where
  "require_scope c required wall authorization st =
     (case bearer_token authorization of
        Inl e \<Rightarrow> (Inl e, st)
      | Inr token \<Rightarrow>
          (case verify_access_token c wall token st of
             (None, st1) \<Rightarrow> (Inl (Http_error 401 ''invalid_token'' ''access token is missing, expired, or unknown''), st1)
           | (Some entry, st1) \<Rightarrow>
               if required = SCOPE_ADMIN \<and> ae_scope entry \<noteq> SCOPE_ADMIN
               then (Inl (Http_error 403 ''insufficient_scope'' ''password change required''), st1)
               else (Inr entry, st1)))"

fun http_of_auth :: "auth_exn \<Rightarrow> http_error" where
  "http_of_auth (AuthError e d status) = Http_error status e d"
| "http_of_auth (AssertionFailed m) = Server_error"
| "http_of_auth (IntegrityError m) = Server_error"

section \<open>Routes\<close>

record token_draw =
  td_access :: string
  td_refresh :: string

definition map_error :: "('a \<Rightarrow> 'b) \<Rightarrow> 'a + 'c \<Rightarrow> 'b + 'c" where
  "map_error f x = (case x of Inl e \<Rightarrow> Inl (f e) | Inr v \<Rightarrow> Inr v)"

definition post_token ::
  "crypto \<Rightarrow> real \<Rightarrow> real \<Rightarrow> real \<Rightarrow> real \<Rightarrow> token_draw \<Rightarrow> string option \<Rightarrow> string \<Rightarrow> string option \<Rightarrow> string option \<Rightarrow>
     string option \<Rightarrow> auth_state \<Rightarrow> (http_error + token_result) \<times> auth_state" where
  "post_token c t t' wall wall' td client grant_type name password refresh_token st =
     (let source_ip = (case client of None \<Rightarrow> ''unknown'' | Some h \<Rightarrow> h)
      in if grant_type = ''password'' then
           (if \<not> truthy name \<or> \<not> truthy password
            then (Inl (Http_error 400 ''invalid_request'' ''username and password are required''), st)
            else map_prod (map_error http_of_auth) id
                   (password_grant c t t' wall' (td_access td) (td_refresh td) (the name) (the password) source_ip st))
         else if grant_type = ''refresh_token'' then
           (if \<not> truthy refresh_token
            then (Inl (Http_error 400 ''invalid_request'' ''refresh_token is required''), st)
            else map_prod (map_error http_of_auth) id
                   (refresh_grant c wall wall' (td_access td) (td_refresh td) (the refresh_token) st))
         else (Inl (Http_error 400 ''unsupported_grant_type'' (''unsupported grant_type: '' @ py_repr grant_type)), st))"

definition post_revoke ::
  "crypto \<Rightarrow> real \<Rightarrow> real \<Rightarrow> string option \<Rightarrow> string \<Rightarrow> auth_state \<Rightarrow> (http_error + unit) \<times> auth_state" where
  "post_revoke c wall wall' authorization refresh_token st =
     (case require_scope c SCOPE_ADMIN wall authorization st of
        (Inl e, st1) \<Rightarrow> (Inl e, st1)
      | (Inr _, st1) \<Rightarrow> (Inr (), revoke_refresh_token c wall' refresh_token st1))"

definition get_me :: "crypto \<Rightarrow> real \<Rightarrow> string option \<Rightarrow> auth_state \<Rightarrow> (http_error + string \<times> bool \<times> int option) \<times> auth_state" where
  "get_me c wall authorization st =
     (case require_scope c SCOPE_PASSWORD_CHANGE wall authorization st of
        (Inl e, st1) \<Rightarrow> (Inl e, st1)
      | (Inr _, st1) \<Rightarrow> (map_error http_of_auth (get_user_public st1), st1))"

definition post_password ::
  "crypto \<Rightarrow> real \<Rightarrow> real \<Rightarrow> bytes \<Rightarrow> string option \<Rightarrow> string option \<Rightarrow> string option \<Rightarrow> auth_state \<Rightarrow>
     (http_error + unit) \<times> auth_state" where
  "post_password c wall wall' salt authorization current_password new_password st =
     (case require_scope c SCOPE_PASSWORD_CHANGE wall authorization st of
        (Inl e, st1) \<Rightarrow> (Inl e, st1)
      | (Inr _, st1) \<Rightarrow>
          if \<not> truthy current_password \<or> \<not> truthy new_password
          then (Inl (Http_error 400 ''invalid_request'' ''current_password and new_password are required''), st1)
          else map_prod (map_error http_of_auth) id
                 (change_password c wall' salt (the current_password) (the new_password) st1))"

text \<open>The requests of the API as operations on the authentication state.\<close>

datatype auth_request =
    Post_token real real real real token_draw "string option" string "string option" "string option" "string option"
  | Post_revoke real real "string option" string
  | Get_me real "string option"
  | Post_password real real bytes "string option" "string option" "string option"
  | Other_route real "string option"
  | Daily_prune real int

fun serve_auth :: "crypto \<Rightarrow> auth_request \<Rightarrow> auth_state \<Rightarrow> auth_state" where
  "serve_auth c (Post_token t t' w w' td cl g n p r) st = snd (post_token c t t' w w' td cl g n p r st)"
| "serve_auth c (Post_revoke w w' auth tok) st = snd (post_revoke c w w' auth tok st)"
| "serve_auth c (Get_me w auth) st = snd (get_me c w auth st)"
| "serve_auth c (Post_password w w' salt auth cur new) st = snd (post_password c w w' salt auth cur new st)"
| "serve_auth c (Other_route w auth) st = snd (require_scope c SCOPE_ADMIN w auth st)"
| "serve_auth c (Daily_prune w k) st = prune_refresh_tokens w k st"

section \<open>The forced password change\<close>

definition confined :: "auth_state \<Rightarrow> bool" where
  "confined st \<longleftrightarrow>
     (\<forall>u. user_row st = Some u \<longrightarrow> must_change_password u \<longrightarrow>
       (\<forall>e \<in> snd ` set (access_tokens st). ae_scope e = SCOPE_PASSWORD_CHANGE))"

lemma confined_cong:
  "user_row st' = user_row st \<Longrightarrow> set (access_tokens st') \<subseteq> set (access_tokens st) \<Longrightarrow> confined st \<Longrightarrow> confined st'"
  by (auto simp: confined_def)

lemma set_alist_delete: "set (AList.delete k al) \<subseteq> set al"
  by (simp add: AList.delete_eq)

lemma set_alist_update: "set (AList.update k v al) \<subseteq> insert (k, v) (set al)"
  by (induction al) auto

lemma verify_confined: "confined st \<Longrightarrow> confined (snd (verify_access_token c w tok st))"
  by (auto simp: verify_access_token_def intro!: confined_cong [of _ st] dest: subsetD [OF set_alist_delete] split: option.split)

lemma scope_confined: "confined st \<Longrightarrow> confined (snd (require_scope c s w auth st))"
  using verify_confined [of st c w]
  by (simp add: require_scope_def case_prod_beta split: sum.split option.split)

lemma issue_confined:
  "confined st \<Longrightarrow> user_row st = Some u \<Longrightarrow> confined (snd (issue_tokens c w a r u st))"
  by (auto simp: confined_def issue_tokens_def insert_token_def Let_def scope_for_def
      dest!: subsetD [OF set_alist_update] split: option.split)

lemma login_confined: "confined st \<Longrightarrow> confined (snd (password_grant c t t' w a r u p ip st))"
  by (auto simp: password_grant_def login_finish_def get_user_def intro!: issue_confined confined_cong [of _ st]
      split: sum.split option.split)

lemma retire_confined: "confined (refresh_retire c w new tok st) = confined st"
  by (simp add: confined_def refresh_retire_def)

lemma revoke_all_confined: "confined (revoke_all w st)"
  by (simp add: confined_def revoke_all_def)

lemma refresh_confined: "confined st \<Longrightarrow> confined (snd (refresh_grant c w w' a r tok st))"
  using lookup_cases [of c w tok st]
  by (auto simp: refresh_grant_snd Let_def retire_confined revoke_all_confined refresh_issue_def get_user_def issue_confined
      split: sum.split option.split)

lemma change_confined: "confined st \<Longrightarrow> confined (snd (change_password c w salt cur new st))"
  by (simp add: change_password_def revoke_all_confined split: sum.split)

lemma serve_confined: "confined st \<Longrightarrow> confined (serve_auth c req st)"
proof (cases req)
  case (Post_token t t' w w' td cl g n p r)
  assume "confined st"
  then show ?thesis using Post_token by (simp add: post_token_def Let_def login_confined refresh_confined)
next
  case (Post_revoke w w' auth tok)
  assume "confined st"
  from scope_confined [OF this] Post_revoke show ?thesis
    by (simp add: post_revoke_def case_prod_beta revoke_refresh_token_def confined_def split: sum.split)
next
  case (Get_me w auth)
  assume "confined st"
  from scope_confined [OF this] Get_me show ?thesis by (simp add: get_me_def case_prod_beta split: sum.split)
next
  case (Post_password w w' salt auth cur new)
  assume "confined st"
  from scope_confined [OF this] Post_password show ?thesis
    by (simp add: post_password_def case_prod_beta change_confined split: sum.split)
next
  case (Other_route w auth)
  assume "confined st"
  from scope_confined [OF this] Other_route show ?thesis by simp
next
  case (Daily_prune w k)
  assume "confined st"
  then show ?thesis using Daily_prune by (simp add: prune_refresh_tokens_def confined_def)
qed

lemma serve_confined_run: "confined st \<Longrightarrow> confined (fold (serve_auth c) reqs st)"
  by (induction reqs arbitrary: st) (simp_all add: serve_confined)

lemma confined_refuses:
  assumes "confined st" and "user_row st = Some u" and "must_change_password u"
  shows "\<exists>status e d. fst (require_scope c SCOPE_ADMIN wall authorization st) = Inl (Http_error status e d) \<and> status \<in> {401, 403}"
proof -
  have scopes: "ae_scope e = SCOPE_PASSWORD_CHANGE" if "map_of (access_tokens st) h = Some e" for h e
    using assms map_of_SomeD [OF that] by (force simp: confined_def)
  then show ?thesis
    by (auto simp: require_scope_def bearer_token_def Let_def verify_access_token_def SCOPE_PASSWORD_CHANGE_def SCOPE_ADMIN_def
        split: option.split dest!: scopes)
qed

section \<open>Where access tokens come from\<close>

text \<open>
  A token request earns its access token with the account's user name and password while the throttle
  lets it through, or with a refresh token that is on record, unused and not expired.
\<close>

fun earned :: "crypto \<Rightarrow> auth_request \<Rightarrow> auth_state \<Rightarrow> bool" where
  "earned c (Post_token t t' w w' td cl g n p r) st \<longleftrightarrow>
     (g = ''password'' \<and> truthy n \<and> truthy p \<and> login_check t (case cl of None \<Rightarrow> ''unknown'' | Some h \<Rightarrow> h) st = Inr () \<and>
        right_credentials c (the n) (the p) st) \<or>
     (g = ''refresh_token'' \<and> truthy r \<and> fst (refresh_lookup c w (the r) st) = Inr ())"
| "earned c req st \<longleftrightarrow> False"

fun access_drawn :: "auth_request \<Rightarrow> string" where
  "access_drawn (Post_token t t' w w' td cl g n p r) = td_access td"
| "access_drawn req = []"

fun earned_hashes :: "crypto \<Rightarrow> auth_request list \<Rightarrow> auth_state \<Rightarrow> bytes set" where
  "earned_hashes c [] st = {}"
| "earned_hashes c (req # reqs) st =
     (if earned c req st then {sha256 c (access_drawn req)} else {}) \<union> earned_hashes c reqs (serve_auth c req st)"

abbreviation live_hashes :: "auth_state \<Rightarrow> bytes set" where
  "live_hashes st \<equiv> fst ` set (access_tokens st)"

lemma issue_hashes: "live_hashes (snd (issue_tokens c w a r u st)) \<subseteq> insert (sha256 c a) (live_hashes st)"
  by (auto simp: issue_tokens_def insert_token_def Let_def dest!: subsetD [OF set_alist_update] split: option.split)

lemma login_hashes:
  "live_hashes (snd (password_grant c t t' w a r n p ip st)) \<subseteq>
    (if login_check t ip st = Inr () \<and> right_credentials c n p st then {sha256 c a} else {}) \<union> live_hashes st"
proof (cases "login_check t ip st")
  case (Inr u)
  show ?thesis
  proof (cases "user_row st")
    case (Some u)
    then show ?thesis
      using Inr issue_hashes [of c w a r u "st\<lparr>throttle := record_success ip (throttle st)\<rparr>"]
      by (auto simp: password_grant_def login_finish_def get_user_def right_credentials_def)
  qed (simp add: Inr password_grant_def login_finish_def get_user_def)
qed (simp add: password_grant_def)

lemma retire_live: "live_hashes (refresh_retire c w new tok st) = live_hashes st"
  by (simp add: refresh_retire_def)

lemma lookup_hashes: "live_hashes (snd (refresh_lookup c w tok st)) \<subseteq> live_hashes st"
  using lookup_cases [of c w tok st] by (auto simp: revoke_all_def)

lemma refresh_hashes:
  "live_hashes (snd (refresh_grant c w w' a r tok st)) \<subseteq>
    (if fst (refresh_lookup c w tok st) = Inr () then {sha256 c a} else {}) \<union> live_hashes st"
proof -
  let ?st = "snd (refresh_lookup c w tok st)"
  have "live_hashes (snd (refresh_issue c w' a r ?st)) \<subseteq> insert (sha256 c a) (live_hashes ?st)"
    using issue_hashes [of c w' a r _ ?st] by (auto simp: refresh_issue_def get_user_def split: option.split)
  then show ?thesis
    using lookup_hashes [of c w tok st]
    by (auto simp: refresh_grant_snd Let_def retire_live split: sum.split)
qed

lemma scope_hashes: "live_hashes (snd (require_scope c s w authorization st)) \<subseteq> live_hashes st"
  by (auto simp: require_scope_def verify_access_token_def case_prod_beta dest!: subsetD [OF set_alist_delete]
      split: sum.split option.split)

lemma serve_hashes:
  "live_hashes (serve_auth c req st) \<subseteq>
    (if earned c req st then {sha256 c (access_drawn req)} else {}) \<union> live_hashes st"
proof (cases req)
  case (Post_token t t' w w' td cl g n p r)
  let ?ip = "case cl of None \<Rightarrow> ''unknown'' | Some h \<Rightarrow> h"
  show ?thesis
    using Post_token login_hashes [of c t t' w' "td_access td" "td_refresh td" "the n" "the p" ?ip st]
      refresh_hashes [of c w w' "td_access td" "td_refresh td" "the r" st]
    by (auto simp: post_token_def Let_def split: if_split_asm)
next
  case (Post_revoke w w' auth tok)
  then show ?thesis using scope_hashes [of c SCOPE_ADMIN w auth st]
    by (simp add: post_revoke_def case_prod_beta revoke_refresh_token_def split: sum.split)
next
  case (Get_me w auth)
  then show ?thesis using scope_hashes [of c SCOPE_PASSWORD_CHANGE w auth st]
    by (simp add: get_me_def case_prod_beta split: sum.split)
next
  case (Post_password w w' salt auth cur new)
  then show ?thesis using scope_hashes [of c SCOPE_PASSWORD_CHANGE w auth st]
    by (auto simp: post_password_def case_prod_beta change_password_def revoke_all_def split: sum.split if_split_asm)
next
  case (Other_route w auth)
  then show ?thesis using scope_hashes [of c SCOPE_ADMIN w auth st] by simp
next
  case (Daily_prune w k)
  then show ?thesis by (simp add: prune_refresh_tokens_def)
qed

lemma run_hashes: "live_hashes (fold (serve_auth c) reqs st) \<subseteq> earned_hashes c reqs st \<union> live_hashes st"
proof (induction reqs arbitrary: st)
  case (Cons req reqs)
  let ?st = "serve_auth c req st"
  have "live_hashes (fold (serve_auth c) reqs ?st) \<subseteq> earned_hashes c reqs ?st \<union> live_hashes ?st" by (rule Cons)
  then show ?case using serve_hashes [of c req st] by (simp only: fold_simps earned_hashes.simps) blast
qed simp

lemma scope_admitted:
  assumes "fst (require_scope c SCOPE_ADMIN wall authorization st) = Inr e"
  shows "\<exists>tok. bearer_token authorization = Inr tok \<and> map_of (access_tokens st) (sha256 c tok) = Some e \<and>
    wall \<le> ae_expires_at e \<and> ae_scope e = SCOPE_ADMIN"
  using assms
  by (auto simp: require_scope_def verify_access_token_def case_prod_beta split: sum.split_asm option.split_asm if_split_asm)

end
