(* ===== verification/Radio_Routes.thy ===== *)
theory Radio_Routes
  imports Radio_State Admin_Access Message_Window
begin

text \<open>
  The radio routes of the admin API, \<^verbatim>\<open>src/zorkbot/src/zorkbot/admin/routes/radio.py\<close>.

  A route takes the lock of the radio state once for every awaited call. Each time, other tasks may
  first have run (\<open>before\<close>), then the locked operation runs with the answers of the radio
  (\<open>answers\<close>): that is a \<open>turn\<close>. The bearer check in front of every route is
  \<open>require_scope\<close>; the handlers below are what runs after it.

  \<open>put_decide\<close> and \<open>delete_decide\<close> are the handlers up to the write. The longer error
  descriptions are abbreviated.
\<close>

section \<open>Regular expressions and texts\<close>

text \<open>
  \<open>re.match(r"^[...]{lo,hi}$", s)\<close> for a character class: \<open>$\<close> also matches in front of a
  final line break.
\<close>

definition re_run :: "(char \<Rightarrow> bool) \<Rightarrow> nat \<Rightarrow> nat \<Rightarrow> string \<Rightarrow> bool" where
  "re_run cls lo hi s \<longleftrightarrow>
     (let ok = (\<lambda>t. list_all cls t \<and> lo \<le> length t \<and> length t \<le> hi)
      in ok s \<or> (s \<noteq> [] \<and> last s = CHR 0x0A \<and> ok (butlast s)))"

definition is_lower_hex :: "char \<Rightarrow> bool" where
  "is_lower_hex c \<longleftrightarrow> is_digit c \<or> (97 \<le> code c \<and> code c \<le> 102)"

definition is_hex :: "char \<Rightarrow> bool" where
  "is_hex c \<longleftrightarrow> is_lower_hex c \<or> (65 \<le> code c \<and> code c \<le> 70)"

definition PUBKEY_RE :: "string \<Rightarrow> bool" where
  "PUBKEY_RE s = re_run is_lower_hex 6 64 s"

definition SECRET_RE :: "string \<Rightarrow> bool" where
  "SECRET_RE s = re_run is_hex 32 32 s"

text \<open>\<open>len(s.encode("utf-8"))\<close>.\<close>

definition utf8_length :: "string \<Rightarrow> nat" where
  "utf8_length s = sum_list (map (\<lambda>c. if code c < 128 then 1 else 2) s)"

text \<open>\<open>bytes.fromhex\<close> on a string that \<open>SECRET_RE\<close> matches; it skips white space.\<close>

definition hex_value :: "char \<Rightarrow> nat" where
  "hex_value c =
     (if is_digit c then code c - 48 else if 97 \<le> code c then code c - 87 else code c - 55)"

fun fromhex :: "string \<Rightarrow> bytes" where
  "fromhex (a # b # s) = char_of (16 * hex_value a + hex_value b) # fromhex s"
| "fromhex s = []"

section \<open>The request body\<close>

definition channel_from_body :: "pydict option \<Rightarrow> http_error + string \<times> bytes option \<times> string" where
  "channel_from_body body =
     (case body of
        None \<Rightarrow> Inl (Http_error 400 ''invalid_name'' ''a JSON object with a name is required'')
      | Some d \<Rightarrow>
          (case pyget d ''name'' of
             P_str raw \<Rightarrow>
               (let name = strip raw; secret = pyget d ''secret''
                in if name = [] then Inl (Http_error 400 ''invalid_name'' ''name is required'')
                   else if \<exists>ch \<in> set name. code ch < 32 \<or> code ch = 127
                   then Inl (Http_error 400 ''invalid_name'' ''name must not contain control characters'')
                   else if MAX_CHANNEL_NAME_BYTES < utf8_length name
                   then Inl (Http_error 400 ''name_too_long''
                          (''name must be at most '' @ str_nat MAX_CHANNEL_NAME_BYTES @
                           '' bytes as UTF-8; the radio silently truncates anything longer''))
                   else if startswith name ''#'' then
                     (if pytrue secret then Inl (Http_error 400 ''secret_not_used'' ''a public channel takes no key'')
                      else Inr (name, None, ''derived''))
                   else if \<not> pytrue secret then Inl (Http_error 400 ''secret_required'' ''a private channel needs a key'')
                   else (case secret of
                           P_str s \<Rightarrow>
                             if SECRET_RE s then Inr (name, Some (fromhex (filter (\<lambda>c. \<not> is_space c) s)), ''provided'')
                             else Inl (Http_error 400 ''invalid_secret'' ''the key must be 32 hex characters (16 bytes)'')
                         | _ \<Rightarrow> Inl (Http_error 400 ''invalid_secret'' ''the key must be 32 hex characters (16 bytes)'')))
           | _ \<Rightarrow> Inl (Http_error 400 ''invalid_name'' ''name is required'')))"

section \<open>Turns\<close>

record turn =
  before :: "radio_state \<Rightarrow> radio_state"
  answers :: device_env

definition refresh_turn :: "turn \<Rightarrow> radio_state \<Rightarrow> radio_state" where
  "refresh_turn t st = snd (refresh_locked False (answers t) (before t st))"

definition WRITE_STATUS :: "(string \<times> int) list" where
  "WRITE_STATUS = [(''radio_unavailable'', 503), (''write_too_frequent'', 429), (''radio_write_failed'', 502)]"

fun http_of_write :: "radio_write_error \<Rightarrow> http_error" where
  "http_of_write (RadioWriteError c) =
     Http_error (case map_of WRITE_STATUS c of None \<Rightarrow> 502 | Some s \<Rightarrow> s) c []"

definition require_writes :: "radio_state \<Rightarrow> http_error + unit" where
  "require_writes st =
     (if write_enabled st then Inr ()
      else Inl (Http_error 403 ''writes_disabled''
             ''radio writes are off; set admin_ui.radio_write_enabled = true and restart''))"

definition writable_slot ::
  "mesh_view \<Rightarrow> turn \<Rightarrow> turn \<Rightarrow> int \<Rightarrow> radio_state \<Rightarrow> (http_error + swept_channel option) \<times> radio_state" where
  "writable_slot mv t1 t2 idx st =
     (let st1 = refresh_turn t1 st
      in case max_channels st1 of
           None \<Rightarrow> (Inl (Http_error 503 ''radio_unavailable'' ''the radio did not report how many channel slots it has, so writes are refused''), st1)
         | Some bound \<Rightarrow>
             if \<not> connected mv
             then (Inl (Http_error 503 ''radio_unavailable'' ''the radio did not report how many channel slots it has, so writes are refused''), st1)
             else if \<not> (0 \<le> idx \<and> idx < bound)
             then (Inl (Http_error 404 ''unknown_channel_slot'' (''the radio has no channel slot '' @ str_int idx)), st1)
             else (case channel_role idx st1 of
                     Some role \<Rightarrow>
                       (Inl (Http_error 409 ''channel_is_served''
                          (''channel '' @ str_int idx @ '' is the bot's '' @ role @ '' channel and is owned by '' @
                           (if role = ''zork'' then ''[channel]'' else ''[bots_channel]'') @
                           '' in zorkbot.toml; change it there and restart'')), st1)
                   | None \<Rightarrow>
                       (let st2 = refresh_turn t2 st1
                        in (Inr (find (\<lambda>c. ce_idx c = idx) (channel_list st2)), st2))))"

section \<open>Writing routes\<close>

definition put_decide ::
  "mesh_view \<Rightarrow> turn \<Rightarrow> turn \<Rightarrow> int \<Rightarrow> pydict option \<Rightarrow> radio_state \<Rightarrow>
     (http_error + string \<times> bytes option \<times> string) \<times> radio_state" where
  "put_decide mv t1 t2 idx body st =
     (case require_writes st of
        Inl e \<Rightarrow> (Inl e, st)
      | Inr _ \<Rightarrow>
          (case channel_from_body body of
             Inl e \<Rightarrow> (Inl e, st)
           | Inr (name, secret, key_source) \<Rightarrow>
               (case writable_slot mv t1 t2 idx st of
                  (Inl e, st2) \<Rightarrow> (Inl e, st2)
                | (Inr existing, st2) \<Rightarrow>
                    (case existing of
                       None \<Rightarrow> (Inr (name, secret, key_source), st2)
                     | Some c \<Rightarrow>
                         if pyget (the body) ''replace'' \<noteq> P_bool True
                         then (Inl (Http_error 409 ''slot_occupied''
                                 (''channel '' @ str_int idx @ '' already holds '' @ py_repr (ce_name c) @
                                  ''; pass replace: true to overwrite it'')), st2)
                         else (Inr (name, secret, key_source), st2)))))"

record put_reply =
  pr_idx :: int
  pr_name :: string
  pr_hash :: "string option"
  pr_key_source :: string
  pr_role :: "string option"
  pr_tracked :: bool
  pr_editable :: bool

definition put_channel ::
  "mesh_view \<Rightarrow> message_windows \<Rightarrow> bool \<Rightarrow> turn \<Rightarrow> turn \<Rightarrow> turn \<Rightarrow> real \<Rightarrow> int \<Rightarrow> pydict option \<Rightarrow> radio_state \<Rightarrow>
     (http_error + put_reply) \<times> radio_state" where
  "put_channel mv ws has t1 t2 t3 now idx body st =
     (case put_decide mv t1 t2 idx body st of
        (Inl e, st2) \<Rightarrow> (Inl e, st2)
      | (Inr (name, secret, key_source), st2) \<Rightarrow>
          (case set_channel has mv (answers t3) now idx name secret (before t3 st2) of
             (Inl e, st3) \<Rightarrow> (Inl (http_of_write e), st3)
           | (Inr (Some c), st3) \<Rightarrow>
               (Inr \<lparr>pr_idx = idx, pr_name = ce_name c, pr_hash = ce_hash c, pr_key_source = key_source,
                     pr_role = channel_role idx st3, pr_tracked = tracks_channel idx ws, pr_editable = True\<rparr>, st3)
           | (Inr None, st3) \<Rightarrow> (Inl Server_error, st3)))"

definition delete_decide ::
  "mesh_view \<Rightarrow> turn \<Rightarrow> turn \<Rightarrow> int \<Rightarrow> radio_state \<Rightarrow> (http_error + swept_channel option) \<times> radio_state" where
  "delete_decide mv t1 t2 idx st =
     (case require_writes st of
        Inl e \<Rightarrow> (Inl e, st)
      | Inr _ \<Rightarrow> writable_slot mv t1 t2 idx st)"

definition delete_channel ::
  "mesh_view \<Rightarrow> bool \<Rightarrow> turn \<Rightarrow> turn \<Rightarrow> turn \<Rightarrow> real \<Rightarrow> bytes \<Rightarrow> int \<Rightarrow> radio_state \<Rightarrow> (http_error + int) \<times> radio_state" where
  "delete_channel mv has t1 t2 t3 now key idx st =
     (case delete_decide mv t1 t2 idx st of
        (Inl e, st2) \<Rightarrow> (Inl e, st2)
      | (Inr None, st2) \<Rightarrow> (Inr idx, st2)
      | (Inr (Some c), st2) \<Rightarrow>
          (case clear_channel has mv (answers t3) now key idx (before t3 st2) of
             (Inl e, st3) \<Rightarrow> (Inl (http_of_write e), st3)
           | (Inr _, st3) \<Rightarrow> (Inr idx, st3)))"

section \<open>Reading routes\<close>

definition get_radio :: "mesh_view \<Rightarrow> turn \<Rightarrow> turn \<Rightarrow> radio_state \<Rightarrow> radio_snapshot \<times> radio_state" where
  "get_radio mv t1 t2 st =
     (let st1 = refresh_turn t1 st; st2 = refresh_turn t2 st1
      in ((snapshot mv st2)\<lparr>sn_radio := sn_radio (snapshot mv st1), sn_firmware := sn_firmware (snapshot mv st1),
             sn_contacts_max := sn_contacts_max (snapshot mv st1), sn_channels_max := sn_channels_max (snapshot mv st1)\<rparr>, st2))"

definition get_contacts :: "mesh_view \<Rightarrow> message_windows \<Rightarrow> (contact_row \<times> nat) list" where
  "get_contacts mv ws = map (\<lambda>c. (c, contact_count (cr_pubkey_prefix c) ws)) (list_contacts mv)"

record messages_reply =
  mr_name :: "string option"
  mr_window :: nat
  mr_since_process_start :: bool
  mr_messages :: "window_message list"

definition get_contact_messages :: "mesh_view \<Rightarrow> message_windows \<Rightarrow> string \<Rightarrow> http_error + messages_reply" where
  "get_contact_messages mv ws pfx =
     (if \<not> PUBKEY_RE pfx then Inl (Http_error 400 ''invalid_request'' ''prefix must be lowercase hex'')
      else case find (\<lambda>c. cr_pubkey_prefix c = pfx) (list_contacts mv) of
        None \<Rightarrow> Inl (Http_error 404 ''unknown_contact'' (''no contact with prefix '' @ pfx))
      | Some c \<Rightarrow> Inr \<lparr>mr_name = cr_name c, mr_window = window ws, mr_since_process_start = True,
                       mr_messages = contact_messages pfx ws\<rparr>)"

record channel_row =
  chr_idx :: int
  chr_name :: string
  chr_hash :: "string option"
  chr_role :: "string option"
  chr_tracked :: bool
  chr_message_count :: "nat option"
  chr_last_message_at :: "int option"
  chr_editable :: bool

definition channel_row_of :: "radio_state \<Rightarrow> message_windows \<Rightarrow> swept_channel \<Rightarrow> channel_row" where
  "channel_row_of st ws c =
     (let idx = ce_idx c; tracked = tracks_channel idx ws
      in \<lparr>chr_idx = idx, chr_name = ce_name c, chr_hash = ce_hash c, chr_role = channel_role idx st,
          chr_tracked = tracked, chr_message_count = channel_count idx ws,
          chr_last_message_at = (if tracked then channel_last_at idx ws else None),
          chr_editable = (write_enabled st \<and> channel_role idx st = None)\<rparr>)"

definition get_channels ::
  "turn \<Rightarrow> turn \<Rightarrow> message_windows \<Rightarrow> radio_state \<Rightarrow> (channel_row list \<times> int list \<times> int option) \<times> radio_state" where
  "get_channels t1 t2 ws st =
     (let st1 = refresh_turn t1 st; listed = map (channel_row_of st1 ws) (channel_list st1);
          st2 = refresh_turn t2 st1
      in ((listed, free_slots st2, stale_since st2), st2))"

definition get_channel_messages ::
  "turn \<Rightarrow> message_windows \<Rightarrow> int \<Rightarrow> radio_state \<Rightarrow> (http_error + messages_reply) \<times> radio_state" where
  "get_channel_messages t1 ws idx st =
     (let st1 = refresh_turn t1 st
      in (if idx \<notin> ce_idx ` set (channel_list st1)
          then Inl (Http_error 404 ''unknown_channel'' (''no channel at index '' @ str_int idx))
          else if \<not> tracks_channel idx ws
          then Inl (Http_error 404 ''channel_not_tracked''
                 (''channel '' @ str_int idx @ '' is not served by the bot; message history is only kept for the channels it serves''))
          else Inr \<lparr>mr_name = None, mr_window = window ws, mr_since_process_start = True,
                    mr_messages = channel_messages idx ws\<rparr>, st1))"

section \<open>Discipline of the writes\<close>

lemma length_fromhex: "length (fromhex s) = length s div 2"
  by (induction s rule: fromhex.induct) simp_all

lemma hex_not_space: "is_hex c \<Longrightarrow> \<not> is_space c"
  by (auto simp: is_hex_def is_lower_hex_def is_digit_def is_space_def Let_def)

lemma filter_hex: "list_all is_hex t \<Longrightarrow> filter (\<lambda>c. \<not> is_space c) t = t"
  by (induction t) (auto simp: hex_not_space)

lemma secret_length: "SECRET_RE s \<Longrightarrow> length (fromhex (filter (\<lambda>c. \<not> is_space c) s)) = 16"
proof -
  assume "SECRET_RE s"
  then consider "list_all is_hex s" "length s = 32"
    | "s \<noteq> []" "last s = CHR 0x0A" "list_all is_hex (butlast s)" "length (butlast s) = 32"
    by (auto simp: SECRET_RE_def re_run_def Let_def)
  then show ?thesis
  proof cases
    case 1
    then show ?thesis by (simp add: filter_hex length_fromhex)
  next
    case 2
    then have s: "s = butlast s @ [CHR 0x0A]" by (metis append_butlast_last_id)
    have "is_space (CHR 0x0A)" by (simp add: is_space_def code_def)
    then have "filter (\<lambda>c. \<not> is_space c) s = butlast s" using filter_hex [OF 2(3)] by (subst s) simp
    then show ?thesis using 2 by (simp add: length_fromhex)
  qed
qed

definition proper_name :: "string \<Rightarrow> bool" where
  "proper_name n \<longleftrightarrow> n \<noteq> [] \<and> strip n = n \<and> list_all (\<lambda>c. 32 \<le> code c \<and> code c \<noteq> 127) n \<and> utf8_length n \<le> 31"

definition proper_key :: "string \<Rightarrow> bytes option \<Rightarrow> bool" where
  "proper_key n secret \<longleftrightarrow>
     (if startswith n ''#'' then secret = None else (case secret of None \<Rightarrow> False | Some k \<Rightarrow> length k = 16))"

lemma channel_from_body_proper:
  "channel_from_body body = Inr (name, secret, src) \<Longrightarrow> proper_name name \<and> proper_key name secret"
  by (auto simp: channel_from_body_def proper_name_def proper_key_def MAX_CHANNEL_NAME_BYTES_def list_all_iff Let_def secret_length
      split: option.splits pyval.splits if_splits)


text \<open>
  What the link has been given: every write concerns a slot the bot does not serve, was made with
  writes enabled, and either stores a proper name with a proper key or clears the slot with a key.
\<close>

fun orderly_op :: "radio_state \<Rightarrow> link_op \<Rightarrow> bool" where
  "orderly_op st (Write t idx name secret) =
     (write_enabled st \<and> channel_role idx st = None \<and> 0 \<le> idx \<and>
      (if name = [] then secret \<noteq> None else proper_name name \<and> proper_key name secret))"
| "orderly_op st op = True"

definition disciplined :: "radio_state \<Rightarrow> bool" where
  "disciplined st \<longleftrightarrow> list_all (orderly_op st) (link st)"

definition orderly_write :: "(radio_state \<Rightarrow> radio_state) \<Rightarrow> bool" where
  "orderly_write f \<longleftrightarrow>
     (\<forall>st. disciplined st \<longrightarrow> disciplined (f st) \<and> rs_served (f st) = rs_served st \<and> write_enabled (f st) = write_enabled st)"

lemma orderly_op_cong:
  "rs_served st' = rs_served st \<Longrightarrow> write_enabled st' = write_enabled st \<Longrightarrow> orderly_op st' op = orderly_op st op"
  by (cases op) (simp_all add: channel_role_def)

lemma list_all_orderly_cong:
  "rs_served st' = rs_served st \<Longrightarrow> write_enabled st' = write_enabled st \<Longrightarrow> list_all (orderly_op st') ops = list_all (orderly_op st) ops"
  using orderly_op_cong [of st' st] by (intro list.pred_cong refl) blast

lemma orderly_comp: "orderly_write f \<Longrightarrow> orderly_write g \<Longrightarrow> orderly_write (g \<circ> f)"
  by (simp add: orderly_write_def)

lemma reads_orderly: "list_all (orderly_op st') (query_ops env)" "list_all (orderly_op st') (sweep_ops env m)"
  by (simp_all add: query_ops_def sweep_ops_def list_all_iff)

lemma refresh_link:
  assumes "list_all (orderly_op st') (link st)"
  shows "list_all (orderly_op st') (link (snd (refresh_locked force env st)))"
  using assms by (simp add: refresh_locked_def Let_def reads_orderly split: option.split)

lemma refresh_orderly: "orderly_write (\<lambda>st. snd (refresh_locked force env st))"
proof -
  have "disciplined (snd (refresh_locked force env st))" if "disciplined st" for st
    using that refresh_link [of st st force env]
    by (simp add: disciplined_def list_all_orderly_cong [OF refresh_keeps(4,5)])
  then show ?thesis by (simp add: orderly_write_def refresh_keeps)
qed

lemma refresh_turn_orderly: "orderly_write (before t) \<Longrightarrow> orderly_write (refresh_turn t)"
  using orderly_comp [of "before t", OF _ refresh_orderly [of False "answers t"]]
  by (simp add: refresh_turn_def [abs_def] comp_def)

lemma write_disciplined:
  assumes "disciplined st" and "orderly_op st (Write now idx name secret)"
  shows "disciplined (snd (write_channel has mv env now idx name secret ex st)) \<and>
    rs_served (snd (write_channel has mv env now idx name secret ex st)) = rs_served st \<and>
    write_enabled (snd (write_channel has mv env now idx name secret ex st)) = write_enabled st"
proof -
  let ?st1 = "st\<lparr>last_write_at := Some now, link := link st @ [Write now idx name secret]\<rparr>"
  have "disciplined ?st1"
    using assms list_all_orderly_cong [of ?st1 st "link st"] by (simp add: disciplined_def channel_role_def)
  then have "disciplined (snd (refresh_locked True env ?st1))" using refresh_orderly unfolding orderly_write_def by blast
  then show ?thesis
    using assms(1) by (auto simp: write_channel_def Let_def case_prod_beta refresh_keeps split: option.splits bool.splits)
qed

lemma writable_slot_snd:
  "snd (writable_slot mv t1 t2 idx st) \<in> {refresh_turn t1 st, refresh_turn t2 (refresh_turn t1 st)}"
  by (simp add: writable_slot_def Let_def split: option.split)

lemma writable_slot_orderly:
  "orderly_write (before t1) \<Longrightarrow> orderly_write (before t2) \<Longrightarrow> orderly_write (\<lambda>st. snd (writable_slot mv t1 t2 idx st))"
proof -
  assume "orderly_write (before t1)" "orderly_write (before t2)"
  then have o1: "orderly_write (refresh_turn t1)" and o2: "orderly_write (refresh_turn t2)" by (simp_all add: refresh_turn_orderly)
  have "disciplined st2 \<and> rs_served st2 = rs_served st \<and> write_enabled st2 = write_enabled st"
    if "disciplined st" "st2 \<in> {refresh_turn t1 st, refresh_turn t2 (refresh_turn t1 st)}" for st st2
  proof -
    note first = o1 [unfolded orderly_write_def, rule_format, OF that(1)]
    note second = o2 [unfolded orderly_write_def, rule_format, OF conjunct1 [OF first]]
    show ?thesis using that(2) first second by (elim insertE) simp_all
  qed
  from this [OF _ writable_slot_snd] show ?thesis unfolding orderly_write_def by simp
qed

lemma writable_slot_role:
  "orderly_write (before t1) \<Longrightarrow> disciplined st \<Longrightarrow> fst (writable_slot mv t1 t2 idx st) = Inr ex \<Longrightarrow>
    channel_role idx st = None \<and> 0 \<le> idx"
  using refresh_turn_orderly [of t1]
  by (auto simp: writable_slot_def Let_def orderly_write_def channel_role_def split: option.splits if_splits)

lemma put_decide_orderly:
  assumes "orderly_write (before t1)" "orderly_write (before t2)" "disciplined st"
  shows "disciplined (snd (put_decide mv t1 t2 idx body st)) \<and>
      rs_served (snd (put_decide mv t1 t2 idx body st)) = rs_served st \<and>
      write_enabled (snd (put_decide mv t1 t2 idx body st)) = write_enabled st"
    and "fst (put_decide mv t1 t2 idx body st) = Inr (name, secret, src) \<Longrightarrow> orderly_op st (Write now idx name secret)"
proof -
  have slot: "disciplined (snd (writable_slot mv t1 t2 idx st)) \<and>
      rs_served (snd (writable_slot mv t1 t2 idx st)) = rs_served st \<and>
      write_enabled (snd (writable_slot mv t1 t2 idx st)) = write_enabled st"
    using writable_slot_orderly [OF assms(1,2)] assms(3) unfolding orderly_write_def by blast
  show "disciplined (snd (put_decide mv t1 t2 idx body st)) \<and>
      rs_served (snd (put_decide mv t1 t2 idx body st)) = rs_served st \<and>
      write_enabled (snd (put_decide mv t1 t2 idx body st)) = write_enabled st"
    using slot assms(3) by (simp add: put_decide_def case_prod_beta split: sum.split option.split)
  assume ok: "fst (put_decide mv t1 t2 idx body st) = Inr (name, secret, src)"
  then have "channel_from_body body = Inr (name, secret, src)" and "write_enabled st"
    and "\<exists>ex. fst (writable_slot mv t1 t2 idx st) = Inr ex"
    by (auto simp: put_decide_def require_writes_def case_prod_beta split: sum.splits option.splits if_splits)
  with channel_from_body_proper [of body name secret src] writable_slot_role [OF assms(1,3), of mv t2 idx]
  show "orderly_op st (Write now idx name secret)" by (auto simp: proper_name_def)
qed

lemma put_orderly:
  assumes "orderly_write (before t1)" and "orderly_write (before t2)" and "orderly_write (before t3)"
  shows "orderly_write (\<lambda>st. snd (put_channel mv ws has t1 t2 t3 now idx body st))"
  unfolding orderly_write_def
proof (intro allI impI)
  fix st assume st: "disciplined st"
  let ?d = "put_decide mv t1 t2 idx body st"
  note decided = put_decide_orderly [OF assms(1,2) st, of mv idx body]
  have third: "disciplined (before t3 (snd ?d)) \<and> rs_served (before t3 (snd ?d)) = rs_served st \<and>
      write_enabled (before t3 (snd ?d)) = write_enabled st"
    using decided(1) assms(3) by (simp add: orderly_write_def)
  show "disciplined (snd (put_channel mv ws has t1 t2 t3 now idx body st)) \<and>
      rs_served (snd (put_channel mv ws has t1 t2 t3 now idx body st)) = rs_served st \<and>
      write_enabled (snd (put_channel mv ws has t1 t2 t3 now idx body st)) = write_enabled st"
  proof (cases "fst ?d")
    case (Inl e)
    then show ?thesis using decided(1) by (simp add: put_channel_def case_prod_beta)
  next
    case (Inr r)
    obtain name secret src where r: "r = (name, secret, src)" by (cases r)
    have "orderly_op (before t3 (snd ?d)) (Write now idx name secret)"
      using decided(2) [of name secret src] Inr r third orderly_op_cong [of "before t3 (snd ?d)" st "Write now idx name secret"]
      by (simp del: orderly_op.simps)
    from write_disciplined [OF conjunct1 [OF third] this, of has mv "answers t3" "Some name"] third Inr r
    show ?thesis by (simp add: put_channel_def set_channel_def case_prod_beta split: sum.split option.split)
  qed
qed

lemma delete_orderly:
  assumes "orderly_write (before t1)" and "orderly_write (before t2)" and "orderly_write (before t3)"
  shows "orderly_write (\<lambda>st. snd (delete_channel mv has t1 t2 t3 now key idx st))"
  unfolding orderly_write_def
proof (intro allI impI)
  fix st assume st: "disciplined st"
  let ?d = "delete_decide mv t1 t2 idx st"
  have decided: "disciplined (snd ?d) \<and> rs_served (snd ?d) = rs_served st \<and> write_enabled (snd ?d) = write_enabled st"
    using writable_slot_orderly [OF assms(1,2)] st by (auto simp: delete_decide_def orderly_write_def split: sum.split)
  then have third: "disciplined (before t3 (snd ?d)) \<and> rs_served (before t3 (snd ?d)) = rs_served st \<and>
      write_enabled (before t3 (snd ?d)) = write_enabled st"
    using assms(3) by (simp add: orderly_write_def)
  show "disciplined (snd (delete_channel mv has t1 t2 t3 now key idx st)) \<and>
      rs_served (snd (delete_channel mv has t1 t2 t3 now key idx st)) = rs_served st \<and>
      write_enabled (snd (delete_channel mv has t1 t2 t3 now key idx st)) = write_enabled st"
  proof (cases "\<exists>c. fst ?d = Inr (Some c)")
    case True
    then have "write_enabled st" "channel_role idx st = None" "0 \<le> idx"
      using writable_slot_role [OF assms(1) st, of mv t2 idx]
      by (auto simp: delete_decide_def require_writes_def split: sum.splits if_splits)
    then have "orderly_op (before t3 (snd ?d)) (Write now idx [] (Some key))"
      using third by (simp add: channel_role_def)
    from write_disciplined [OF conjunct1 [OF third] this, of has mv "answers t3" None] third True
    show ?thesis by (elim exE) (simp add: delete_channel_def clear_channel_def case_prod_beta split: sum.split)
  next
    case False
    then show ?thesis using decided by (auto simp: delete_channel_def case_prod_beta split: sum.split option.split)
  qed
qed

lemma reads_of_console:
  "orderly_write (before t1) \<Longrightarrow> orderly_write (before t2) \<Longrightarrow> orderly_write (\<lambda>st. snd (get_channels t1 t2 ws st))"
  "orderly_write (before t1) \<Longrightarrow> orderly_write (before t2) \<Longrightarrow> orderly_write (\<lambda>st. snd (get_radio mv t1 t2 st))"
  "orderly_write (before t1) \<Longrightarrow> orderly_write (\<lambda>st. snd (get_channel_messages t1 ws idx st))"
proof -
  show "orderly_write (before t1) \<Longrightarrow> orderly_write (\<lambda>st. snd (get_channel_messages t1 ws idx st))"
    using refresh_turn_orderly by (simp add: get_channel_messages_def Let_def)
  assume "orderly_write (before t1)" "orderly_write (before t2)"
  then have "orderly_write (refresh_turn t2 \<circ> refresh_turn t1)" by (simp add: orderly_comp refresh_turn_orderly)
  then show "orderly_write (\<lambda>st. snd (get_channels t1 t2 ws st))" "orderly_write (\<lambda>st. snd (get_radio mv t1 t2 st))"
    by (simp_all add: get_channels_def get_radio_def Let_def comp_def)
qed

text \<open>
  Whatever the console's users do at the same time, the radio is only ever given orderly writes:
  if the tasks that run while a request waits for the radio keep the discipline and the settings, so
  do the assignment and the removal of a channel and the reads. The requests compose, so the
  discipline holds of any interleaving of them: no write ever goes to a channel the bot serves
  or is made with writes disabled, and every stored channel has a proper name and key.
\<close>

theorem console_writes_orderly:
  assumes "orderly_write (before t1)" and "orderly_write (before t2)" and "orderly_write (before t3)"
  shows "orderly_write (\<lambda>st. snd (put_channel mv ws has t1 t2 t3 now idx body st)) \<and>
    orderly_write (\<lambda>st. snd (delete_channel mv has t1 t2 t3 now key idx st)) \<and>
    orderly_write (\<lambda>st. snd (get_channels t1 t2 ws st)) \<and>
    orderly_write (\<lambda>st. snd (get_radio mv t1 t2 st)) \<and>
    orderly_write (\<lambda>st. snd (get_channel_messages t1 ws idx st))"
  using put_orderly [OF assms] delete_orderly [OF assms] reads_of_console assms by simp

theorem console_writes_orderly_witness:
  "orderly_write (\<lambda>st. snd (delete_channel demo_mesh True \<lparr>before = id, answers = demo_env\<rparr> \<lparr>before = id, answers = demo_env\<rparr>
     \<lparr>before = id, answers = demo_env\<rparr> 0 ''key'' 1 st))"
  using console_writes_orderly [of "\<lparr>before = id, answers = demo_env\<rparr>" "\<lparr>before = id, answers = demo_env\<rparr>" "\<lparr>before = id, answers = demo_env\<rparr>"
      demo_mesh "new_message_windows 1 1 [] ''zork''" True 0 1 None "''key''"]
  by (simp add: orderly_write_def)

end
