(* ===== verification/Session_Bus.thy ===== *)
theory Session_Bus
  imports Zork_Prelude
begin

text \<open>
  The live transcript bus of the admin console, \<^verbatim>\<open>src/zorkbot/src/zorkbot/admin/bus.py\<close>, with the
  stream handler that reads from it (\<open>stream_session\<close> of \<^verbatim>\<open>admin/routes/sessions.py\<close>).

  A subscriber's queue is an object that outlives its channel, so the queues are kept beside the
  channels under a number of their own. \<open>delivered\<close> is what each stream has yielded from its
  queue so far; the pings of an idle stream and the replay of the backlog do not change the bus.
\<close>

datatype bus_data =
    D_session_end int int string
  | D_watchers int "string list"
  | D_command int real string string
  | D_output int real string

record bus_item =
  bi_event :: string
  bi_data :: bus_data
  bi_at :: real

record session_channel =
  sc_buffer :: "bus_item list"
  sc_subscribers :: "nat list"

record session_bus =
  buffer_size :: nat
  max_streams :: int
  bus_channels :: "(int \<times> session_channel) list"
  stream_count :: int
  bus_queues :: "(nat \<times> bus_item list) list"
  next_queue :: nat
  delivered :: "(nat \<times> bus_item) list"

definition QUEUE_SIZE :: nat where
  "QUEUE_SIZE = 256"

definition new_session_bus :: "nat \<Rightarrow> int \<Rightarrow> session_bus" where
  "new_session_bus bufsize streams =
     \<lparr>buffer_size = bufsize, max_streams = streams, bus_channels = [], stream_count = 0, bus_queues = [],
      next_queue = 0, delivered = []\<rparr>"

definition bus_channel :: "int \<Rightarrow> session_bus \<Rightarrow> session_channel" where
  "bus_channel n b =
     (case map_of (bus_channels b) n of
        Some ch \<Rightarrow> ch
      | None \<Rightarrow> \<lparr>sc_buffer = [], sc_subscribers = []\<rparr>)"

definition queue_items :: "nat \<Rightarrow> session_bus \<Rightarrow> bus_item list" where
  "queue_items q b = (case map_of (bus_queues b) q of None \<Rightarrow> [] | Some xs \<Rightarrow> xs)"

text \<open>\<open>put_nowait\<close> with \<open>QueueFull\<close> swallowed.\<close>

definition offer :: "bus_item \<Rightarrow> nat \<Rightarrow> (nat \<times> bus_item list) list \<Rightarrow> (nat \<times> bus_item list) list" where
  "offer item q qs =
     (let xs = (case map_of qs q of None \<Rightarrow> [] | Some xs \<Rightarrow> xs)
      in if QUEUE_SIZE \<le> length xs then qs else AList.update q (xs @ [item]) qs)"

definition bus_publish :: "real \<Rightarrow> int \<Rightarrow> string \<Rightarrow> bus_data \<Rightarrow> session_bus \<Rightarrow> session_bus" where
  "bus_publish now n event data b =
     (let ch = bus_channel n b; item = \<lparr>bi_event = event, bi_data = data, bi_at = now\<rparr>;
          ch' = ch\<lparr>sc_buffer := ring_append (buffer_size b) item (sc_buffer ch)\<rparr>
      in b\<lparr>bus_queues := fold (offer item) (sc_subscribers ch) (bus_queues b),
           bus_channels := (if event = ''session_end'' then AList.delete n (bus_channels b)
                            else AList.update n ch' (bus_channels b))\<rparr>)"

definition can_subscribe :: "session_bus \<Rightarrow> bool" where
  "can_subscribe b \<longleftrightarrow> stream_count b < max_streams b"

definition bus_subscribe :: "int \<Rightarrow> session_bus \<Rightarrow> (nat \<times> bus_item list) \<times> session_bus" where
  "bus_subscribe n b =
     (let ch = bus_channel n b; q = next_queue b
      in ((q, sc_buffer ch),
          b\<lparr>bus_channels := AList.update n (ch\<lparr>sc_subscribers := List.insert q (sc_subscribers ch)\<rparr>) (bus_channels b),
            bus_queues := AList.update q [] (bus_queues b), next_queue := q + 1,
            stream_count := stream_count b + 1\<rparr>))"

definition bus_unsubscribe :: "int \<Rightarrow> nat \<Rightarrow> session_bus \<Rightarrow> session_bus" where
  "bus_unsubscribe n q b =
     b\<lparr>bus_channels := (case map_of (bus_channels b) n of
          None \<Rightarrow> bus_channels b
        | Some ch \<Rightarrow> AList.update n (ch\<lparr>sc_subscribers := removeAll q (sc_subscribers ch)\<rparr>) (bus_channels b)),
       stream_count := max 0 (stream_count b - 1)\<rparr>"

section \<open>The stream handler\<close>

text \<open>
  \<open>stream_session\<close> up to the response: the session must be active and a stream free. There is no
  await between the test and \<open>subscribe\<close>.
\<close>

datatype stream_open = Not_found | Too_many | Opened nat "bus_item list"

definition stream_session :: "bool \<Rightarrow> int \<Rightarrow> session_bus \<Rightarrow> stream_open \<times> session_bus" where
  "stream_session active n b =
     (if \<not> active then (Not_found, b)
      else if \<not> can_subscribe b then (Too_many, b)
      else case bus_subscribe n b of ((q, backlog), b') \<Rightarrow> (Opened q backlog, b'))"

text \<open>
  One round of \<open>event_source\<close>: the next item of the queue is yielded (nothing happens on a
  time-out but a ping), and after a session end the generator finishes and unsubscribes.
\<close>

definition stream_round :: "int \<Rightarrow> nat \<Rightarrow> session_bus \<Rightarrow> bool \<times> session_bus" where
  "stream_round n q b =
     (case queue_items q b of
        [] \<Rightarrow> (False, b)
      | item # rest \<Rightarrow>
          (let b1 = b\<lparr>bus_queues := AList.update q rest (bus_queues b), delivered := delivered b @ [(q, item)]\<rparr>
           in if bi_event item = ''session_end'' then (True, bus_unsubscribe n q b1) else (False, b1)))"

section \<open>Runs\<close>

text \<open>
  The bus together with the streams that are open, as (queue, session) pairs. A stream ends by
  itself at a session end, or when its client goes away (\<open>Hang_up\<close>).
\<close>

record bus_system =
  sys_bus :: session_bus
  open_streams :: "(nat \<times> int) list"

datatype bus_event = Publish real int string bus_data | Open bool int | Round nat | Hang_up nat

fun bus_step :: "bus_event \<Rightarrow> bus_system \<Rightarrow> bus_system" where
  "bus_step (Publish now n ev d) s = s\<lparr>sys_bus := bus_publish now n ev d (sys_bus s)\<rparr>"
| "bus_step (Open active n) s =
     (case stream_session active n (sys_bus s) of
        (Opened q backlog, b) \<Rightarrow> s\<lparr>sys_bus := b, open_streams := open_streams s @ [(q, n)]\<rparr>
      | (_, b) \<Rightarrow> s\<lparr>sys_bus := b\<rparr>)"
| "bus_step (Round q) s =
     (case map_of (open_streams s) q of
        None \<Rightarrow> s
      | Some n \<Rightarrow>
          (case stream_round n q (sys_bus s) of
             (True, b) \<Rightarrow> s\<lparr>sys_bus := b, open_streams := AList.delete q (open_streams s)\<rparr>
           | (False, b) \<Rightarrow> s\<lparr>sys_bus := b\<rparr>))"
| "bus_step (Hang_up q) s =
     (case map_of (open_streams s) q of
        None \<Rightarrow> s
      | Some n \<Rightarrow> s\<lparr>sys_bus := bus_unsubscribe n q (sys_bus s), open_streams := AList.delete q (open_streams s)\<rparr>)"

definition new_bus_system :: "nat \<Rightarrow> int \<Rightarrow> bus_system" where
  "new_bus_system bufsize streams = \<lparr>sys_bus = new_session_bus bufsize streams, open_streams = []\<rparr>"

section \<open>The stream limit\<close>

definition streams_ok :: "bus_system \<Rightarrow> bool" where
  "streams_ok s \<longleftrightarrow>
     distinct (map fst (open_streams s)) \<and>
     (\<forall>q \<in> fst ` set (open_streams s). q < next_queue (sys_bus s)) \<and>
     stream_count (sys_bus s) = int (length (open_streams s)) \<and>
     stream_count (sys_bus s) \<le> max 0 (max_streams (sys_bus s))"

lemma length_delete_key:
  "distinct (map fst al) \<Longrightarrow> map_of al k = Some v \<Longrightarrow> Suc (length (AList.delete k al)) = length al"
proof (induction al)
  case (Cons a al)
  obtain j w where a: "a = (j, w)" by (cases a)
  show ?case
  proof (cases "j = k")
    case True
    then have "AList.delete k al = al" using Cons.prems a by (intro AList.delete_id) simp
    then show ?thesis using a True by simp
  next
    case False
    then show ?thesis using Cons a by simp
  qed
qed simp

lemma fst_delete_subset: "fst ` set (AList.delete k al) \<subseteq> fst ` set al"
  by (auto simp: AList.delete_eq)

lemma bus_round_keeps:
  "next_queue (snd (stream_round n q b)) = next_queue b" "max_streams (snd (stream_round n q b)) = max_streams b"
  "stream_count (snd (stream_round n q b)) = (if fst (stream_round n q b) then max 0 (stream_count b - 1) else stream_count b)"
  by (simp_all add: stream_round_def bus_unsubscribe_def Let_def split: list.split)

lemma close_stream_ok:
  assumes "streams_ok s" and "map_of (open_streams s) q = Some n"
    and "next_queue b = next_queue (sys_bus s)" and "max_streams b = max_streams (sys_bus s)"
    and "stream_count b = max 0 (stream_count (sys_bus s) - 1)"
  shows "streams_ok (s\<lparr>sys_bus := b, open_streams := AList.delete q (open_streams s)\<rparr>)"
proof -
  have "distinct (map fst (open_streams s))" using assms(1) by (simp add: streams_ok_def)
  from length_delete_key [OF this assms(2)]
  have "int (length (AList.delete q (open_streams s))) = int (length (open_streams s)) - 1" by simp
  moreover have "0 < length (open_streams s)" using assms(2) by (cases "open_streams s") simp_all
  moreover have "\<forall>p \<in> fst ` set (AList.delete q (open_streams s)). p < next_queue b"
    using assms(1,3) fst_delete_subset [of q "open_streams s"] unfolding streams_ok_def by (metis subsetD)
  ultimately show ?thesis
    using assms(1,4,5) by (simp add: streams_ok_def AList.distinct_delete)
qed

lemma bus_step_ok: "streams_ok s \<Longrightarrow> streams_ok (bus_step ev s)"
proof (cases ev)
  case (Publish now n e d)
  assume "streams_ok s"
  then show ?thesis using Publish by (simp add: streams_ok_def bus_publish_def Let_def)
next
  case (Open active n)
  assume "streams_ok s"
  then show ?thesis
    using Open by (auto simp: streams_ok_def stream_session_def can_subscribe_def bus_subscribe_def Let_def)
next
  case (Round q)
  assume ok: "streams_ok s"
  show ?thesis
  proof (cases "map_of (open_streams s) q")
    case (Some n)
    note keeps = bus_round_keeps [of n q "sys_bus s"]
    show ?thesis
    proof (cases "fst (stream_round n q (sys_bus s))")
      case True
      then show ?thesis
        using Round Some close_stream_ok [OF ok Some, of "snd (stream_round n q (sys_bus s))"] keeps
        by (simp add: case_prod_beta split: bool.split)
    next
      case False
      then show ?thesis using Round Some ok keeps by (simp add: case_prod_beta streams_ok_def split: bool.split)
    qed
  qed (use Round ok in simp)
next
  case (Hang_up q)
  assume ok: "streams_ok s"
  show ?thesis
  proof (cases "map_of (open_streams s) q")
    case (Some n)
    then show ?thesis using Hang_up close_stream_ok [OF ok Some] by (simp add: bus_unsubscribe_def)
  qed (use Hang_up ok in simp)
qed

text \<open>
  In any run of the bus the stream counter is the number of open streams, and never exceeds the
  configured maximum: every stream gives its place back exactly once, whether its session ends or
  its client goes away.
\<close>

theorem stream_limit:
  "case fold bus_step evs (new_bus_system bufsize streams) of s \<Rightarrow>
     stream_count (sys_bus s) = int (length (open_streams s)) \<and>
     int (length (open_streams s)) \<le> max 0 streams \<and> distinct (map fst (open_streams s))"
proof -
  have "streams_ok (fold bus_step evs s) \<and> max_streams (sys_bus (fold bus_step evs s)) = max_streams (sys_bus s)"
    if "streams_ok s" for s
    using that
  proof (induction evs arbitrary: s)
    case (Cons ev evs)
    have "max_streams (sys_bus (bus_step ev s)) = max_streams (sys_bus s)"
      by (cases ev) (simp_all add: bus_publish_def stream_session_def bus_subscribe_def bus_unsubscribe_def Let_def case_prod_beta
          bus_round_keeps split: option.split bool.split)
    with Cons show ?case by (simp add: bus_step_ok)
  qed simp
  from this [of "new_bus_system bufsize streams"] show ?thesis
    by (auto simp: streams_ok_def new_bus_system_def new_session_bus_def)
qed

section \<open>What a stream receives\<close>

definition delivered_to :: "nat \<Rightarrow> session_bus \<Rightarrow> bus_item list" where
  "delivered_to q b = map snd (filter (\<lambda>(p, _). p = q) (delivered b))"

text \<open>Everything that has reached the stream's queue: what it has yielded and what is waiting.\<close>

definition stream_view :: "nat \<Rightarrow> session_bus \<Rightarrow> bus_item list" where
  "stream_view q b = delivered_to q b @ queue_items q b"

definition subs :: "int \<Rightarrow> session_bus \<Rightarrow> nat list" where
  "subs n b = sc_subscribers (bus_channel n b)"

definition fresh_numbers :: "session_bus \<Rightarrow> bool" where
  "fresh_numbers b \<longleftrightarrow>
     (\<forall>q. next_queue b \<le> q \<longrightarrow> stream_view q b = [] \<and> (\<forall>n. q \<notin> set (subs n b))) \<and> (\<forall>n. distinct (subs n b))"

lemma offer_other: "p \<noteq> q \<Longrightarrow> map_of (offer item p qs) q = map_of qs q"
  by (simp add: offer_def Let_def dict_simps)

lemma offers_other: "q \<notin> set ps \<Longrightarrow> map_of (fold (offer item) ps qs) q = map_of qs q"
  by (induction ps arbitrary: qs) (auto simp: offer_other)

lemma offers_own:
  "distinct ps \<Longrightarrow> q \<in> set ps \<Longrightarrow> map_of (fold (offer item) ps qs) q = map_of (offer item q qs) q"
proof (induction ps arbitrary: qs)
  case (Cons p ps)
  show ?case
  proof (cases "p = q")
    case True
    then show ?thesis using Cons.prems offers_other [of q ps] by simp
  next
    case False
    have "map_of (offer item q (offer item p qs)) q = map_of (offer item q qs) q"
      using offer_other [OF False, of item qs] by (auto simp: offer_def Let_def dict_simps)
    then show ?thesis using Cons False by simp
  qed
qed simp

lemma publish_view:
  "stream_view q (bus_publish now n ev d b) =
    (if q \<in> set (subs n b) \<and> distinct (subs n b) \<and> length (queue_items q b) < QUEUE_SIZE
     then stream_view q b @ [\<lparr>bi_event = ev, bi_data = d, bi_at = now\<rparr>] else stream_view q b)"
  if "distinct (subs n b)"
proof -
  let ?item = "\<lparr>bi_event = ev, bi_data = d, bi_at = now\<rparr>"
  have queues: "bus_queues (bus_publish now n ev d b) = fold (offer ?item) (subs n b) (bus_queues b)"
    by (simp add: bus_publish_def subs_def Let_def)
  have "map_of (bus_queues (bus_publish now n ev d b)) q =
      (if q \<in> set (subs n b) then map_of (offer ?item q (bus_queues b)) q else map_of (bus_queues b) q)"
    unfolding queues using that by (simp add: offers_other offers_own)
  moreover have "delivered_to q (bus_publish now n ev d b) = delivered_to q b"
    by (simp add: delivered_to_def bus_publish_def Let_def)
  ultimately show ?thesis
    using that by (simp add: stream_view_def queue_items_def offer_def Let_def dict_simps QUEUE_SIZE_def split: option.split)
qed

lemma publish_subs:
  "subs m (bus_publish now n ev d b) = (if m = n \<and> ev = ''session_end'' then [] else subs m b)"
  by (simp add: subs_def bus_channel_def bus_publish_def Let_def dict_simps)

lemma subscribe_view:
  "stream_view q (snd (bus_subscribe n b)) = (if q = next_queue b then delivered_to q b else stream_view q b)"
  "subs m (snd (bus_subscribe n b)) = (if m = n then List.insert (next_queue b) (subs n b) else subs m b)"
  by (simp_all add: stream_view_def delivered_to_def queue_items_def subs_def bus_channel_def bus_subscribe_def Let_def dict_simps)

lemma unsubscribe_view:
  "stream_view q (bus_unsubscribe n p b) = stream_view q b"
  "subs m (bus_unsubscribe n p b) = (if m = n then removeAll p (subs n b) else subs m b)"
  by (simp_all add: stream_view_def delivered_to_def queue_items_def subs_def bus_channel_def bus_unsubscribe_def dict_simps
      split: option.split)

lemma round_view:
  "stream_view q (snd (stream_round n p b)) = stream_view q b"
  "subs m (snd (stream_round n p b)) = (if fst (stream_round n p b) \<and> m = n then removeAll p (subs n b) else subs m b)"
proof -
  show "subs m (snd (stream_round n p b)) = (if fst (stream_round n p b) \<and> m = n then removeAll p (subs n b) else subs m b)"
    by (simp add: stream_round_def Let_def unsubscribe_view split: list.split) (simp add: subs_def bus_channel_def)
  have "stream_view q (b\<lparr>bus_queues := AList.update p rest (bus_queues b), delivered := delivered b @ [(p, item)]\<rparr>) = stream_view q b"
    if "queue_items p b = item # rest" for item rest
    using that by (auto simp: stream_view_def delivered_to_def queue_items_def dict_simps)
  then show "stream_view q (snd (stream_round n p b)) = stream_view q b"
    by (simp add: stream_round_def Let_def unsubscribe_view split: list.split)
qed

lemma step_fresh: "fresh_numbers (sys_bus s) \<Longrightarrow> fresh_numbers (sys_bus (bus_step ev s))"
proof -
  assume fresh: "fresh_numbers (sys_bus s)"
  have publish: "fresh_numbers (bus_publish now n e d (sys_bus s))" for now n e d
    using fresh by (auto simp: fresh_numbers_def publish_view publish_subs) (simp_all add: bus_publish_def Let_def)
  have subscribe: "fresh_numbers (snd (bus_subscribe n (sys_bus s)))" for n
  proof -
    have "next_queue (snd (bus_subscribe n (sys_bus s))) = Suc (next_queue (sys_bus s))"
      by (simp add: bus_subscribe_def Let_def)
    then show ?thesis using fresh by (auto simp: fresh_numbers_def subscribe_view)
  qed
  have unsubscribe: "fresh_numbers (bus_unsubscribe n q (sys_bus s))" for n q
    using fresh by (auto simp: fresh_numbers_def unsubscribe_view distinct_removeAll) (simp_all add: bus_unsubscribe_def)
  have round: "fresh_numbers (snd (stream_round n q (sys_bus s)))" for n q
    using fresh by (auto simp: fresh_numbers_def round_view bus_round_keeps distinct_removeAll)
  show ?thesis
    by (cases ev) (simp_all add: publish fresh subscribe unsubscribe round stream_session_def case_prod_beta split: option.split bool.split)
qed

lemma run_fresh: "fresh_numbers (sys_bus (fold bus_step evs (new_bus_system bufsize streams)))"
proof -
  have run: "fresh_numbers (sys_bus (fold bus_step evs s))" if "fresh_numbers (sys_bus s)" for s
    using that by (induction evs arbitrary: s) (simp_all add: step_fresh)
  show ?thesis
    by (rule run) (simp add: new_bus_system_def new_session_bus_def fresh_numbers_def stream_view_def delivered_to_def
        queue_items_def subs_def bus_channel_def)
qed

text \<open>The queue \<open>q\<close> is subscribed to session \<open>n\<close> only, or to nothing any more.\<close>

definition attached :: "nat \<Rightarrow> int \<Rightarrow> session_bus \<Rightarrow> bool" where
  "attached q n b \<longleftrightarrow> q < next_queue b \<and> q \<in> set (subs n b) \<and> (\<forall>m. m \<noteq> n \<longrightarrow> q \<notin> set (subs m b))"

definition detached :: "nat \<Rightarrow> session_bus \<Rightarrow> bool" where
  "detached q b \<longleftrightarrow> q < next_queue b \<and> (\<forall>m. q \<notin> set (subs m b))"

lemma bus_next_queue:
  "next_queue (bus_publish now n ev d b) = next_queue b" "next_queue (bus_unsubscribe n p b) = next_queue b"
  "next_queue (snd (bus_subscribe n b)) = Suc (next_queue b)"
  by (simp_all add: bus_publish_def bus_unsubscribe_def bus_subscribe_def Let_def)

lemmas bus_ops = publish_subs subscribe_view unsubscribe_view round_view bus_next_queue bus_round_keeps

lemma step_detached:
  assumes "fresh_numbers (sys_bus s)" and "detached q (sys_bus s)"
  shows "detached q (sys_bus (bus_step ev s)) \<and> stream_view q (sys_bus (bus_step ev s)) = stream_view q (sys_bus s)"
proof -
  have distinct: "distinct (subs n (sys_bus s))" for n using assms(1) by (simp add: fresh_numbers_def)
  show ?thesis
    using assms(2)
    by (cases ev) (simp_all add: detached_def bus_ops publish_view [OF distinct] stream_session_def case_prod_beta
        split: option.split bool.split)
qed

lemma run_detached:
  "fresh_numbers (sys_bus s) \<Longrightarrow> detached q (sys_bus s) \<Longrightarrow>
    stream_view q (sys_bus (fold bus_step evs s)) = stream_view q (sys_bus s)"
  by (induction evs arbitrary: s) (simp_all add: step_fresh step_detached)

text \<open>The items published for a session, up to the end of the session.\<close>

fun feed :: "int \<Rightarrow> bus_event list \<Rightarrow> bus_item list" where
  "feed n [] = []"
| "feed n (Publish now m ev d # evs) =
     (if m \<noteq> n then feed n evs
      else \<lparr>bi_event = ev, bi_data = d, bi_at = now\<rparr> # (if ev = ''session_end'' then [] else feed n evs))"
| "feed n (ev # evs) = feed n evs"

lemma round_goes_on:
  "list_all (\<lambda>i. bi_event i \<noteq> ''session_end'') (queue_items q b) \<Longrightarrow> \<not> fst (stream_round n q b)"
  by (auto simp: stream_round_def Let_def split: list.split)

lemma other_stream_keeps_attached:
  assumes "attached q n (sys_bus s)" and "map_of (open_streams s) q = Some n"
    and "fresh_numbers (sys_bus s)" and "ev \<noteq> Hang_up q"
    and "\<And>now m e d. ev \<noteq> Publish now m e d"
    and "list_all (\<lambda>i. bi_event i \<noteq> ''session_end'') (queue_items q (sys_bus s))"
  shows "attached q n (sys_bus (bus_step ev s)) \<and> map_of (open_streams (bus_step ev s)) q = Some n \<and>
    stream_view q (sys_bus (bus_step ev s)) = stream_view q (sys_bus s)"
proof (cases ev)
  case (Publish now m e d)
  then show ?thesis using assms(5) by blast
next
  case (Open active m)
  then show ?thesis
    using assms(1,2) by (auto simp: attached_def bus_ops stream_session_def case_prod_beta map_add_def)
next
  case (Round p)
  show ?thesis
  proof (cases "map_of (open_streams s) p")
    case (Some m)
    have "\<not> fst (stream_round m p (sys_bus s))" if "p = q"
      using that assms(6) round_goes_on by simp
    then show ?thesis
      using assms(1,2) Round Some
      by (cases "fst (stream_round m p (sys_bus s))")
        (auto simp: attached_def bus_ops case_prod_beta dict_simps split: bool.splits if_splits)
  qed (use Round assms in simp)
next
  case (Hang_up p)
  then show ?thesis
    using assms(1,2,4) by (auto simp: attached_def bus_ops dict_simps split: option.split)
qed

lemma attached_run:
  assumes "fresh_numbers (sys_bus s)" and "attached q n (sys_bus s)" and "map_of (open_streams s) q = Some n"
    and "list_all (\<lambda>i. bi_event i \<noteq> ''session_end'') (stream_view q (sys_bus s))"
    and "length (stream_view q (sys_bus s)) + length (feed n evs) \<le> QUEUE_SIZE" and "Hang_up q \<notin> set evs"
  shows "stream_view q (sys_bus (fold bus_step evs s)) = stream_view q (sys_bus s) @ feed n evs"
  using assms
proof (induction evs arbitrary: s)
  case (Cons ev evs)
  let ?s = "bus_step ev s"
  have fresh: "fresh_numbers (sys_bus ?s)" using Cons.prems(1) by (rule step_fresh)
  have waiting: "list_all (\<lambda>i. bi_event i \<noteq> ''session_end'') (queue_items q (sys_bus s))"
    "length (queue_items q (sys_bus s)) \<le> length (stream_view q (sys_bus s))"
    using Cons.prems(4) by (simp_all add: stream_view_def)
  show ?case
  proof (cases "\<exists>now m e d. ev = Publish now m e d")
    case False
    then have "attached q n (sys_bus ?s) \<and> map_of (open_streams ?s) q = Some n \<and> stream_view q (sys_bus ?s) = stream_view q (sys_bus s)"
      using Cons.prems waiting by (intro other_stream_keeps_attached) auto
    moreover have "feed n (ev # evs) = feed n evs" using False by (cases ev) simp_all
    ultimately show ?thesis using Cons.prems Cons.IH [OF fresh] by simp
  next
    case True
    then obtain now m e d where ev: "ev = Publish now m e d" by blast
    have distinct: "distinct (subs m (sys_bus s))" using Cons.prems(1) by (simp add: fresh_numbers_def)
    note view = publish_view [OF distinct, of q now e d]
    consider (other) "m \<noteq> n" | (live) "m = n" "e \<noteq> ''session_end''" | (closing) "m = n" "e = ''session_end''" by blast
    then show ?thesis
    proof cases
      case other
      then have "attached q n (sys_bus ?s)" "stream_view q (sys_bus ?s) = stream_view q (sys_bus s)"
        using Cons.prems(2) ev view by (simp_all add: attached_def bus_ops)
      then show ?thesis using Cons.prems Cons.IH [OF fresh] ev other by simp
    next
      case live
      have "attached q n (sys_bus ?s)" using Cons.prems(2) ev live by (simp add: attached_def bus_ops)
      moreover have "stream_view q (sys_bus ?s) = stream_view q (sys_bus s) @ [\<lparr>bi_event = e, bi_data = d, bi_at = now\<rparr>]"
        using Cons.prems(2,5) ev view live waiting distinct by (simp add: attached_def)
      ultimately show ?thesis using Cons.prems Cons.IH [OF fresh] ev live by simp
    next
      case closing
      have "detached q (sys_bus ?s)" using Cons.prems(2) ev closing by (simp add: attached_def detached_def bus_ops)
      from run_detached [OF fresh this, of evs]
      have "stream_view q (sys_bus (fold bus_step (ev # evs) s)) = stream_view q (sys_bus ?s)" by simp
      moreover have "stream_view q (sys_bus ?s) = stream_view q (sys_bus s) @ [\<lparr>bi_event = e, bi_data = d, bi_at = now\<rparr>]"
        using Cons.prems(2,5) ev view closing waiting distinct by (simp add: attached_def)
      ultimately show ?thesis using ev closing by simp
    qed
  qed
qed simp

lemma open_attaches:
  assumes "fresh_numbers (sys_bus s)" and "can_subscribe (sys_bus s)" and "q = next_queue (sys_bus s)"
    and "q \<notin> fst ` set (open_streams s)"
  shows "attached q n (sys_bus (bus_step (Open True n) s)) \<and> map_of (open_streams (bus_step (Open True n) s)) q = Some n \<and>
    stream_view q (sys_bus (bus_step (Open True n) s)) = []"
proof -
  have "delivered_to q (sys_bus s) = []" "\<And>m. q \<notin> set (subs m (sys_bus s))"
    using assms(1,3) by (auto simp: fresh_numbers_def stream_view_def)
  then show ?thesis
    using assms(2-4) by (auto simp: attached_def bus_ops stream_session_def case_prod_beta map_add_def map_of_eq_None_iff [symmetric]
        split: option.split) (auto simp: bus_subscribe_def Let_def)
qed

lemma run_streams_ok: "streams_ok (fold bus_step evs (new_bus_system bufsize streams))"
proof -
  have run: "streams_ok (fold bus_step evs s)" if "streams_ok s" for s
    using that by (induction evs arbitrary: s) (simp_all add: bus_step_ok)
  show ?thesis by (rule run) (simp add: streams_ok_def new_bus_system_def new_session_bus_def)
qed

text \<open>
  C27. A live stream loses nothing while it keeps up: from the moment it is opened, and until its client
  goes away, what has reached it is exactly what has been published for its session, in order and
  once each, up to and including the end of the session, as long as that is at most 256 items
  (the size of its queue), whatever happens on other sessions and streams.
\<close>

theorem stream_complete:
  assumes "s = fold bus_step evs0 (new_bus_system bufsize streams)" and "can_subscribe (sys_bus s)"
    and "q = next_queue (sys_bus s)" and "Hang_up q \<notin> set evs" and "length (feed n evs) \<le> QUEUE_SIZE"
  shows "stream_view q (sys_bus (fold bus_step (Open True n # evs) s)) = feed n evs"
proof -
  have fresh: "fresh_numbers (sys_bus s)" unfolding assms(1) by (rule run_fresh)
  have "streams_ok s" unfolding assms(1) by (rule run_streams_ok)
  then have "q \<notin> fst ` set (open_streams s)" using assms(3) by (auto simp: streams_ok_def)
  from open_attaches [OF fresh assms(2,3) this, of n] attached_run [OF step_fresh [OF fresh], of q n "Open True n" evs] assms(4,5)
  show ?thesis by (simp del: bus_step.simps)
qed

theorem stream_complete_witness:
  "stream_view 0 (sys_bus (fold bus_step [Open True 7, Publish 1 7 ''output'' (D_output 7 1 ''ok''), Publish 2 8 ''output'' (D_output 8 2 ''no''),
      Round 0, Publish 3 7 ''session_end'' (D_session_end 7 3 ''player_end''), Publish 4 7 ''output'' (D_output 7 4 ''late'')] (new_bus_system 50 4))) =
    [\<lparr>bi_event = ''output'', bi_data = D_output 7 1 ''ok'', bi_at = 1\<rparr>,
     \<lparr>bi_event = ''session_end'', bi_data = D_session_end 7 3 ''player_end'', bi_at = 3\<rparr>]"
  using stream_complete [of "new_bus_system 50 4" "[]" 50 4 0
      "[Publish 1 7 ''output'' (D_output 7 1 ''ok''), Publish 2 8 ''output'' (D_output 8 2 ''no''),
      Round 0, Publish 3 7 ''session_end'' (D_session_end 7 3 ''player_end''), Publish 4 7 ''output'' (D_output 7 4 ''late'')]" 7]
  by (simp add: new_bus_system_def new_session_bus_def can_subscribe_def QUEUE_SIZE_def del: bus_step.simps)

lemma stays_open:
  assumes "fresh_numbers (sys_bus t)" and "detached q (sys_bus t)" and "map_of (open_streams t) q = Some n"
    and "list_all (\<lambda>i. bi_event i \<noteq> ''session_end'') (queue_items q (sys_bus t))" and "ev \<noteq> Hang_up q"
  shows "map_of (open_streams (bus_step ev t)) q = Some n \<and>
    (\<exists>k. queue_items q (sys_bus (bus_step ev t)) = drop k (queue_items q (sys_bus t)))"
proof -
  let ?b = "sys_bus t" and ?t = "bus_step ev t"
  have opened: "map_of (open_streams ?t) q = Some n"
  proof (cases ev)
    case (Open active m)
    then show ?thesis using assms(3) by (simp add: stream_session_def case_prod_beta map_add_def)
  next
    case (Round p)
    have "\<not> fst (stream_round n q ?b)" using assms(4) by (rule round_goes_on)
    then show ?thesis using Round assms(3) by (auto simp: case_prod_beta dict_simps split: option.split bool.split)
  next
    case (Hang_up p)
    then show ?thesis using assms(3,5) by (auto simp: dict_simps split: option.split)
  qed (use assms(3) in simp)
  have view: "stream_view q (sys_bus ?t) = stream_view q ?b" using step_detached [OF assms(1,2)] by blast
  have "\<exists>xs. delivered_to q (sys_bus ?t) = delivered_to q ?b @ xs"
    by (cases ev) (simp_all add: delivered_to_def bus_publish_def stream_session_def bus_subscribe_def stream_round_def
        bus_unsubscribe_def Let_def case_prod_beta split: option.split list.split bool.split)
  then obtain xs where "delivered_to q (sys_bus ?t) = delivered_to q ?b @ xs" by blast
  with view have "queue_items q ?b = xs @ queue_items q (sys_bus ?t)" by (simp add: stream_view_def)
  then have "queue_items q (sys_bus ?t) = drop (length xs) (queue_items q ?b)" by simp
  with opened show ?thesis by blast
qed

text \<open>
  A stream whose queue is full when its session ends is never told: the end event is discarded,
  the channel is gone, and whatever happens afterwards the stream stays open, holding its
  place, until its client goes away.
\<close>

theorem stream_misses_end:
  assumes "s = fold bus_step evs0 (new_bus_system bufsize streams)" and "map_of (open_streams s) q = Some n"
    and "attached q n (sys_bus s)" and "length (queue_items q (sys_bus s)) = QUEUE_SIZE"
    and "list_all (\<lambda>i. bi_event i \<noteq> ''session_end'') (queue_items q (sys_bus s))"
    and "Hang_up q \<notin> set evs"
  shows "map_of (open_streams (fold bus_step (Publish now n ''session_end'' d # evs) s)) q = Some n"
proof -
  let ?s = "bus_step (Publish now n ''session_end'' d) s"
  have fresh0: "fresh_numbers (sys_bus s)" unfolding assms(1) by (rule run_fresh)
  have fresh: "fresh_numbers (sys_bus ?s)" using fresh0 by (rule step_fresh)
  have distinct: "distinct (subs n (sys_bus s))" using fresh0 by (simp add: fresh_numbers_def)
  have detached: "detached q (sys_bus ?s)" using assms(3) by (simp add: attached_def detached_def bus_ops)
  have view: "stream_view q (sys_bus ?s) = stream_view q (sys_bus s)" using assms(4) publish_view [OF distinct] by simp
  have delivered: "delivered_to q (sys_bus ?s) = delivered_to q (sys_bus s)"
    by (simp add: delivered_to_def bus_publish_def Let_def)
  have waiting: "list_all (\<lambda>i. bi_event i \<noteq> ''session_end'') (queue_items q (sys_bus ?s))"
    using assms(5) view delivered by (simp add: stream_view_def)
  have "map_of (open_streams (fold bus_step evs t)) q = Some n"
    if "fresh_numbers (sys_bus t)" "detached q (sys_bus t)" "map_of (open_streams t) q = Some n"
      "list_all (\<lambda>i. bi_event i \<noteq> ''session_end'') (queue_items q (sys_bus t))" for t
    using that assms(6)
  proof (induction evs arbitrary: t)
    case (Cons ev evs)
    let ?t = "bus_step ev t"
    have step: "fresh_numbers (sys_bus ?t)" "detached q (sys_bus ?t)" "stream_view q (sys_bus ?t) = stream_view q (sys_bus t)"
      using Cons.prems step_fresh step_detached by blast+
    have stays: "map_of (open_streams ?t) q = Some n \<and>
        (\<exists>k. queue_items q (sys_bus ?t) = drop k (queue_items q (sys_bus t)))"
      using stays_open [OF Cons.prems(1-4), of ev] Cons.prems(5) by auto
    then have "list_all (\<lambda>i. bi_event i \<noteq> ''session_end'') (queue_items q (sys_bus ?t))"
      using Cons.prems(4) unfolding list_all_iff by (metis in_set_dropD)
    then show ?case using Cons step stays by simp
  qed simp
  from this [OF fresh detached _ waiting] assms(2) show ?thesis by simp
qed

definition chatter :: bus_event where
  "chatter = Publish 1 7 ''output'' (D_output 7 1 ''ok'')"

lemma chatter_run:
  assumes "fresh_numbers (sys_bus s)" and "attached q 7 (sys_bus s)" and "delivered (sys_bus s) = []"
    and "length (queue_items q (sys_bus s)) + k \<le> QUEUE_SIZE"
  shows "attached q 7 (sys_bus (fold bus_step (replicate k chatter) s)) \<and>
    open_streams (fold bus_step (replicate k chatter) s) = open_streams s \<and>
    queue_items q (sys_bus (fold bus_step (replicate k chatter) s)) =
      queue_items q (sys_bus s) @ replicate k \<lparr>bi_event = ''output'', bi_data = D_output 7 1 ''ok'', bi_at = 1\<rparr>"
  using assms
proof (induction k arbitrary: s)
  case (Suc k)
  let ?s = "bus_step chatter s"
  have distinct: "distinct (subs 7 (sys_bus s))" using Suc.prems(1) by (simp add: fresh_numbers_def)
  have quiet: "delivered (sys_bus ?s) = []" "open_streams ?s = open_streams s"
    using Suc.prems(3) by (simp_all add: chatter_def bus_publish_def Let_def)
  have "stream_view q (sys_bus ?s) = stream_view q (sys_bus s) @ [\<lparr>bi_event = ''output'', bi_data = D_output 7 1 ''ok'', bi_at = 1\<rparr>]"
    using Suc.prems publish_view [OF distinct] distinct by (simp add: chatter_def attached_def)
  then have queue: "queue_items q (sys_bus ?s) = queue_items q (sys_bus s) @ [\<lparr>bi_event = ''output'', bi_data = D_output 7 1 ''ok'', bi_at = 1\<rparr>]"
    using Suc.prems(3) quiet by (simp add: stream_view_def delivered_to_def)
  have "attached q 7 (sys_bus ?s)" using Suc.prems(2) by (simp add: chatter_def attached_def bus_ops)
  from Suc.IH [OF step_fresh [OF Suc.prems(1)] this quiet(1)] Suc.prems(4) queue quiet(2) show ?case
    by (simp add: replicate_append_same)
qed simp

theorem stream_misses_end_witness:
  "map_of (open_streams (fold bus_step [Publish 2 7 ''session_end'' (D_session_end 7 2 ''player_end''), Round 0, Round 0]
     (fold bus_step (Open True 7 # replicate 256 chatter) (new_bus_system 50 4)))) 0 = Some 7"
proof -
  let ?opened = "bus_step (Open True 7) (new_bus_system 50 4)"
  let ?s = "fold bus_step (Open True 7 # replicate 256 chatter) (new_bus_system 50 4)"
  have "attached 0 7 (sys_bus ?opened) \<and> map_of (open_streams ?opened) 0 = Some 7 \<and> stream_view 0 (sys_bus ?opened) = []"
    by (intro open_attaches run_fresh [of "[]", simplified]) (simp_all add: new_bus_system_def new_session_bus_def can_subscribe_def)
  moreover have "delivered (sys_bus ?opened) = []"
    by (simp add: new_bus_system_def new_session_bus_def can_subscribe_def stream_session_def bus_subscribe_def Let_def)
  moreover have "fresh_numbers (sys_bus ?opened)" using run_fresh [of "[Open True 7]"] by simp
  ultimately have full: "attached 0 7 (sys_bus ?s) \<and> map_of (open_streams ?s) 0 = Some 7 \<and>
      queue_items 0 (sys_bus ?s) = replicate 256 \<lparr>bi_event = ''output'', bi_data = D_output 7 1 ''ok'', bi_at = 1\<rparr>"
    using chatter_run [of ?opened 0 256] by (simp add: stream_view_def QUEUE_SIZE_def del: bus_step.simps)
  show ?thesis
    using stream_misses_end [OF refl, of "Open True 7 # replicate 256 chatter" 50 4 0 7 "[Round 0, Round 0]" 2 "D_session_end 7 2 ''player_end''"] full
    by (simp add: QUEUE_SIZE_def list_all_iff del: bus_step.simps)
qed

end
