(* ===== verification/Store_File.thy ===== *)
theory Store_File
  imports Zork_Prelude
begin

text \<open>
  The database file of \<^verbatim>\<open>src/zorkbot/src/zorkbot/admin/store.py\<close>: the schema, its creation and the
  migration that run on every open, and the life of the connection.

  A file is its tables in order of creation, each with its columns and rows; a row gives a cell to each
  column. \<open>CREATE ... IF NOT EXISTS\<close> leaves an existing table as it is; \<open>ALTER TABLE ... ADD COLUMN\<close> adds the
  column at the end and \<open>NULL\<close> to every row. What the tables contain is the subject of the theory of
  the event store.
\<close>

section \<open>Schema\<close>

record column_def =
  cd_name :: string
  cd_type :: string
  cd_not_null :: bool
  cd_default :: "string option"
  cd_key :: bool

definition col :: "string \<Rightarrow> string \<Rightarrow> column_def" where
  "col c ty = \<lparr>cd_name = c, cd_type = ty, cd_not_null = False, cd_default = None, cd_key = False\<rparr>"

definition needed :: "string \<Rightarrow> string \<Rightarrow> column_def" where
  "needed c ty = (col c ty)\<lparr>cd_not_null := True\<rparr>"

definition defaulted :: "string \<Rightarrow> string \<Rightarrow> string \<Rightarrow> column_def" where
  "defaulted c ty v = (needed c ty)\<lparr>cd_default := Some v\<rparr>"

definition primary :: "string \<Rightarrow> string \<Rightarrow> column_def" where
  "primary c ty = (col c ty)\<lparr>cd_key := True\<rparr>"

definition SCHEMA_VERSION :: int where
  "SCHEMA_VERSION = 2"

definition SCHEMA :: "(string \<times> column_def list) list" where
  "SCHEMA =
     [(''schema_meta'', [primary ''key'' ''TEXT'', needed ''value'' ''TEXT'']),
      (''admin_user'',
        [primary ''id'' ''INTEGER'', defaulted ''username'' ''TEXT'' ''admin'', needed ''password_hash'' ''BLOB'',
         needed ''password_salt'' ''BLOB'', defaulted ''kdf'' ''TEXT'' ''scrypt'', needed ''kdf_params'' ''TEXT'',
         defaulted ''must_change_password'' ''INTEGER'' ''1'', col ''password_changed_at'' ''INTEGER'', needed ''created_at'' ''INTEGER'']),
      (''refresh_tokens'',
        [primary ''token_hash'' ''BLOB'', needed ''issued_at'' ''INTEGER'', needed ''expires_at'' ''INTEGER'',
         col ''revoked_at'' ''INTEGER'', col ''replaced_by'' ''BLOB'']),
      (''players'',
        [primary ''pubkey_prefix'' ''TEXT'', col ''name'' ''TEXT'', needed ''first_seen_at'' ''INTEGER'',
         needed ''last_seen_at'' ''INTEGER'', col ''banned_at'' ''INTEGER'']),
      (''sessions'',
        [primary ''id'' ''INTEGER'', needed ''bot_run_id'' ''TEXT'', needed ''session_num'' ''INTEGER'', needed ''pubkey_prefix'' ''TEXT'',
         needed ''started_at'' ''INTEGER'', col ''ended_at'' ''INTEGER'', col ''end_reason'' ''TEXT'',
         defaulted ''peak_watchers'' ''INTEGER'' ''0'']),
      (''commands'',
        [primary ''id'' ''INTEGER'', needed ''at'' ''INTEGER'', col ''pubkey_prefix'' ''TEXT'', needed ''command'' ''TEXT'',
         needed ''transport'' ''TEXT'', col ''channel_idx'' ''INTEGER'', needed ''accepted'' ''INTEGER'', col ''reject_reason'' ''TEXT'']),
      (''messages'',
        [primary ''id'' ''INTEGER'', needed ''at'' ''INTEGER'', needed ''direction'' ''TEXT'', needed ''transport'' ''TEXT'',
         col ''channel_idx'' ''INTEGER'', col ''pubkey_prefix'' ''TEXT'', needed ''chars'' ''INTEGER'',
         defaulted ''dropped'' ''INTEGER'' ''0'', col ''acked'' ''INTEGER''])]"

section \<open>Files\<close>

datatype cell = Null | Int_cell int | Text_cell string | Blob_cell "nat list"

type_synonym table_row = "(string \<times> cell) list"

record file_table =
  ft_columns :: "column_def list"
  ft_rows :: "table_row list"

type_synonym db_file = "(string \<times> file_table) list"

definition create_missing :: "db_file \<Rightarrow> db_file" where
  "create_missing f =
     fold (\<lambda>(t, cols) f. if map_of f t = None then f @ [(t, \<lparr>ft_columns = cols, ft_rows = []\<rparr>)] else f) SCHEMA f"

definition add_column :: "column_def \<Rightarrow> file_table \<Rightarrow> file_table" where
  "add_column c tb = tb\<lparr>ft_columns := ft_columns tb @ [c], ft_rows := map (\<lambda>r. r @ [(cd_name c, Null)]) (ft_rows tb)\<rparr>"

definition has_key :: "string \<Rightarrow> table_row \<Rightarrow> bool" where
  "has_key k r \<longleftrightarrow> map_of r ''key'' = Some (Text_cell k)"

definition put_value :: "string \<Rightarrow> string \<Rightarrow> table_row \<Rightarrow> table_row" where
  "put_value k v r = (if has_key k r then AList.update ''value'' (Text_cell v) r else r)"

text \<open>\<open>INSERT ... ON CONFLICT(key) DO UPDATE\<close>.\<close>

definition set_meta :: "string \<Rightarrow> string \<Rightarrow> file_table \<Rightarrow> file_table" where
  "set_meta k v tb =
     (if list_ex (has_key k) (ft_rows tb) then tb\<lparr>ft_rows := map (put_value k v) (ft_rows tb)\<rparr>
      else tb\<lparr>ft_rows := ft_rows tb @ [[(''key'', Text_cell k), (''value'', Text_cell v)]]\<rparr>)"

definition on_table :: "string \<Rightarrow> (file_table \<Rightarrow> file_table) \<Rightarrow> db_file \<Rightarrow> db_file" where
  "on_table t f db = (case map_of db t of None \<Rightarrow> db | Some tb \<Rightarrow> AList.update t (f tb) db)"

definition migrate :: "db_file \<Rightarrow> db_file" where
  "migrate f =
     (let columns = (case map_of f ''messages'' of None \<Rightarrow> [] | Some tb \<Rightarrow> map cd_name (ft_columns tb));
          f1 = (if ''acked'' \<notin> set columns then on_table ''messages'' (add_column (col ''acked'' ''INTEGER'')) f else f)
      in on_table ''schema_meta'' (set_meta ''version'' (str_int SCHEMA_VERSION)) f1)"

definition open_file :: "db_file \<Rightarrow> db_file" where
  "open_file f = migrate (create_missing f)"

section \<open>The connection\<close>

text \<open>
  The store has a connection between \<open>start\<close> and \<open>close\<close>; everything else asserts that it has one. A file
  that is already open is opened again by a second \<open>start\<close>; \<open>close\<close> without a connection does nothing.
\<close>

record store_handle =
  sh_file :: db_file
  sh_conn :: bool

definition new_store :: "db_file \<Rightarrow> store_handle" where
  "new_store f = \<lparr>sh_file = f, sh_conn = False\<rparr>"

definition store_open :: "store_handle \<Rightarrow> store_handle" where
  "store_open s = \<lparr>sh_file = open_file (sh_file s), sh_conn = True\<rparr>"

definition store_close :: "store_handle \<Rightarrow> store_handle" where
  "store_close s = (if sh_conn s then s\<lparr>sh_conn := False\<rparr> else s)"

text \<open>One statement, as a function of the file, which may fail; nothing is committed then.\<close>

definition store_execute :: "(db_file \<Rightarrow> db_file option) \<Rightarrow> store_handle \<Rightarrow> (string + unit) \<times> store_handle" where
  "store_execute f s =
     (if \<not> sh_conn s then (Inl ''Store not started'', s)
      else case f (sh_file s) of None \<Rightarrow> (Inl ''sqlite3 error'', s) | Some db \<Rightarrow> (Inr (), s\<lparr>sh_file := db\<rparr>))"

definition store_query :: "(db_file \<Rightarrow> table_row list) \<Rightarrow> store_handle \<Rightarrow> string + table_row list" where
  "store_query q s = (if \<not> sh_conn s then Inl ''Store not started'' else Inr (q (sh_file s)))"

definition store_query_one :: "(db_file \<Rightarrow> table_row list) \<Rightarrow> store_handle \<Rightarrow> string + table_row option" where
  "store_query_one q s = map_sum id (\<lambda>rows. case rows of [] \<Rightarrow> None | r # _ \<Rightarrow> Some r) (store_query q s)"


section \<open>Opening\<close>

lemma update_same: "map_of al k = Some v \<Longrightarrow> AList.update k v al = al"
  by (induction al) (auto split: if_splits)

lemma create_missing_lookup:
  "map_of (create_missing f) t =
     (case map_of f t of
        Some tb \<Rightarrow> Some tb
      | None \<Rightarrow> map_option (\<lambda>cols. \<lparr>ft_columns = cols, ft_rows = []\<rparr>) (map_of SCHEMA t))"
proof -
  have "map_of (fold (\<lambda>(t, cols) f. if map_of f t = None then f @ [(t, \<lparr>ft_columns = cols, ft_rows = []\<rparr>)] else f) ss f) t =
      (case map_of f t of
        Some tb \<Rightarrow> Some tb
      | None \<Rightarrow> map_option (\<lambda>cols. \<lparr>ft_columns = cols, ft_rows = []\<rparr>) (map_of ss t))" for ss f
  proof (induction ss arbitrary: f)
    case (Cons s ss)
    obtain u cols where "s = (u, cols)" by (cases s)
    then show ?case using Cons by (cases "map_of f u") (auto simp: map_add_def split: option.split)
  qed (simp split: option.split)
  then show ?thesis by (simp add: create_missing_def)
qed

lemma schema_tables: "map_of SCHEMA t \<noteq> None \<longleftrightarrow>
    t \<in> {''schema_meta'', ''admin_user'', ''refresh_tokens'', ''players'', ''sessions'', ''commands'', ''messages''}"
  by (auto simp: SCHEMA_def)

lemma create_missing_complete:
  assumes "\<And>t. map_of SCHEMA t \<noteq> None \<Longrightarrow> map_of f t \<noteq> None"
  shows "create_missing f = f"
proof -
  have "(\<And>t cols. (t, cols) \<in> set ss \<Longrightarrow> map_of f t \<noteq> None) \<Longrightarrow>
      fold (\<lambda>(t, cols) f. if map_of f t = None then f @ [(t, \<lparr>ft_columns = cols, ft_rows = []\<rparr>)] else f) ss f = f" for ss
  proof (induction ss)
    case (Cons s ss)
    obtain u cols where s: "s = (u, cols)" by (cases s)
    then obtain tb where "map_of f u = Some tb" using Cons.prems [of u cols] by auto
    moreover have "\<And>t cols. (t, cols) \<in> set ss \<Longrightarrow> map_of f t \<noteq> None" using Cons.prems by (metis list.set_intros(2))
    ultimately show ?case using Cons.IH s by simp
  qed simp
  moreover have "map_of f t \<noteq> None" if "(t, cols) \<in> set SCHEMA" for t cols
    using assms [of t] that by (auto simp: map_of_eq_None_iff image_iff) force
  ultimately show ?thesis by (simp add: create_missing_def)
qed

lemma on_table_lookup: "map_of (on_table t f db) u = (if u = t then map_option f (map_of db t) else map_of db u)"
  by (simp add: on_table_def dict_simps split: option.split)

definition measured :: "file_table \<Rightarrow> file_table" where
  "measured tb = (if ''acked'' \<in> set (map cd_name (ft_columns tb)) then tb else add_column (col ''acked'' ''INTEGER'') tb)"

lemma measured_has: "''acked'' \<in> set (map cd_name (ft_columns (measured tb)))"
  by (simp add: measured_def add_column_def col_def)

lemma migrate_lookup:
  assumes "map_of f ''messages'' \<noteq> None"
  shows "map_of (migrate f) t =
    (if t = ''messages'' then map_option measured (map_of f t)
     else if t = ''schema_meta'' then map_option (set_meta ''version'' (str_int SCHEMA_VERSION)) (map_of f t)
     else map_of f t)"
  using assms by (auto simp: migrate_def Let_def on_table_lookup measured_def)

lemma open_lookup:
  "map_of (open_file f) t =
    (if t = ''messages'' then map_option measured (map_of (create_missing f) t)
     else if t = ''schema_meta'' then map_option (set_meta ''version'' (str_int SCHEMA_VERSION)) (map_of (create_missing f) t)
     else map_of (create_missing f) t)"
  unfolding open_file_def by (rule migrate_lookup) (simp add: create_missing_lookup SCHEMA_def split: option.split)


definition old_file :: db_file where
  "old_file = [(''messages'', \<lparr>ft_columns = [primary ''id'' ''INTEGER'', needed ''at'' ''INTEGER''],
     ft_rows = [[(''id'', Int_cell 1), (''at'', Int_cell 1700000000)]]\<rparr>)]"


lemma put_value_again: "put_value k v (put_value k v r) = put_value k v r" and put_value_key: "has_key k (put_value k v r) = has_key k r"
  by (auto simp: put_value_def has_key_def dict_simps update_same)

lemma set_meta_again: "set_meta k v (set_meta k v tb) = set_meta k v tb"
proof (cases "list_ex (has_key k) (ft_rows tb)")
  case True
  let ?tb = "tb\<lparr>ft_rows := map (put_value k v) (ft_rows tb)\<rparr>"
  have "list_ex (has_key k) (ft_rows ?tb)" using True by (auto simp: list_ex_iff put_value_key)
  moreover have "map (put_value k v) (ft_rows ?tb) = ft_rows ?tb" by (simp add: put_value_again)
  ultimately have "set_meta k v ?tb = ?tb" unfolding set_meta_def [of k v ?tb] by (simp only: if_True) simp
  moreover have "set_meta k v tb = ?tb" using True by (simp only: set_meta_def if_True)
  ultimately show ?thesis by simp
next
  case False
  then have "map (put_value k v) (ft_rows tb) = ft_rows tb" by (intro map_idI) (auto simp: put_value_def list_ex_iff)
  moreover have "has_key k [(''key'', Text_cell k), (''value'', Text_cell v)]" by (simp add: has_key_def)
  moreover have "put_value k v [(''key'', Text_cell k), (''value'', Text_cell v)] = [(''key'', Text_cell k), (''value'', Text_cell v)]"
    by (simp add: put_value_def)
  ultimately show ?thesis using False by (simp add: set_meta_def)
qed

lemma on_table_id: "(\<And>tb. map_of db t = Some tb \<Longrightarrow> f tb = tb) \<Longrightarrow> on_table t f db = db"
  by (simp add: on_table_def update_same split: option.split)

text \<open>Opening again changes nothing: every step is a no-op on a file that is up to date.\<close>

theorem open_idempotent: "open_file (open_file f) = open_file f"
proof -
  let ?g = "open_file f"
  have all: "map_of ?g t \<noteq> None" if "map_of SCHEMA t \<noteq> None" for t
    using that by (auto simp: open_lookup create_missing_lookup split: option.split)
  then have create: "create_missing ?g = ?g" by (rule create_missing_complete)
  obtain tb where msgs: "map_of ?g ''messages'' = Some tb" using all [of "''messages''"] schema_tables [of "''messages''"] by auto
  then obtain old where "tb = measured old" by (auto simp: open_lookup)
  then have "''acked'' \<in> set (map cd_name (ft_columns tb))" by (simp only: measured_has)
  moreover have "on_table ''schema_meta'' (set_meta ''version'' (str_int SCHEMA_VERSION)) ?g = ?g"
    by (rule on_table_id) (auto simp: open_lookup set_meta_again)
  ultimately have "migrate ?g = ?g" using msgs by (simp add: migrate_def Let_def)
  then show ?thesis by (simp add: open_file_def [of ?g] create)
qed

definition columns_of :: "db_file \<Rightarrow> (string \<times> column_def list) list" where
  "columns_of f = map (\<lambda>(t, tb). (t, ft_columns tb)) f"

lemma columns_of_lookup: "map_of (columns_of f) t = map_option ft_columns (map_of f t)"
  by (induction f) (auto simp: columns_of_def)

lemma columns_of_on_table:
  "columns_of (on_table t f db) =
     (case map_of db t of None \<Rightarrow> columns_of db | Some tb \<Rightarrow> AList.update t (ft_columns (f tb)) (columns_of db))"
proof -
  have "columns_of (AList.update t tb db) = AList.update t (ft_columns tb) (columns_of db)" for tb
    by (induction db) (auto simp: columns_of_def)
  then show ?thesis by (simp add: on_table_def split: option.split)
qed

lemma columns_of_migrate:
  assumes "map_of (columns_of f) ''messages'' = Some cols" and "''acked'' \<notin> set (map cd_name cols)"
  shows "columns_of (migrate f) = AList.update ''messages'' (cols @ [col ''acked'' ''INTEGER'']) (columns_of f)"
proof -
  let ?f1 = "on_table ''messages'' (add_column (col ''acked'' ''INTEGER'')) f"
  obtain tb where tb: "map_of f ''messages'' = Some tb" "ft_columns tb = cols" using assms(1) by (auto simp: columns_of_lookup)
  have "columns_of (on_table ''schema_meta'' (set_meta k v) ?f1) = columns_of ?f1" for k v
  proof -
    have "ft_columns (set_meta k v tb) = ft_columns tb" for tb by (simp add: set_meta_def)
    then show ?thesis
      by (simp add: columns_of_on_table [of "''schema_meta''"] update_same columns_of_lookup split: option.split)
  qed
  then show ?thesis
    using tb assms(2) by (simp add: migrate_def Let_def) (simp add: columns_of_on_table add_column_def)
qed

text \<open>
  A new file has exactly the tables and columns of the schema, and so has a file of the first version (the
  same tables without \<open>acked\<close>) once it has been opened.
\<close>

theorem open_reaches_schema:
  assumes "f = [] \<or> columns_of f = map (\<lambda>(t, cols). (t, filter (\<lambda>c. cd_name c \<noteq> ''acked'') cols)) SCHEMA"
  shows "columns_of (open_file f) = SCHEMA"
  using assms
proof
  assume "f = []"
  then show ?thesis
    by (simp add: columns_of_def open_file_def migrate_def create_missing_def SCHEMA_def on_table_def set_meta_def col_def Let_def)
next
  assume old: "columns_of f = map (\<lambda>(t, cols). (t, filter (\<lambda>c. cd_name c \<noteq> ''acked'') cols)) SCHEMA"
  have keys: "map fst f = map fst SCHEMA"
    using arg_cong [OF old, of "map fst"] by (simp add: columns_of_def comp_def case_prod_beta)
  have "map_of f t \<noteq> None" if "map_of SCHEMA t \<noteq> None" for t
    using that keys by (metis map_of_eq_None_iff list.set_map)
  then have "create_missing f = f" by (rule create_missing_complete)
  then have "open_file f = migrate f" by (simp add: open_file_def)
  moreover have "columns_of (migrate f) = SCHEMA"
  proof -
    let ?old = "map (\<lambda>(t, cols). (t, filter (\<lambda>c. cd_name c \<noteq> ''acked'') cols)) SCHEMA"
    let ?cols = "filter (\<lambda>c. cd_name c \<noteq> ''acked'') (the (map_of SCHEMA ''messages''))"
    have "map_of ?old ''messages'' = Some ?cols" by (simp add: SCHEMA_def)
    moreover have "''acked'' \<notin> set (map cd_name ?cols)" by auto
    ultimately have "columns_of (migrate f) = AList.update ''messages'' (?cols @ [col ''acked'' ''INTEGER'']) ?old"
      using columns_of_migrate [of f ?cols] unfolding old by simp
    also have "\<dots> = SCHEMA" by (simp add: SCHEMA_def col_def needed_def defaulted_def primary_def)
    finally show ?thesis .
  qed
  ultimately show ?thesis by simp
qed

theorem open_reaches_schema_witness:
  "columns_of (open_file []) = SCHEMA" "''acked'' \<notin> set (map cd_name (filter (\<lambda>c. cd_name c \<noteq> ''acked'') (the (map_of SCHEMA ''messages''))))"
  using open_reaches_schema [of "[]"] by auto

text \<open>
  Outside the time between \<open>start\<close> and \<open>close\<close> the store only raises: it changes no file and answers no
  query; and closing twice is closing once.
\<close>

theorem closed_store_refuses:
  "store_execute st (store_close s) = (Inl ''Store not started'', store_close s) \<and>
   store_query_one q (store_close s) = Inl ''Store not started'' \<and> sh_file (store_close s) = sh_file s \<and>
   store_close (store_close s) = store_close s"
  by (simp add: store_close_def store_execute_def store_query_one_def store_query_def)

end
