(* ===== verification/Event_Store.thy ===== *)
theory Event_Store
  imports Session_State Session_Bus "HOL-Library.List_Lexorder" "HOL-Library.Char_ord"
begin

text \<open>
  The event store of the admin console, \<^verbatim>\<open>src/zorkbot/src/zorkbot/admin/store.py\<close>, and the event sink
  that feeds it, \<open>SqliteEventSink\<close> of \<^verbatim>\<open>admin/events.py\<close>.

  The event tables are lists of rows in insertion order; the statements the program executes on them
  are a datatype, and executing one either gives the new tables or fails: the constraints of
  the schema that can fail are the foreign key of \<open>sessions\<close> to \<open>players\<close> and the unique index
  on \<open>(bot_run_id, session_num)\<close>. The tables \<open>admin_user\<close> and \<open>refresh_tokens\<close> belong to
  \<open>Admin_Auth\<close>.

  The writer is modelled by its steps: it takes events from the queue one at a time into the batch
  it holds, and writes the batch in one transaction. \<open>accepted\<close>, \<open>handed\<close>, \<open>failed\<close> and
  \<open>discarded\<close> record which statements the queue took, which ones were handed to the store, which
  of those were in a batch that failed, and which were lost when the writer was cancelled.
\<close>

section \<open>Tables\<close>

record player_row =
  pl_pubkey :: string
  pl_name :: "string option"
  pl_first_seen :: int
  pl_last_seen :: int
  pl_banned_at :: "int option"

record session_row =
  sr_id :: int
  sr_run :: string
  sr_num :: int
  sr_pubkey :: string
  sr_started_at :: int
  sr_ended_at :: "int option"
  sr_end_reason :: "string option"
  sr_peak_watchers :: nat

record command_row =
  cm_id :: int
  cm_at :: int
  cm_pubkey :: "string option"
  cm_command :: string
  cm_transport :: string
  cm_channel_idx :: "int option"
  cm_accepted :: bool
  cm_reject_reason :: "string option"

record message_row =
  mg_id :: int
  mg_at :: int
  mg_direction :: string
  mg_transport :: string
  mg_channel_idx :: "int option"
  mg_pubkey :: "string option"
  mg_chars :: nat
  mg_dropped :: bool
  mg_acked :: "bool option"

record event_db =
  players_tab :: "player_row list"
  sessions_tab :: "session_row list"
  commands_tab :: "command_row list"
  messages_tab :: "message_row list"
  session_seq :: int
  command_seq :: int
  message_seq :: int

definition empty_db :: event_db where
  "empty_db = \<lparr>players_tab = [], sessions_tab = [], commands_tab = [], messages_tab = [],
     session_seq = 1, command_seq = 1, message_seq = 1\<rparr>"

datatype stmt =
    Insert_message int string string "int option" "string option" nat bool "bool option"
  | Insert_command int "string option" string string "int option" bool "string option"
  | Upsert_player string "string option" int
  | Insert_session string int string int
  | End_session int string string int
  | Peak_watchers nat string int
  | Delete_commands int
  | Delete_messages int
  | Delete_sessions int

definition has_player :: "string \<Rightarrow> event_db \<Rightarrow> bool" where
  "has_player p db \<longleftrightarrow> p \<in> pl_pubkey ` set (players_tab db)"

definition has_session :: "string \<Rightarrow> int \<Rightarrow> event_db \<Rightarrow> bool" where
  "has_session run n db \<longleftrightarrow> (run, n) \<in> (\<lambda>r. (sr_run r, sr_num r)) ` set (sessions_tab db)"

text \<open>\<open>INSERT INTO players ... ON CONFLICT(pubkey_prefix) DO UPDATE\<close>.\<close>

definition upsert_player :: "string \<Rightarrow> string option \<Rightarrow> int \<Rightarrow> player_row list \<Rightarrow> player_row list" where
  "upsert_player p name tm rows =
     (if p \<in> pl_pubkey ` set rows
      then map (\<lambda>r. if pl_pubkey r = p
             then r\<lparr>pl_name := (case name of None \<Rightarrow> pl_name r | Some n \<Rightarrow> Some n), pl_last_seen := tm\<rparr> else r) rows
      else rows @ [\<lparr>pl_pubkey = p, pl_name = name, pl_first_seen = tm, pl_last_seen = tm, pl_banned_at = None\<rparr>])"

definition on_session :: "string \<Rightarrow> int \<Rightarrow> (session_row \<Rightarrow> session_row) \<Rightarrow> session_row list \<Rightarrow> session_row list" where
  "on_session run n f rows = map (\<lambda>r. if sr_run r = run \<and> sr_num r = n then f r else r) rows"

fun exec_stmt :: "stmt \<Rightarrow> event_db \<Rightarrow> event_db option" where
  "exec_stmt (Insert_message tm dir tr idx p chars dropped acked) db =
     Some (db\<lparr>messages_tab := messages_tab db @
        [\<lparr>mg_id = message_seq db, mg_at = tm, mg_direction = dir, mg_transport = tr, mg_channel_idx = idx,
          mg_pubkey = p, mg_chars = chars, mg_dropped = dropped, mg_acked = acked\<rparr>],
        message_seq := message_seq db + 1\<rparr>)"
| "exec_stmt (Insert_command tm p cmd tr idx ok reason) db =
     Some (db\<lparr>commands_tab := commands_tab db @
        [\<lparr>cm_id = command_seq db, cm_at = tm, cm_pubkey = p, cm_command = cmd, cm_transport = tr,
          cm_channel_idx = idx, cm_accepted = ok, cm_reject_reason = reason\<rparr>],
        command_seq := command_seq db + 1\<rparr>)"
| "exec_stmt (Upsert_player p name tm) db = Some (db\<lparr>players_tab := upsert_player p name tm (players_tab db)\<rparr>)"
| "exec_stmt (Insert_session run n p tm) db =
     (if has_session run n db \<or> \<not> has_player p db then None
      else Some (db\<lparr>sessions_tab := sessions_tab db @
             [\<lparr>sr_id = session_seq db, sr_run = run, sr_num = n, sr_pubkey = p, sr_started_at = tm, sr_ended_at = None,
               sr_end_reason = None, sr_peak_watchers = 0\<rparr>],
             session_seq := session_seq db + 1\<rparr>))"
| "exec_stmt (End_session tm reason run n) db =
     Some (db\<lparr>sessions_tab := on_session run n (\<lambda>r. r\<lparr>sr_ended_at := Some tm, sr_end_reason := Some reason\<rparr>) (sessions_tab db)\<rparr>)"
| "exec_stmt (Peak_watchers k run n) db =
     Some (db\<lparr>sessions_tab := on_session run n (\<lambda>r. r\<lparr>sr_peak_watchers := max (sr_peak_watchers r) k\<rparr>) (sessions_tab db)\<rparr>)"
| "exec_stmt (Delete_commands cutoff) db = Some (db\<lparr>commands_tab := filter (\<lambda>r. \<not> cm_at r < cutoff) (commands_tab db)\<rparr>)"
| "exec_stmt (Delete_messages cutoff) db = Some (db\<lparr>messages_tab := filter (\<lambda>r. \<not> mg_at r < cutoff) (messages_tab db)\<rparr>)"
| "exec_stmt (Delete_sessions cutoff) db =
     Some (db\<lparr>sessions_tab := filter (\<lambda>r. \<not> (case sr_ended_at r of None \<Rightarrow> False | Some t \<Rightarrow> t < cutoff)) (sessions_tab db)\<rparr>)"

text \<open>\<open>_execute_many_in_txn\<close>: all statements, or a rollback and the exception.\<close>

fun exec_all :: "stmt list \<Rightarrow> event_db \<Rightarrow> event_db option" where
  "exec_all [] db = Some db"
| "exec_all (s # ss) db = (case exec_stmt s db of None \<Rightarrow> None | Some db' \<Rightarrow> exec_all ss db')"

definition run_many :: "stmt list \<Rightarrow> event_db \<Rightarrow> bool \<times> event_db" where
  "run_many ss db = (case exec_all ss db of None \<Rightarrow> (False, db) | Some db' \<Rightarrow> (True, db'))"

definition prune_statements :: "real \<Rightarrow> int \<Rightarrow> stmt list" where
  "prune_statements wall retention_days =
     (let cutoff = trunc wall - retention_days * 86400
      in [Delete_commands cutoff, Delete_messages cutoff, Delete_sessions cutoff])"

definition prune_retention :: "real \<Rightarrow> int \<Rightarrow> event_db \<Rightarrow> event_db" where
  "prune_retention wall retention_days db =
     (if retention_days \<le> 0 then db else snd (run_many (prune_statements wall retention_days) db))"

definition VALID_BUCKETS :: "(string \<times> int) list" where
  "VALID_BUCKETS = [(''minute'', 60), (''hour'', 3600), (''day'', 86400)]"

definition bucket_seconds :: "string \<Rightarrow> int option" where
  "bucket_seconds bucket = map_of VALID_BUCKETS bucket"

section \<open>The sink\<close>

record event_sink =
  es_run_id :: string
  es_queue_size :: int
  es_batch_size :: nat
  es_queue :: "stmt list"
  es_batch :: "stmt list"
  drop_count :: nat
  last_warn_at :: real
  es_warnings :: "nat list"
  es_bus :: session_bus
  es_db :: event_db
  es_accepted :: "stmt list"
  es_handed :: "stmt list"
  es_failed :: "stmt list"
  es_discarded :: "stmt list"
  es_dropped :: "stmt list"

definition new_event_sink :: "string \<Rightarrow> int \<Rightarrow> nat \<Rightarrow> session_bus \<Rightarrow> event_db \<Rightarrow> event_sink" where
  "new_event_sink run qsize bsize bus db =
     \<lparr>es_run_id = run, es_queue_size = qsize, es_batch_size = bsize, es_queue = [], es_batch = [], drop_count = 0,
      last_warn_at = 0, es_warnings = [], es_bus = bus, es_db = db, es_accepted = [], es_handed = [], es_failed = [],
      es_discarded = [], es_dropped = []\<rparr>"

text \<open>\<open>asyncio.Queue(maxsize=n)\<close> is unbounded for \<open>n \<le> 0\<close>.\<close>

definition queue_full :: "event_sink \<Rightarrow> bool" where
  "queue_full es \<longleftrightarrow> 0 < es_queue_size es \<and> es_queue_size es \<le> int (length (es_queue es))"

definition sink_enqueue :: "real \<Rightarrow> stmt \<Rightarrow> event_sink \<Rightarrow> event_sink" where
  "sink_enqueue t s es =
     (if \<not> queue_full es
      then es\<lparr>es_queue := es_queue es @ [s], es_accepted := es_accepted es @ [s]\<rparr>
      else
        (let n = drop_count es + 1; es1 = es\<lparr>es_dropped := es_dropped es @ [s]\<rparr>
         in if 30 < t - last_warn_at es
            then es1\<lparr>es_warnings := es_warnings es @ [n], last_warn_at := t, drop_count := 0\<rparr>
            else es1\<lparr>drop_count := n\<rparr>))"

fun stmts_of :: "string \<Rightarrow> real \<Rightarrow> sink_event \<Rightarrow> stmt list" where
  "stmts_of run wall (Message_rx tr idx p chars) = [Insert_message (trunc wall) ''rx'' tr idx p chars False None]"
| "stmts_of run wall (Message_tx tr idx p chars dropped acked) = [Insert_message (trunc wall) ''tx'' tr idx p chars dropped acked]"
| "stmts_of run wall (Command_event p cmd tr idx ok reason) = [Insert_command (trunc wall) p cmd tr idx ok reason]"
| "stmts_of run wall (Session_started r) =
     [Upsert_player (player_id r) (Some (player_name r)) (trunc (started_wall_at r)),
      Insert_session run (num r) (player_id r) (trunc (started_wall_at r))]"
| "stmts_of run wall (Session_ended r reason) = [End_session (trunc wall) reason run (num r)]"
| "stmts_of run wall (Watchers_changed r) = [Peak_watchers (length (watchers r)) run (num r)]"
| "stmts_of run wall (Player_seen p name) = [Upsert_player p name (trunc wall)]"
| "stmts_of run wall (Transcript n name cmd out) = []"

fun bus_of :: "real \<Rightarrow> sink_event \<Rightarrow> session_bus \<Rightarrow> session_bus" where
  "bus_of wall (Session_ended r reason) b = bus_publish wall (num r) ''session_end'' (D_session_end (num r) (trunc wall) reason) b"
| "bus_of wall (Watchers_changed r) b = bus_publish wall (num r) ''watchers'' (D_watchers (num r) (sort (watchers r))) b"
| "bus_of wall (Transcript n name cmd out) b =
     bus_publish wall n ''output'' (D_output n wall out)
       (case cmd of None \<Rightarrow> b | Some c \<Rightarrow> bus_publish wall n ''command'' (D_command n wall name c) b)"
| "bus_of wall ev b = b"

text \<open>A call of the sink: the statements are queued without an await between them.\<close>

definition sink_call :: "real \<Rightarrow> real \<Rightarrow> sink_event \<Rightarrow> event_sink \<Rightarrow> event_sink" where
  "sink_call t wall ev es =
     (let es1 = fold (sink_enqueue t) (stmts_of (es_run_id es) wall ev) es
      in es1\<lparr>es_bus := bus_of wall ev (es_bus es1)\<rparr>)"

section \<open>The writer\<close>

definition writer_take :: "event_sink \<Rightarrow> event_sink" where
  "writer_take es =
     (case es_queue es of
        [] \<Rightarrow> es
      | s # rest \<Rightarrow>
          if es_batch es = [] \<or> length (es_batch es) < es_batch_size es
          then es\<lparr>es_queue := rest, es_batch := es_batch es @ [s]\<rparr> else es)"

definition hand_over :: "stmt list \<Rightarrow> event_sink \<Rightarrow> event_sink" where
  "hand_over ss es =
     (case run_many ss (es_db es) of
        (ok, db) \<Rightarrow> es\<lparr>es_db := db, es_handed := es_handed es @ ss,
                       es_failed := (if ok then es_failed es else es_failed es @ ss)\<rparr>)"

definition writer_flush :: "event_sink \<Rightarrow> event_sink" where
  "writer_flush es = (if es_batch es = [] then es else (hand_over (es_batch es) es)\<lparr>es_batch := []\<rparr>)"

text \<open>
  \<open>stop\<close>: the writer task is cancelled while it collects a batch, then what is still in the queue is
  written.
\<close>

definition sink_stop :: "event_sink \<Rightarrow> event_sink" where
  "sink_stop es =
     (let es1 = es\<lparr>es_discarded := es_discarded es @ es_batch es, es_batch := []\<rparr>
      in if es_queue es1 = [] then es1 else (hand_over (es_queue es1) es1)\<lparr>es_queue := []\<rparr>)"

datatype sink_op = Call real real sink_event | Take | Flush | Prune_db real int

fun sink_step :: "sink_op \<Rightarrow> event_sink \<Rightarrow> event_sink" where
  "sink_step (Call t wall ev) es = sink_call t wall ev es"
| "sink_step Take es = writer_take es"
| "sink_step Flush es = writer_flush es"
| "sink_step (Prune_db wall days) es = es\<lparr>es_db := prune_retention wall days (es_db es)\<rparr>"

section \<open>Nothing is lost or reordered while the bot runs\<close>

lemma enqueue_fields [simp]:
  "es_handed (sink_enqueue t s es) = es_handed es" "es_batch (sink_enqueue t s es) = es_batch es"
  "es_db (sink_enqueue t s es) = es_db es" "es_failed (sink_enqueue t s es) = es_failed es"
  "es_run_id (sink_enqueue t s es) = es_run_id es" "es_queue_size (sink_enqueue t s es) = es_queue_size es"
  "es_batch_size (sink_enqueue t s es) = es_batch_size es"
  by (simp_all add: sink_enqueue_def Let_def)

lemma enqueues_fields [simp]:
  "es_handed (fold (sink_enqueue t) ss es) = es_handed es" "es_batch (fold (sink_enqueue t) ss es) = es_batch es"
  "es_db (fold (sink_enqueue t) ss es) = es_db es" "es_failed (fold (sink_enqueue t) ss es) = es_failed es"
  "es_run_id (fold (sink_enqueue t) ss es) = es_run_id es" "es_queue_size (fold (sink_enqueue t) ss es) = es_queue_size es"
  "es_batch_size (fold (sink_enqueue t) ss es) = es_batch_size es"
  by (induction ss arbitrary: es) simp_all

definition sink_inv :: "event_sink \<Rightarrow> bool" where
  "sink_inv es \<longleftrightarrow>
     es_accepted es = es_handed es @ es_batch es @ es_queue es \<and>
     (0 < es_queue_size es \<longrightarrow> int (length (es_queue es)) \<le> es_queue_size es) \<and>
     length (es_batch es) \<le> max 1 (es_batch_size es) \<and>
     sum_list (es_warnings es) + drop_count es = length (es_dropped es)"

lemma enqueue_inv: "sink_inv es \<Longrightarrow> sink_inv (sink_enqueue t s es)"
  by (auto simp: sink_inv_def sink_enqueue_def queue_full_def Let_def)

lemma enqueues_inv: "sink_inv es \<Longrightarrow> sink_inv (fold (sink_enqueue t) ss es)"
  by (induction ss arbitrary: es) (simp_all add: enqueue_inv)

lemma step_inv: "sink_inv es \<Longrightarrow> sink_inv (sink_step op es)"
proof (cases op)
  case (Call t wall ev)
  assume "sink_inv es"
  from enqueues_inv [OF this, of t "stmts_of (es_run_id es) wall ev"] Call show ?thesis
    by (simp add: sink_call_def Let_def sink_inv_def)
next
  case Take
  assume "sink_inv es"
  then show ?thesis using Take by (auto simp: sink_inv_def writer_take_def split: list.split)
next
  case Flush
  assume "sink_inv es"
  then show ?thesis using Flush by (simp add: sink_inv_def writer_flush_def hand_over_def case_prod_beta)
next
  case (Prune_db wall days)
  assume "sink_inv es"
  then show ?thesis using Prune_db by (simp add: sink_inv_def)
qed

lemma sink_run_inv: "sink_inv (fold sink_step ops (new_event_sink run qsize bsize bus db))"
proof -
  have run: "sink_inv (fold sink_step ops es)" if "sink_inv es" for es
    using that by (induction ops arbitrary: es) (simp_all add: step_inv)
  show ?thesis by (rule run) (simp add: sink_inv_def new_event_sink_def)
qed

text \<open>
  Recording an event never blocks and never reorders: after any interleaving of calls, writer
  steps and prunes, the statements the queue took are exactly those handed to the store, then those
  in the writer's batch, then those queued, in the order of the calls; queue and batch keep
  their limits; and the warnings together with the counter account for every statement dropped.
\<close>

theorem sink_conserves_events:
  "case fold sink_step ops (new_event_sink run qsize bsize bus db) of es \<Rightarrow>
     es_accepted es = es_handed es @ es_batch es @ es_queue es \<and>
     (if 0 < qsize then int (length (es_queue es)) \<le> qsize else True) \<and>
     length (es_batch es) \<le> max 1 bsize \<and>
     sum_list (es_warnings es) + drop_count es = length (es_dropped es)"
proof -
  have sizes: "es_queue_size (sink_step op es) = es_queue_size es \<and> es_batch_size (sink_step op es) = es_batch_size es" for op es
    by (cases op) (simp_all add: sink_call_def Let_def writer_take_def writer_flush_def hand_over_def case_prod_beta split: list.split)
  have "es_queue_size (fold sink_step ops es) = es_queue_size es \<and> es_batch_size (fold sink_step ops es) = es_batch_size es" for es
    by (induction ops arbitrary: es) (simp_all add: sizes)
  then have "es_queue_size (fold sink_step ops (new_event_sink run qsize bsize bus db)) = qsize"
    "es_batch_size (fold sink_step ops (new_event_sink run qsize bsize bus db)) = bsize"
    by (simp_all add: new_event_sink_def)
  with sink_run_inv [of ops run qsize bsize bus db] show ?thesis by (simp add: sink_inv_def)
qed

section \<open>The schema's constraints are respected\<close>

fun stmt_player :: "stmt \<Rightarrow> string option" where
  "stmt_player (Upsert_player p name tm) = Some p"
| "stmt_player s = None"

fun stmt_key :: "stmt \<Rightarrow> (string \<times> int) option" where
  "stmt_key (Insert_session run n p tm) = Some (run, n)"
| "stmt_key s = None"

definition upserts :: "stmt list \<Rightarrow> string set" where
  "upserts ss = set (List.map_filter stmt_player ss)"

definition inserts :: "stmt list \<Rightarrow> (string \<times> int) set" where
  "inserts ss = set (List.map_filter stmt_key ss)"

lemma upserts_simps [simp]:
  "upserts [] = {}" "upserts (xs @ ys) = upserts xs \<union> upserts ys"
  "upserts (s # ss) = set_option (stmt_player s) \<union> upserts ss"
  by (auto simp: upserts_def map_filter_def split: option.splits)

lemma inserts_simps [simp]:
  "inserts [] = {}" "inserts (xs @ ys) = inserts xs \<union> inserts ys"
  "inserts (s # ss) = set_option (stmt_key s) \<union> inserts ss"
  by (auto simp: inserts_def map_filter_def split: option.splits)

fun fits :: "string set \<Rightarrow> (string \<times> int) set \<Rightarrow> stmt \<Rightarrow> bool" where
  "fits P N (Insert_session run n p tm) = (p \<in> P \<and> (run, n) \<notin> N)"
| "fits P N s = True"

fun fits_all :: "string set \<Rightarrow> (string \<times> int) set \<Rightarrow> stmt list \<Rightarrow> bool" where
  "fits_all P N [] = True"
| "fits_all P N (s # ss) = (fits P N s \<and> fits_all (P \<union> set_option (stmt_player s)) (N \<union> set_option (stmt_key s)) ss)"

lemma fits_all_append:
  "fits_all P N (xs @ ys) \<longleftrightarrow> fits_all P N xs \<and> fits_all (P \<union> upserts xs) (N \<union> inserts xs) ys"
  by (induction xs arbitrary: P N) (simp_all add: Un_assoc)

definition db_players :: "event_db \<Rightarrow> string set" where
  "db_players db = pl_pubkey ` set (players_tab db)"

definition db_keys :: "event_db \<Rightarrow> (string \<times> int) set" where
  "db_keys db = (\<lambda>r. (sr_run r, sr_num r)) ` set (sessions_tab db)"

lemma upsert_players: "pl_pubkey ` set (upsert_player p name tm rows) = insert p (pl_pubkey ` set rows)"
proof -
  have "pl_pubkey ` set (map (\<lambda>r. if pl_pubkey r = p
      then r\<lparr>pl_name := (case name of None \<Rightarrow> pl_name r | Some n \<Rightarrow> Some n), pl_last_seen := tm\<rparr> else r) rows) = pl_pubkey ` set rows"
    unfolding set_map image_image by (rule image_cong) simp_all
  then show ?thesis by (auto simp: upsert_player_def)
qed

lemma on_session_keys:
  assumes "\<And>r. sr_run (f r) = sr_run r \<and> sr_num (f r) = sr_num r"
  shows "(\<lambda>r. (sr_run r, sr_num r)) ` set (on_session run n f rows) = (\<lambda>r. (sr_run r, sr_num r)) ` set rows"
  unfolding on_session_def set_map image_image by (rule image_cong) (simp_all add: assms)

lemma exec_fits:
  assumes "fits P N s" and "P \<subseteq> db_players db" and "db_keys db \<subseteq> N"
  shows "\<exists>db'. exec_stmt s db = Some db' \<and> P \<union> set_option (stmt_player s) \<subseteq> db_players db' \<and>
    db_keys db' \<subseteq> N \<union> set_option (stmt_key s)"
  using assms
  by (cases s) (auto simp: db_players_def db_keys_def has_player_def has_session_def upsert_players on_session_keys)

lemma exec_all_fits:
  assumes "fits_all P N ss" and "P \<subseteq> db_players db" and "db_keys db \<subseteq> N"
  shows "\<exists>db'. exec_all ss db = Some db' \<and> P \<union> upserts ss \<subseteq> db_players db' \<and> db_keys db' \<subseteq> N \<union> inserts ss"
  using assms
proof (induction ss arbitrary: P N db)
  case (Cons s ss)
  obtain db1 where "exec_stmt s db = Some db1" "P \<union> set_option (stmt_player s) \<subseteq> db_players db1"
      "db_keys db1 \<subseteq> N \<union> set_option (stmt_key s)"
    using exec_fits [of P N s db] Cons.prems by auto
  with Cons.IH [of "P \<union> set_option (stmt_player s)" "N \<union> set_option (stmt_key s)" db1] Cons.prems(1)
  show ?case by (auto simp: Un_assoc)
qed simp

lemma prune_keeps: "db_players (prune_retention wall days db) = db_players db" "db_keys (prune_retention wall days db) \<subseteq> db_keys db"
  by (auto simp: prune_retention_def prune_statements_def run_many_def Let_def db_players_def db_keys_def)

fun call_event :: "sink_op \<Rightarrow> sink_event option" where
  "call_event (Call t wall ev) = Some ev"
| "call_event op = None"

definition calls :: "sink_op list \<Rightarrow> sink_event list" where
  "calls ops = List.map_filter call_event ops"

fun event_start :: "sink_event \<Rightarrow> int option" where
  "event_start (Session_started r) = Some (num r)"
| "event_start ev = None"

definition starts :: "sink_event list \<Rightarrow> int list" where
  "starts evs = List.map_filter event_start evs"

lemma calls_simps [simp]: "calls [] = []" "calls (op # ops) = (case call_event op of None \<Rightarrow> [] | Some ev \<Rightarrow> [ev]) @ calls ops"
  by (simp_all add: calls_def map_filter_simps split: option.split)

lemma starts_simps [simp]:
  "starts [] = []" "starts (ev # evs) = (case event_start ev of None \<Rightarrow> [] | Some n \<Rightarrow> [n]) @ starts evs"
  "starts (evs @ evs') = starts evs @ starts evs'"
  by (simp_all add: starts_def map_filter_def split: option.split)

text \<open>
  The invariant: what was accepted fits the tables the sink started with, what was handed over is in
  the tables, and only sessions announced so far have been inserted.
\<close>

definition schema_ok :: "string set \<Rightarrow> (string \<times> int) set \<Rightarrow> int set \<Rightarrow> event_sink \<Rightarrow> bool" where
  "schema_ok P N announced es \<longleftrightarrow>
     fits_all P N (es_accepted es) \<and> inserts (es_accepted es) \<subseteq> {es_run_id es} \<times> announced \<and>
     P \<union> upserts (es_handed es) \<subseteq> db_players (es_db es) \<and> db_keys (es_db es) \<subseteq> N \<union> inserts (es_handed es) \<and>
     es_failed es = []"

lemma call_schema:
  assumes "schema_ok P N A es" and "\<forall>n. (es_run_id es, n) \<notin> N"
    and "case event_start ev of None \<Rightarrow> True | Some n \<Rightarrow> n \<notin> A"
  shows "schema_ok P N (A \<union> set_option (event_start ev)) (sink_call t wall ev es)"
proof (cases ev)
  case (Session_started r)
  have "(es_run_id es, num r) \<notin> N \<union> inserts (es_accepted es)"
    using assms Session_started by (auto simp: schema_ok_def)
  then show ?thesis
    using assms(1) Session_started
    by (auto simp: schema_ok_def sink_call_def sink_enqueue_def queue_full_def Let_def fits_all_append)
qed (use assms(1) in \<open>auto simp: schema_ok_def sink_call_def sink_enqueue_def queue_full_def Let_def fits_all_append\<close>)

lemma hand_over_schema:
  assumes "schema_ok P N A es" and "es_accepted es = es_handed es @ ss @ rest"
  shows "schema_ok P N A (hand_over ss es)"
proof -
  have "fits_all (P \<union> upserts (es_handed es)) (N \<union> inserts (es_handed es)) ss"
    using assms by (simp add: schema_ok_def fits_all_append)
  from exec_all_fits [OF this, of "es_db es"] assms obtain db' where "exec_all ss (es_db es) = Some db'"
    "P \<union> upserts (es_handed es) \<union> upserts ss \<subseteq> db_players db'" "db_keys db' \<subseteq> N \<union> inserts (es_handed es) \<union> inserts ss"
    by (auto simp: schema_ok_def)
  then show ?thesis using assms(1) by (auto simp: schema_ok_def hand_over_def run_many_def)
qed

lemma step_schema:
  assumes "sink_inv es" and "schema_ok P N A es" and "\<forall>n. (es_run_id es, n) \<notin> N"
    and "set (starts (calls [op])) \<inter> A = {}"
  shows "schema_ok P N (A \<union> set (starts (calls [op]))) (sink_step op es)"
proof (cases op)
  case (Call t wall ev)
  show ?thesis
  proof (cases "event_start ev")
    case None
    then show ?thesis using call_schema [OF assms(2,3), of ev t wall] Call by simp
  next
    case (Some n)
    then show ?thesis using call_schema [OF assms(2,3), of ev t wall] assms(4) Call by simp
  qed
next
  case Take
  then show ?thesis using assms(2) by (simp add: schema_ok_def writer_take_def split: list.split)
next
  case Flush
  have "es_accepted es = es_handed es @ es_batch es @ es_queue es" using assms(1) by (simp add: sink_inv_def)
  from hand_over_schema [OF assms(2) this] assms(2) Flush show ?thesis by (simp add: writer_flush_def schema_ok_def)
next
  case (Prune_db wall days)
  then show ?thesis using assms(2) prune_keeps [of wall days "es_db es"] by (auto simp: schema_ok_def)
qed

lemma step_run_id: "es_run_id (sink_step op es) = es_run_id es"
  by (cases op) (simp_all add: sink_call_def Let_def writer_take_def writer_flush_def hand_over_def case_prod_beta split: list.split)

lemma run_schema:
  assumes "sink_inv es" and "schema_ok P N A es" and "\<forall>n. (es_run_id es, n) \<notin> N"
    and "set (starts (calls ops)) \<inter> A = {}" and "distinct (starts (calls ops))"
  shows "schema_ok P N (A \<union> set (starts (calls ops))) (fold sink_step ops es)"
  using assms
proof (induction ops arbitrary: es A)
  case (Cons op ops)
  have split: "starts (calls (op # ops)) = starts (calls [op]) @ starts (calls ops)"
    by (simp split: option.split)
  have "schema_ok P N (A \<union> set (starts (calls [op]))) (sink_step op es)"
    using Cons.prems split by (intro step_schema) auto
  from Cons.IH [OF step_inv [OF Cons.prems(1)] this] Cons.prems split show ?case
    by (simp add: step_run_id Un_assoc Int_Un_distrib disjoint_iff del: calls_simps) blast
qed simp

lemma sink_never_fails:
  assumes "\<And>n. \<not> has_session run n db" and "distinct (starts (calls ops))"
  shows "es_failed (fold sink_step ops (new_event_sink run qsize bsize bus db)) = []"
proof -
  let ?es = "new_event_sink run qsize bsize bus db"
  have "schema_ok (db_players db) (db_keys db) {} ?es" by (simp add: schema_ok_def new_event_sink_def)
  moreover have "\<forall>n. (es_run_id ?es, n) \<notin> db_keys db"
    using assms(1) by (simp add: new_event_sink_def has_session_def db_keys_def)
  ultimately have "schema_ok (db_players db) (db_keys db) ({} \<union> set (starts (calls ops))) (fold sink_step ops ?es)"
    using sink_run_inv [of "[]" run qsize bsize bus db] assms(2) by (intro run_schema) simp_all
  then show ?thesis by (simp add: schema_ok_def)
qed

lemma sink_stop_idle:
  assumes "es_batch es = []"
  shows "sink_stop es = (if es_queue es = [] then es else (hand_over (es_queue es) es)\<lparr>es_queue := []\<rparr>)"
proof -
  have "es\<lparr>es_discarded := es_discarded es @ es_batch es, es_batch := []\<rparr> = es" using assms by (cases es) simp
  then show ?thesis by (simp only: sink_stop_def Let_def)
qed

lemma sink_stop_never_fails:
  assumes "\<And>n. \<not> has_session run n db" and "distinct (starts (calls ops))"
  shows "es_failed (sink_stop (fold sink_step ops (new_event_sink run qsize bsize bus db))) = [] \<or>
    es_batch (fold sink_step ops (new_event_sink run qsize bsize bus db)) \<noteq> []"
proof -
  let ?new = "new_event_sink run qsize bsize bus db"
  let ?es = "fold sink_step ops ?new"
  have "schema_ok (db_players db) (db_keys db) {} ?new" by (simp add: schema_ok_def new_event_sink_def)
  moreover have "\<forall>n. (es_run_id ?new, n) \<notin> db_keys db"
    using assms(1) by (simp add: new_event_sink_def has_session_def db_keys_def)
  ultimately have ok: "schema_ok (db_players db) (db_keys db) ({} \<union> set (starts (calls ops))) ?es"
    using sink_run_inv [of "[]" run qsize bsize bus db] assms(2) by (intro run_schema) simp_all
  show ?thesis
  proof (cases "es_batch ?es = []")
    case True
    then have "es_accepted ?es = es_handed ?es @ es_queue ?es @ []"
      using sink_run_inv [of ops run qsize bsize bus db] by (simp add: sink_inv_def)
    from hand_over_schema [OF ok this] have "es_failed (hand_over (es_queue ?es) ?es) = []" by (simp add: schema_ok_def)
    moreover have "es_failed ?es = []" using ok by (simp add: schema_ok_def)
    ultimately show ?thesis using sink_stop_idle [OF True] by simp
  qed simp
qed

text \<open>
  C23. The event log never violates its own schema, so no batch is ever rolled back: when the run's
  identifier is new to the database and no session number is announced twice, no statement fails,
  also when events are dropped because the queue is full, and with prunes in between. (The player of
  a session is queued right before the session, and can only be dropped together with it.)
\<close>

theorem sink_never_violates_schema:
  assumes "\<And>n. \<not> has_session run n db" and "distinct (starts (calls ops))"
  shows "es_failed (fold sink_step ops (new_event_sink run qsize bsize bus db)) = []"
  using assms by (rule sink_never_fails)

definition alice :: session_record where
  "alice = \<lparr>num = 1, player_id = ''ab12'', player_name = ''alice'', started_at = 0, started_wall_at = 0, watchers = []\<rparr>"

theorem sink_never_violates_schema_witness:
  "es_failed (fold sink_step [Call 0 0 (Session_started alice), Take, Flush, Call 1 1 (Session_ended alice ''player_end''), Take, Flush]
     (new_event_sink ''run'' 1024 100 (new_session_bus 50 4) empty_db)) = []"
  by (rule sink_never_violates_schema) (simp_all add: has_session_def empty_db_def)

text \<open>
  Shutting down loses the batch the writer is collecting: \<open>stop\<close> cancels the writer and writes
  what is still queued, so of the statements accepted exactly those already taken into the
  current batch are never written.
\<close>

theorem stop_loses_batch:
  fixes ops :: "sink_op list" and run :: string and qsize :: int and bsize :: nat and bus :: session_bus and db :: event_db
  defines "es \<equiv> fold sink_step ops (new_event_sink run qsize bsize bus db)"
  shows "es_handed (sink_stop es) = es_handed es @ es_queue es \<and> es_discarded (sink_stop es) = es_discarded es @ es_batch es \<and>
    mset (es_accepted (sink_stop es)) = mset (es_handed (sink_stop es)) + mset (es_batch es) \<and>
    es_queue (sink_stop es) = []"
  using sink_run_inv [of ops run qsize bsize bus db] unfolding es_def [symmetric]
  by (auto simp: sink_inv_def sink_stop_def hand_over_def Let_def case_prod_beta)

section \<open>Views of the database\<close>

text \<open>The calls of a run with the wall clock each was made at.\<close>

fun timed_call :: "sink_op \<Rightarrow> (real \<times> sink_event) list" where
  "timed_call (Call t wall ev) = [(wall, ev)]"
| "timed_call op = []"

definition timed_calls :: "sink_op list \<Rightarrow> (real \<times> sink_event) list" where
  "timed_calls ops = concat (map timed_call ops)"

definition reported :: "string \<Rightarrow> (real \<times> sink_event) list \<Rightarrow> stmt list" where
  "reported run tcs = concat (map (\<lambda>(wall, ev). stmts_of run wall ev) tcs)"

text \<open>A prune of the run deletes only rows that the view does not need.\<close>

fun prune_within :: "(int \<Rightarrow> bool) \<Rightarrow> sink_op \<Rightarrow> bool" where
  "prune_within keeps (Prune_db wall days) = (days \<le> 0 \<or> keeps (trunc wall - days * 86400))"
| "prune_within keeps op = True"

text \<open>Without drops, what is accepted is what the calls say.\<close>

lemma enqueue_no_drop:
  "es_dropped (sink_enqueue t s es) = [] \<Longrightarrow> es_dropped es = [] \<and> es_accepted (sink_enqueue t s es) = es_accepted es @ [s]"
  by (auto simp: sink_enqueue_def Let_def split: if_splits)

lemma enqueues_no_drop:
  "es_dropped (fold (sink_enqueue t) ss es) = [] \<Longrightarrow>
    es_dropped es = [] \<and> es_accepted (fold (sink_enqueue t) ss es) = es_accepted es @ ss"
proof (induction ss arbitrary: es)
  case (Cons s ss)
  from Cons.IH [of "sink_enqueue t s es"] Cons.prems enqueue_no_drop [of t s es] show ?case by simp
qed simp

lemma step_no_drop:
  assumes "es_dropped (sink_step op es) = []"
  shows "es_dropped es = [] \<and> es_accepted (sink_step op es) = es_accepted es @ reported (es_run_id es) (timed_call op)"
proof (cases op)
  case (Call t wall ev)
  then have "es_dropped (fold (sink_enqueue t) (stmts_of (es_run_id es) wall ev) es) = []"
    using assms by (simp add: sink_call_def Let_def)
  from enqueues_no_drop [OF this] Call show ?thesis by (simp add: sink_call_def Let_def reported_def)
qed (use assms in \<open>simp_all add: reported_def writer_take_def writer_flush_def hand_over_def case_prod_beta split: list.splits if_splits\<close>)

lemma run_no_drop:
  "es_dropped (fold sink_step ops es) = [] \<Longrightarrow>
    es_dropped es = [] \<and> es_accepted (fold sink_step ops es) = es_accepted es @ reported (es_run_id es) (timed_calls ops)"
proof (induction ops arbitrary: es)
  case (Cons op ops)
  from Cons.IH [of "sink_step op es"] Cons.prems step_no_drop [of op es] show ?case
    by (simp add: step_run_id timed_calls_def reported_def)
qed (simp add: timed_calls_def reported_def)

text \<open>
  What a sink leaves in the database, seen through a function of the tables that follows every
  statement: when nothing was dropped or failed and the writer has caught up, the view of the
  database is that of the reported events, whatever the batches were.
\<close>

locale store_view =
  fixes view :: "event_db \<Rightarrow> 'v"
    and effect :: "stmt \<Rightarrow> 'v \<Rightarrow> 'v"
    and keeps :: "int \<Rightarrow> bool"
  assumes exec_view: "exec_stmt s db = Some db' \<Longrightarrow> view db' = effect s (view db)"
    and prune_effect: "keeps c \<Longrightarrow> s \<in> {Delete_commands c, Delete_messages c, Delete_sessions c} \<Longrightarrow> effect s (view db) = view db"
begin

lemma exec_all_view: "exec_all ss db = Some db' \<Longrightarrow> view db' = fold effect ss (view db)"
  by (induction ss arbitrary: db) (auto simp: exec_view split: option.splits)

lemma prune_view:
  assumes "days \<le> 0 \<or> keeps (trunc wall - days * 86400)"
  shows "view (prune_retention wall days db) = view db"
  using assms exec_all_view [of "prune_statements wall days" db] prune_effect
  by (auto simp: prune_retention_def run_many_def prune_statements_def Let_def split: option.split)

lemma step_view:
  assumes "es_failed es = [] \<Longrightarrow> view (es_db es) = fold effect (es_handed es) v0"
    and "prune_within keeps op" and "es_failed (sink_step op es) = []"
  shows "view (es_db (sink_step op es)) = fold effect (es_handed (sink_step op es)) v0"
proof (cases op)
  case Flush
  then show ?thesis
    using assms(1,3) exec_all_view [of "es_batch es" "es_db es"]
    by (cases "exec_all (es_batch es) (es_db es)") (simp_all add: writer_flush_def hand_over_def run_many_def split: if_splits)
qed (use assms prune_view in \<open>simp_all add: sink_call_def Let_def writer_take_def split: list.splits if_splits\<close>)

lemma run_view:
  assumes "es_failed es = [] \<Longrightarrow> view (es_db es) = fold effect (es_handed es) v0"
    and "list_all (prune_within keeps) ops" and "es_failed (fold sink_step ops es) = []"
  shows "view (es_db (fold sink_step ops es)) = fold effect (es_handed (fold sink_step ops es)) v0"
  using assms
proof (induction ops arbitrary: es)
  case (Cons op ops)
  have "view (es_db (sink_step op es)) = fold effect (es_handed (sink_step op es)) v0" if "es_failed (sink_step op es) = []"
    using Cons.prems(1,2) that by (intro step_view) simp_all
  from Cons.IH [OF this] Cons.prems show ?case by simp
qed simp

lemma caught_up:
  assumes "es = fold sink_step ops (new_event_sink run qsize bsize bus db)" and "list_all (prune_within keeps) ops"
    and "es_failed es = []" and "es_dropped es = []" and "es_batch es = []" and "es_queue es = []"
  shows "view (es_db es) = fold effect (reported run (timed_calls ops)) (view db)"
proof -
  let ?new = "new_event_sink run qsize bsize bus db"
  have "view (es_db es) = fold effect (es_handed es) (view db)"
    unfolding assms(1) by (rule run_view [OF _ assms(2) assms(3) [unfolded assms(1)]]) (simp add: new_event_sink_def)
  moreover have "es_accepted es = es_handed es"
    using sink_run_inv [of ops run qsize bsize bus db] assms(1,5,6) by (simp add: sink_inv_def)
  moreover have "es_accepted es = reported run (timed_calls ops)"
    using run_no_drop [of ops ?new] assms(1,4) by (simp add: new_event_sink_def)
  ultimately show ?thesis by simp
qed

text \<open>The same after \<open>stop\<close>, when the writer was not collecting a batch: what was queued is written.\<close>

lemma stopped:
  assumes "es = fold sink_step ops (new_event_sink run qsize bsize bus db)" and "list_all (prune_within keeps) ops"
    and "es_failed (sink_stop es) = []" and "es_dropped es = []" and "es_batch es = []"
  shows "view (es_db (sink_stop es)) = fold effect (reported run (timed_calls ops)) (view db)"
proof -
  let ?new = "new_event_sink run qsize bsize bus db"
  have ok: "es_failed es = []"
    using assms(3) by (auto simp: sink_stop_def Let_def hand_over_def case_prod_beta split: if_splits)
  have "view (es_db es) = fold effect (es_handed es) (view db)"
    unfolding assms(1) by (rule run_view [OF _ assms(2) ok [unfolded assms(1)]]) (simp add: new_event_sink_def)
  moreover have "es_accepted es = es_handed es @ es_queue es"
    using sink_run_inv [of ops run qsize bsize bus db] assms(1,5) by (simp add: sink_inv_def)
  moreover have "es_accepted es = reported run (timed_calls ops)"
    using run_no_drop [of ops ?new] assms(1,4) by (simp add: new_event_sink_def)
  moreover have "view (es_db (sink_stop es)) = fold effect (es_queue es) (view (es_db es))"
    using assms(3) exec_all_view [of "es_queue es" "es_db es"]
    by (cases "exec_all (es_queue es) (es_db es)") (auto simp: sink_stop_def Let_def hand_over_def run_many_def split: if_splits)
  ultimately show ?thesis by simp
qed

end

section \<open>The session log mirrors the registry\<close>

definition open_rows :: "string \<Rightarrow> event_db \<Rightarrow> (int \<times> string) list" where
  "open_rows run db =
     map (\<lambda>r. (sr_num r, sr_pubkey r)) (filter (\<lambda>r. sr_run r = run \<and> sr_ended_at r = None) (sessions_tab db))"

fun row_effect :: "string \<Rightarrow> stmt \<Rightarrow> (int \<times> string) list \<Rightarrow> (int \<times> string) list" where
  "row_effect run (Insert_session run' n p tm) rows = (if run' = run then rows @ [(n, p)] else rows)"
| "row_effect run (End_session tm reason run' n) rows = (if run' = run then filter (\<lambda>(m, _). m \<noteq> n) rows else rows)"
| "row_effect run s rows = rows"

lemma on_session_open:
  assumes "\<And>r. sr_run (f r) = sr_run r \<and> sr_num (f r) = sr_num r \<and> sr_pubkey (f r) = sr_pubkey r \<and> sr_ended_at (f r) = sr_ended_at r"
  shows "map (\<lambda>r. (sr_num r, sr_pubkey r)) (filter (\<lambda>r. sr_run r = run \<and> sr_ended_at r = None) (on_session run' n f rows)) =
    map (\<lambda>r. (sr_num r, sr_pubkey r)) (filter (\<lambda>r. sr_run r = run \<and> sr_ended_at r = None) rows)"
  by (induction rows) (simp_all add: on_session_def assms)

lemma on_session_end:
  "map (\<lambda>r. (sr_num r, sr_pubkey r)) (filter (\<lambda>r. sr_run r = run \<and> sr_ended_at r = None)
      (on_session run n (\<lambda>r. r\<lparr>sr_ended_at := Some tm, sr_end_reason := Some reason\<rparr>) rows)) =
    filter (\<lambda>(m, _). m \<noteq> n)
      (map (\<lambda>r. (sr_num r, sr_pubkey r)) (filter (\<lambda>r. sr_run r = run \<and> sr_ended_at r = None) rows))"
proof (induction rows)
  case (Cons r rows)
  then show ?case by (cases "sr_run r = run"; cases "sr_num r = n"; cases "sr_ended_at r") (simp_all add: on_session_def)
qed (simp add: on_session_def)

lemma on_session_other:
  assumes "run' \<noteq> run" and "\<And>r. sr_run (f r) = sr_run r"
  shows "filter (\<lambda>r. sr_run r = run \<and> sr_ended_at r = None) (on_session run' n f rows) =
    filter (\<lambda>r. sr_run r = run \<and> sr_ended_at r = None) rows"
proof (induction rows)
  case (Cons r rows)
  then show ?case using assms by (cases "sr_run r = run'") (simp_all add: on_session_def)
qed (simp add: on_session_def)

lemma exec_open: "exec_stmt s db = Some db' \<Longrightarrow> open_rows run db' = row_effect run s (open_rows run db)"
proof (cases s)
  case (Delete_sessions cutoff)
  assume "exec_stmt s db = Some db'"
  moreover have "(sr_run r = run \<and> sr_ended_at r = None) \<and> \<not> (case sr_ended_at r of None \<Rightarrow> False | Some t \<Rightarrow> t < cutoff) \<longleftrightarrow>
      sr_run r = run \<and> sr_ended_at r = None" for r :: session_row by (auto split: option.splits)
  ultimately show ?thesis using Delete_sessions by (auto simp: open_rows_def conj_commute)
next
  case (End_session tm reason run' n)
  assume "exec_stmt s db = Some db'"
  with End_session show ?thesis
    by (cases "run' = run") (auto simp: open_rows_def on_session_end on_session_other)
qed (auto simp: open_rows_def on_session_open split: if_splits)

text \<open>Open rows are never pruned, whatever the cutoff.\<close>

interpretation open_view: store_view "open_rows run" "row_effect run" "\<lambda>_. True"
  by unfold_locales (auto simp: exec_open)

fun event_effect :: "sink_event \<Rightarrow> (int \<times> string) list \<Rightarrow> (int \<times> string) list" where
  "event_effect (Session_started r) rows = rows @ [(num r, player_id r)]"
| "event_effect (Session_ended r reason) rows = filter (\<lambda>(m, _). m \<noteq> num r) rows"
| "event_effect ev rows = rows"

lemma stmts_effect: "fold (row_effect run) (stmts_of run wall ev) rows = event_effect ev rows"
  by (cases ev) simp_all

lemma reported_effect: "fold (row_effect run) (reported run (timed_calls ops)) rows = fold event_effect (calls ops) rows"
proof (induction ops arbitrary: rows)
  case (Cons op ops)
  then show ?case by (cases op) (simp_all add: reported_def timed_calls_def stmts_effect)
qed (simp add: reported_def timed_calls_def)

text \<open>The registry's own log, read the same way, gives its live sessions in order.\<close>

definition mirrored :: "session_state \<Rightarrow> bool" where
  "mirrored st \<longleftrightarrow> fold event_effect (sink st) [] = map (\<lambda>r. (num r, player_id r)) (all_sessions st)"

lemma mirrored_add:
  "mirrored st \<Longrightarrow> map_of (sessions st) p = None \<Longrightarrow> mirrored (snd (add_session now wall p nm st))"
  by (simp add: mirrored_def add_session_def Let_def all_sessions_def alist_update_fresh)

lemma mirrored_remove:
  assumes "ss_inv st" and "mirrored st"
  shows "mirrored (snd (remove_session p reason st))"
proof (cases "map_of (sessions st) p")
  case (Some r)
  have keys: "map_of (sessions st) k = Some r'" if "(k, r') \<in> set (sessions st)" for k r'
    using that assms(1) by (simp add: ss_inv_def)
  have same: "k \<noteq> p \<longleftrightarrow> num r' \<noteq> num r" if "(k, r') \<in> set (sessions st)" for k r'
    using consistent_num_unique [OF ss_inv_consistent [OF assms(1)] keys [OF that] Some] keys [OF that] Some
    by (metis option.inject)
  have "filter (\<lambda>(k, _). k \<noteq> p) (sessions st) = filter (\<lambda>kv. num (snd kv) \<noteq> num r) (sessions st)"
  proof (rule filter_cong [OF refl])
    fix kv assume "kv \<in> set (sessions st)"
    then show "(case kv of (k, _) \<Rightarrow> k \<noteq> p) = (num (snd kv) \<noteq> num r)" using same [of "fst kv" "snd kv"] by (simp add: case_prod_beta)
  qed
  then have "map (\<lambda>kv. (num (snd kv), player_id (snd kv))) (AList.delete p (sessions st)) =
      filter (\<lambda>(m, _). m \<noteq> num r) (map (\<lambda>kv. (num (snd kv), player_id (snd kv))) (sessions st))"
    by (simp add: AList.delete_eq filter_map comp_def case_prod_beta eq_commute [of p])
  then show ?thesis
    using assms(2) Some by (simp add: mirrored_def remove_session_def all_sessions_def comp_def)
qed (simp add: remove_session_def assms)

lemma map_ids_update:
  "map_of al k = Some r \<Longrightarrow> num r' = num r \<Longrightarrow> player_id r' = player_id r \<Longrightarrow>
    map (\<lambda>kv. (num (snd kv), player_id (snd kv))) (AList.update k r' al) = map (\<lambda>kv. (num (snd kv), player_id (snd kv))) al"
  by (induction al) (auto split: if_splits)

lemma mirrored_watchers:
  assumes "ss_inv st" and "mirrored st"
  shows "mirrored (snd (add_watcher w n st))" and "mirrored (snd (remove_watcher w st))"
proof -
  have upd: "map (\<lambda>kv. (num (snd kv), player_id (snd kv))) (AList.update (player_id r) (r\<lparr>watchers := ws\<rparr>) (sessions st)) =
      map (\<lambda>kv. (num (snd kv), player_id (snd kv))) (sessions st)"
    if "get_session_by_num k st = Some r" for k r ws
  proof -
    have "map_of (sessions st) (player_id r) = Some r"
      using that get_session_by_num_iff [OF assms(1)] consistentD(1) [OF ss_inv_consistent [OF assms(1)]] by metis
    then show ?thesis by (rule map_ids_update) simp_all
  qed
  have gs: "get_session_by_num k (st\<lparr>watching := x\<rparr>) = get_session_by_num k st" for k x
    by (simp add: get_session_by_num_def cong: option.case_cong)
  show "mirrored (snd (add_watcher w n st))"
    using assms(2) by (simp add: mirrored_def add_watcher_def Let_def all_sessions_def comp_def upd split: option.split)
  show "mirrored (snd (remove_watcher w st))"
    using assms(2) by (simp add: mirrored_def remove_watcher_def Let_def all_sessions_def comp_def gs upd split: option.split)
qed

lemma mirrored_change: "registry_change st st' \<Longrightarrow> ss_inv st \<Longrightarrow> mirrored st \<Longrightarrow> mirrored st'"
proof (induction rule: registry_change.induct)
  case (change_noted ev st)
  then show ?case by (cases ev) (simp_all add: mirrored_def emit_def all_sessions_def)
qed (simp_all add: mirrored_add mirrored_remove mirrored_watchers)

lemma mirrored_reached: "reached m st \<Longrightarrow> mirrored st"
proof -
  assume "reached m st"
  then have "ss_inv st \<and> mirrored st"
    unfolding reached_def
  proof (induction rule: rtranclp_induct)
    case base
    then show ?case by (simp add: mirrored_def new_session_state_def all_sessions_def ss_inv_new [unfolded new_session_state_def])
  qed (auto intro: registry_change_inv mirrored_change)
  then show ?thesis by simp
qed

lemma fold_effect_boundary: "fold event_effect evs rows = fold event_effect (filter boundary evs) rows"
proof (induction evs arbitrary: rows)
  case (Cons ev evs)
  then show ?case by (cases ev) simp_all
qed simp

lemma starts_boundary: "starts (filter boundary evs) = starts evs"
proof (induction evs)
  case (Cons ev evs)
  then show ?case by (cases ev) simp_all
qed simp

lemma starts_registry: "starts (sink st) = started_nums st"
proof -
  have "starts evs = concat (map (\<lambda>e. case e of Session_started r \<Rightarrow> [num r] | _ \<Rightarrow> []) evs)" for evs
  proof (induction evs)
    case (Cons ev evs)
    then show ?case by (cases ev) simp_all
  qed simp
  then show ?thesis by (simp add: started_nums_def)
qed

text \<open>What the registry reported, read as session rows, is what is live in it; no number is announced twice.\<close>

lemma registry_reported:
  assumes "reached m st" and "filter boundary (calls ops) = filter boundary (sink st)"
  shows "fold event_effect (calls ops) [] = map (\<lambda>r. (num r, player_id r)) (all_sessions st)"
    and "distinct (starts (calls ops))"
proof -
  have "started_nums st = [1..next_num st - 1]" using reached_inv [OF assms(1)] by (simp add: accounted_def)
  then have "starts (calls ops) = [1..next_num st - 1]"
    using starts_boundary [of "calls ops"] starts_boundary [of "sink st"] starts_registry [of st] assms(2) by simp
  then show "distinct (starts (calls ops))" by simp
  have "fold event_effect (calls ops) [] = fold event_effect (sink st) []"
    using fold_effect_boundary [of "calls ops"] fold_effect_boundary [of "sink st"] assms(2) by simp
  also have "\<dots> = map (\<lambda>r. (num r, player_id r)) (all_sessions st)"
    using mirrored_reached [OF assms(1)] by (simp add: mirrored_def)
  finally show "fold event_effect (calls ops) [] = map (\<lambda>r. (num r, player_id r)) (all_sessions st)" .
qed

lemma no_open_rows: "(\<And>n. \<not> has_session run n db) \<Longrightarrow> open_rows run db = []"
  by (auto simp: open_rows_def filter_empty_conv has_session_def)

lemma any_prune: "list_all (prune_within (\<lambda>_. True)) ops"
proof -
  have "prune_within (\<lambda>_. True) op" for op by (cases op) simp_all
  then show ?thesis by (simp add: list_all_iff)
qed

lemma reached_caught_up:
  assumes "reached m st" and "filter boundary (calls ops) = filter boundary (sink st)"
    and "\<And>n. \<not> has_session run n db"
    and "es = fold sink_step ops (new_event_sink run qsize bsize bus db)"
    and "es_dropped es = []" and "es_batch es = []" and "es_queue es = []"
  shows "open_rows run (es_db es) = map (\<lambda>r. (num r, player_id r)) (all_sessions st)"
proof -
  note reported = registry_reported [OF assms(1,2)]
  have ok: "es_failed es = []" unfolding assms(4) by (intro sink_never_fails assms(3) reported(2))
  from open_view.caught_up [OF assms(4) any_prune ok assms(5-7)]
  have "open_rows run (es_db es) = fold event_effect (calls ops) []"
    by (simp add: no_open_rows [OF assms(3)] reported_effect)
  then show ?thesis using reported(1) by simp
qed

text \<open>
  The database agrees with the bot: let the sink be called for the registry's session starts and
  ends in order, with any other events between them, and with the writer and the daily prune running
  at any time. When nothing has been dropped and the writer has caught up, the session rows of
  this run that are still open are exactly the live sessions of the registry, by number and
  player, in the order they were started.
\<close>

theorem event_log_mirrors_registry:
  assumes "reached m st" and "filter boundary (calls ops) = filter boundary (sink st)"
    and "\<And>n. \<not> has_session run n db"
    and "es = fold sink_step ops (new_event_sink run qsize bsize bus db)"
    and "es_dropped es = []" and "es_batch es = []" and "es_queue es = []"
  shows "open_rows run (es_db es) = map (\<lambda>r. (num r, player_id r)) (all_sessions st)"
  by (rule reached_caught_up [OF assms])

theorem event_log_mirrors_registry_witness:
  "open_rows ''run'' (es_db (fold sink_step
      [Call 0 0 (Session_started alice), Take, Take, Flush, Prune_db 0 90]
      (new_event_sink ''run'' 1024 100 (new_session_bus 50 4) empty_db))) =
    map (\<lambda>r. (num r, player_id r)) (all_sessions (fold lobby_step [Start ''ab12'' ''alice'' 0 0] (new_session_state 2)))"
  by (rule event_log_mirrors_registry [OF reached_run, where ops = "[Call 0 0 (Session_started alice), Take, Take, Flush, Prune_db 0 90]" and qsize = 1024
        and bsize = 100 and bus = "new_session_bus 50 4" and db = empty_db])
    (simp_all add: alice_def active_state_def new_session_state_def add_session_def Let_def emit_def has_session_def empty_db_def
      sink_call_def sink_enqueue_def queue_full_def new_event_sink_def writer_take_def writer_flush_def hand_over_def run_many_def
      has_player_def upsert_player_def)

end
