(* ===== verification/Shutdown.thy ===== *)
theory Shutdown
  imports Event_Store Bot_Outcomes
begin

text \<open>
  What a shutdown leaves in the store: \<open>ZorkBot.stop\<close> (\<^verbatim>\<open>src/zorkbot/src/zorkbot/bot.py\<close>) closes every
  session in the registry, which reports each end to the event sink, and \<open>SqliteEventSink.stop\<close>
  (\<^verbatim>\<open>admin/events.py\<close>) then writes what is still queued. That the two happen in this order is proved
  of the command line's \<open>run\<close>.
\<close>

lemma stop_sessions_changes: "registry_change\<^sup>*\<^sup>* st (stop_sessions st)"
proof -
  have "registry_change\<^sup>*\<^sup>* st (fold (\<lambda>r st. snd (remove_session (player_id r) ''shutdown'' st)) rs st)" for rs
  proof (induction rs arbitrary: st)
    case (Cons r rs)
    show ?case using converse_rtranclp_into_rtranclp [of registry_change, OF change_ended Cons] by simp
  qed simp
  then show ?thesis by (simp add: stop_sessions_def)
qed

lemma stopped_registry_empty: "reached m st \<Longrightarrow> all_sessions (stop_sessions st) = []"
  using stop_sessions_empty reached_inv by (simp add: all_sessions_def)

text \<open>
  C6. After an orderly shutdown no session of the run reads as still active: when the sink has been told
  everything the registry reported, including the ends at shutdown, nothing was dropped, and the writer is
  between two batches when the sink is stopped, the store has no open session row of this run left.
\<close>

theorem shutdown_closes_rows:
  assumes "reached m st" and "filter boundary (calls ops) = filter boundary (sink (stop_sessions st))"
    and "\<And>n. \<not> has_session run n db"
    and "es = fold sink_step ops (new_event_sink run qsize bsize bus db)"
    and "es_dropped es = []" and "es_batch es = []"
  shows "open_rows run (es_db (sink_stop es)) = []"
proof -
  note reported = registry_reported [OF reached_trans [OF assms(1) stop_sessions_changes] assms(2)]
  have ok: "es_failed (sink_stop es) = []"
    using sink_stop_never_fails [OF assms(3) reported(2)] assms(4,6) by auto
  from open_view.stopped [OF assms(4) any_prune ok assms(5,6)]
  have "open_rows run (es_db (sink_stop es)) = fold event_effect (calls ops) []"
    by (simp add: no_open_rows [OF assms(3)] reported_effect)
  then show ?thesis using reported(1) stopped_registry_empty [OF assms(1)] by simp
qed

lemmas shutdown_eval = alice_def active_state_def new_session_state_def add_session_def remove_session_def Let_def emit_def has_session_def
  empty_db_def sink_call_def sink_enqueue_def queue_full_def new_event_sink_def writer_take_def writer_flush_def hand_over_def run_many_def
  has_player_def upsert_player_def on_session_def stop_sessions_def all_sessions_def

definition one_session :: "sink_op list" where
  "one_session = [Call 0 0 (Session_started alice), Take, Take, Flush, Call 9 9 (Session_ended alice ''shutdown'')]"

lemma one_session_reported:
  "filter boundary (calls one_session) =
    filter boundary (sink (stop_sessions (fold lobby_step [Start ''ab12'' ''alice'' 0 0] (new_session_state 2))))"
  by (simp add: one_session_def shutdown_eval)

theorem shutdown_closes_rows_witness:
  "open_rows ''run'' (es_db (sink_stop (fold sink_step one_session
      (new_event_sink ''run'' 1024 100 (new_session_bus 50 4) empty_db)))) = []"
  by (rule shutdown_closes_rows [OF reached_run one_session_reported _ refl])
    (simp_all add: one_session_def shutdown_eval bus_publish_def bus_channel_def new_session_bus_def)

text \<open>
  The condition on the writer matters. The ends reported at shutdown wake the writer, which collects them into a
  batch for half a second; when the sink is stopped within that time the batch is lost, and the
  session stays open in the store.
\<close>

theorem shutdown_can_leave_rows_open:
  "open_rows ''run'' (es_db (sink_stop (fold sink_step (one_session @ [Take])
      (new_event_sink ''run'' 1024 100 (new_session_bus 50 4) empty_db)))) = [(1, ''ab12'')]"
  by (simp add: one_session_def shutdown_eval sink_stop_def open_rows_def)

end
