(* ===== verification/Log_Bus.thy ===== *)
theory Log_Bus
  imports Admin_Access
begin

text \<open>
  The process log of the admin console, \<^verbatim>\<open>src/zorkbot/src/zorkbot/admin/logbus.py\<close>, with the stream
  route of \<^verbatim>\<open>admin/routes/logs.py\<close>.

  A record may be logged on any thread. Numbering it, appending it to the ring and copying the list
  of subscribers happen under the lock (\<open>emit_locked\<close>); the hand-off to the event loop follows
  after the lock is released (\<open>emit_post\<close>), so hand-offs of several threads can interleave:
  \<open>posting\<close> holds, per thread, the hand-off still to be made. \<open>scheduled\<close> is the event loop's
  queue of callbacks, which it runs in order (\<open>run_callback\<close>).

  A subscriber object outlives its place in the list, since callbacks hold it; \<open>sub_offered\<close>
  and \<open>sub_pushed\<close> record what was offered to it at or above its level and what went into its
  queue. The mark of the truncation (an ellipsis, outside Latin-1) is written as three dots.
\<close>

section \<open>Records\<close>

definition MAX_MESSAGE_CHARS :: nat where
  "MAX_MESSAGE_CHARS = 8000"

definition LEVEL_NAMES :: "(string \<times> int) list" where
  "LEVEL_NAMES = [(''DEBUG'', 10), (''INFO'', 20), (''WARNING'', 30), (''ERROR'', 40), (''CRITICAL'', 50)]"

record log_record =
  lr_created :: real
  lr_levelname :: string
  lr_levelno :: int
  lr_name :: string
  lr_formatted :: "string option"

record log_item =
  li_seq :: nat
  li_at :: real
  li_level :: string
  li_levelno :: int
  li_logger :: string
  li_message :: string
  li_dropped_before :: "nat option"

definition render :: "log_record \<Rightarrow> log_item" where
  "render rec =
     (let message = (case lr_formatted rec of
            Some m \<Rightarrow> m
          | None \<Rightarrow> ''<unformattable log record from '' @ lr_name rec @ ''>'')
      in \<lparr>li_seq = 0, li_at = lr_created rec, li_level = lr_levelname rec, li_levelno = lr_levelno rec,
          li_logger = lr_name rec,
          li_message = (if MAX_MESSAGE_CHARS < length message
            then take MAX_MESSAGE_CHARS message @ ''... [truncated]'' else message),
          li_dropped_before = None\<rparr>)"

text \<open>\<open>str.upper\<close> as far as it decides whether the result is one of the ASCII names.\<close>

definition upper_ascii :: "string \<Rightarrow> string" where
  "upper_ascii s = map (\<lambda>c. if 97 \<le> code c \<and> code c \<le> 122 then char_of (code c - 32) else c) s"

definition parse_level :: "string \<Rightarrow> int option" where
  "parse_level name = map_of LEVEL_NAMES (upper_ascii (strip name))"

section \<open>The bus\<close>

record subscriber =
  sub_min_level :: int
  sub_queue :: "log_item list"
  sub_dropped :: nat
  sub_offered :: "log_item list"
  sub_pushed :: "log_item list"

record log_bus =
  lb_size :: nat
  lb_buffer :: "log_item list"
  lb_next_seq :: nat
  lb_subs :: "nat list"
  lb_objects :: "(nat \<times> subscriber) list"
  lb_next_sub :: nat
  lb_loop :: bool
  lb_max_streams :: int
  posting :: "(nat \<times> nat list \<times> log_item) list"
  scheduled :: "(nat list \<times> log_item) list"

definition LOG_QUEUE_SIZE :: nat where
  "LOG_QUEUE_SIZE = 256"

definition new_log_bus :: "nat \<Rightarrow> int \<Rightarrow> log_bus" where
  "new_log_bus bufsize streams =
     \<lparr>lb_size = bufsize, lb_buffer = [], lb_next_seq = 1, lb_subs = [], lb_objects = [], lb_next_sub = 0, lb_loop = False,
      lb_max_streams = streams, posting = [], scheduled = []\<rparr>"

definition emit_locked :: "nat \<Rightarrow> log_record \<Rightarrow> log_bus \<Rightarrow> log_bus" where
  "emit_locked thread rec b =
     (let item = (render rec)\<lparr>li_seq := lb_next_seq b\<rparr>
      in b\<lparr>lb_next_seq := lb_next_seq b + 1, lb_buffer := ring_append (lb_size b) item (lb_buffer b),
           posting := (if \<not> lb_loop b \<or> lb_subs b = [] then posting b
                       else posting b @ [(thread, lb_subs b, item)])\<rparr>)"

text \<open>A thread makes its oldest outstanding hand-off; it has at most one.\<close>

fun take_first :: "nat \<Rightarrow> (nat \<times> 'a) list \<Rightarrow> ('a \<times> (nat \<times> 'a) list) option" where
  "take_first k [] = None"
| "take_first k ((j, x) # xs) =
     (if j = k then Some (x, xs)
      else case take_first k xs of None \<Rightarrow> None | Some (y, ys) \<Rightarrow> Some (y, (j, x) # ys))"

definition emit_post :: "nat \<Rightarrow> log_bus \<Rightarrow> log_bus" where
  "emit_post thread b =
     (case take_first thread (posting b) of
        None \<Rightarrow> b
      | Some (callback, rest) \<Rightarrow> b\<lparr>posting := rest, scheduled := scheduled b @ [callback]\<rparr>)"

text \<open>\<open>_deliver\<close> for one subscriber.\<close>

definition offer_item :: "log_item \<Rightarrow> subscriber \<Rightarrow> subscriber" where
  "offer_item item sub =
     (if li_levelno item < sub_min_level sub then sub
      else
        (let payload = (if sub_dropped sub = 0 then item else item\<lparr>li_dropped_before := Some (sub_dropped sub)\<rparr>);
             sub1 = sub\<lparr>sub_offered := sub_offered sub @ [item]\<rparr>
         in if LOG_QUEUE_SIZE \<le> length (sub_queue sub)
            then sub1\<lparr>sub_dropped := sub_dropped sub + 1\<rparr>
            else sub1\<lparr>sub_queue := sub_queue sub @ [payload], sub_pushed := sub_pushed sub @ [payload], sub_dropped := 0\<rparr>))"

definition on_object :: "nat \<Rightarrow> (subscriber \<Rightarrow> subscriber) \<Rightarrow> (nat \<times> subscriber) list \<Rightarrow> (nat \<times> subscriber) list" where
  "on_object q f objs = (case map_of objs q of None \<Rightarrow> objs | Some sub \<Rightarrow> AList.update q (f sub) objs)"

definition run_callback :: "log_bus \<Rightarrow> log_bus" where
  "run_callback b =
     (case scheduled b of
        [] \<Rightarrow> b
      | (subs, item) # rest \<Rightarrow>
          b\<lparr>scheduled := rest, lb_objects := fold (\<lambda>q. on_object q (offer_item item)) subs (lb_objects b)\<rparr>)"

definition log_can_subscribe :: "log_bus \<Rightarrow> bool" where
  "log_can_subscribe b \<longleftrightarrow> int (length (lb_subs b)) < lb_max_streams b"

definition log_subscribe :: "int \<Rightarrow> log_bus \<Rightarrow> (nat \<times> log_item list) \<times> log_bus" where
  "log_subscribe min_level b =
     (let q = lb_next_sub b
      in ((q, filter (\<lambda>item. min_level \<le> li_levelno item) (lb_buffer b)),
          b\<lparr>lb_loop := True, lb_subs := lb_subs b @ [q], lb_next_sub := q + 1,
            lb_objects := AList.update q \<lparr>sub_min_level = min_level, sub_queue = [], sub_dropped = 0, sub_offered = [],
              sub_pushed = []\<rparr> (lb_objects b)\<rparr>))"

definition log_unsubscribe :: "nat \<Rightarrow> log_bus \<Rightarrow> log_bus" where
  "log_unsubscribe q b = b\<lparr>lb_subs := filter (\<lambda>p. p \<noteq> q) (lb_subs b)\<rparr>"

definition log_detach :: "log_bus \<Rightarrow> log_bus" where
  "log_detach b = b\<lparr>lb_loop := False, lb_subs := []\<rparr>"

section \<open>The stream route\<close>

definition stream_logs :: "string \<Rightarrow> log_bus \<Rightarrow> (http_error + nat \<times> log_item list) \<times> log_bus" where
  "stream_logs level b =
     (case parse_level level of
        None \<Rightarrow>
          (Inl (Http_error 400 ''invalid_request''
             (''invalid level: '' @ py_repr level @ '' (one of '' @ join '', '' (map fst LEVEL_NAMES) @ '')'')), b)
      | Some min_level \<Rightarrow>
          if \<not> log_can_subscribe b
          then (Inl (Http_error 429 ''too_many_streams'' ''max concurrent log streams reached''), b)
          else (case log_subscribe min_level b of (r, b') \<Rightarrow> (Inr r, b')))"

text \<open>One item read by the stream's generator.\<close>

definition stream_read :: "nat \<Rightarrow> log_bus \<Rightarrow> log_bus" where
  "stream_read q b = b\<lparr>lb_objects := on_object q (\<lambda>sub. sub\<lparr>sub_queue := tl (sub_queue sub)\<rparr>) (lb_objects b)\<rparr>"

datatype log_op =
    Emit nat log_record | Post nat | Callback | Open_log string | Close_log nat | Read_log nat | Detach

fun log_step :: "log_op \<Rightarrow> log_bus \<Rightarrow> log_bus" where
  "log_step (Emit thread rec) b = emit_locked thread rec b"
| "log_step (Post thread) b = emit_post thread b"
| "log_step Callback b = run_callback b"
| "log_step (Open_log level) b = snd (stream_logs level b)"
| "log_step (Close_log q) b = log_unsubscribe q b"
| "log_step (Read_log q) b = stream_read q b"
| "log_step Detach b = log_detach b"

section \<open>The ring\<close>

definition emitted :: "log_op list \<Rightarrow> log_record list" where
  "emitted ops = List.map_filter (\<lambda>op. case op of Emit thread rec \<Rightarrow> Some rec | _ \<Rightarrow> None) ops"

fun numbered :: "nat \<Rightarrow> log_record list \<Rightarrow> log_item list" where
  "numbered n [] = []"
| "numbered n (rec # recs) = (render rec)\<lparr>li_seq := n\<rparr> # numbered (Suc n) recs"

lemma emitted_simps [simp]:
  "emitted [] = []" "emitted (op # ops) = (case op of Emit thread rec \<Rightarrow> [rec] | _ \<Rightarrow> []) @ emitted ops"
  by (simp_all add: emitted_def map_filter_simps split: log_op.split)

lemma log_step_ring:
  "lb_size (log_step op b) = lb_size b"
  "lb_next_seq (log_step op b) = lb_next_seq b + length (emitted [op])"
  "lb_buffer (log_step op b) =
    (case op of Emit thread rec \<Rightarrow> ring_append (lb_size b) ((render rec)\<lparr>li_seq := lb_next_seq b\<rparr>) (lb_buffer b) | _ \<Rightarrow> lb_buffer b)"
  by (cases op; simp add: emit_locked_def emit_post_def run_callback_def stream_logs_def log_subscribe_def log_unsubscribe_def
      stream_read_def log_detach_def Let_def case_prod_beta split: option.split list.split)+

lemma run_ring:
  "length (lb_buffer b) \<le> lb_size b \<Longrightarrow>
    lb_buffer (fold log_step ops b) = last_n (lb_size b) (lb_buffer b @ numbered (lb_next_seq b) (emitted ops)) \<and>
    lb_next_seq (fold log_step ops b) = lb_next_seq b + length (emitted ops)"
proof (induction ops arbitrary: b)
  case (Cons op ops)
  let ?b = "log_step op b"
  have "length (lb_buffer ?b) \<le> lb_size ?b"
    using Cons.prems by (simp add: log_step_ring ring_append_last_n split: log_op.split)
  from Cons.IH [OF this] show ?case
    by (cases op) (simp_all add: log_step_ring ring_append_last_n last_n_last_n_append del: log_step.simps)
qed simp

text \<open>
  The replayed tail is exact: whatever threads log and streams come and go, the ring holds the
  newest records in the order they were logged, numbered consecutively from 1 without gaps, so a
  reconnecting client can tell what it missed.
\<close>

theorem log_ring_exact:
  "lb_buffer (fold log_step ops (new_log_bus bufsize streams)) = last_n bufsize (numbered 1 (emitted ops))"
  using run_ring [of "new_log_bus bufsize streams" ops] by (simp add: new_log_bus_def)

section \<open>No silent gaps\<close>

definition plain :: "log_item \<Rightarrow> log_item" where
  "plain item = item\<lparr>li_dropped_before := None\<rparr>"

definition gap :: "log_item \<Rightarrow> nat" where
  "gap item = (case li_dropped_before item of None \<Rightarrow> 0 | Some n \<Rightarrow> n)"

text \<open>
  The items pushed explain the items offered: in front of each pushed item exactly as many offered
  ones are missing as its marker says, and after the last one as many as the counter says.
\<close>

definition explained :: "subscriber \<Rightarrow> bool" where
  "explained sub \<longleftrightarrow>
     (\<exists>lost. map length lost = map gap (sub_pushed sub) \<and>
       (\<exists>rest. length rest = sub_dropped sub \<and>
         sub_offered sub = concat (map2 (\<lambda>l item. l @ [plain item]) lost (sub_pushed sub)) @ rest))"

definition unmarked :: "log_item \<Rightarrow> bool" where
  "unmarked item \<longleftrightarrow> li_dropped_before item = None"

definition sub_ok :: "subscriber \<Rightarrow> bool" where
  "sub_ok sub \<longleftrightarrow> explained sub \<and> length (sub_queue sub) \<le> LOG_QUEUE_SIZE \<and> suffix (sub_queue sub) (sub_pushed sub) \<and>
     list_all (\<lambda>item. sub_min_level sub \<le> li_levelno item) (sub_pushed sub)"

lemma offer_ok:
  assumes "sub_ok sub" and "unmarked item"
  shows "sub_ok (offer_item item sub)"
proof (cases "li_levelno item < sub_min_level sub")
  case False
  obtain lost rest where lost: "map length lost = map gap (sub_pushed sub)" "length rest = sub_dropped sub"
    and offered: "sub_offered sub = concat (map2 (\<lambda>l item. l @ [plain item]) lost (sub_pushed sub)) @ rest"
    using assms(1) by (auto simp: sub_ok_def explained_def)
  have len: "length lost = length (sub_pushed sub)" using lost(1) by (metis length_map)
  show ?thesis
  proof (cases "LOG_QUEUE_SIZE \<le> length (sub_queue sub)")
    case True
    have "explained (offer_item item sub)"
      unfolding explained_def using False True lost offered
      by (intro exI [of _ lost] conjI exI [of _ "rest @ [item]"]) (simp_all add: offer_item_def Let_def)
    then show ?thesis using assms(1) False True by (simp add: sub_ok_def offer_item_def Let_def)
  next
    case space: False
    let ?payload = "if sub_dropped sub = 0 then item else item\<lparr>li_dropped_before := Some (sub_dropped sub)\<rparr>"
    have payload: "gap ?payload = sub_dropped sub" "plain ?payload = item" "li_levelno ?payload = li_levelno item"
      using assms(2) by (simp_all add: gap_def plain_def unmarked_def)
    have "explained (offer_item item sub)"
      unfolding explained_def using False space lost offered len payload
      by (intro exI [of _ "lost @ [rest]"] conjI exI [of _ "[]"]) (simp_all add: offer_item_def Let_def)
    then show ?thesis
      using assms(1) False space payload by (auto simp: sub_ok_def offer_item_def Let_def suffix_def)
  qed
qed (use assms in \<open>simp add: offer_item_def\<close>)

definition bus_ok :: "log_bus \<Rightarrow> bool" where
  "bus_ok b \<longleftrightarrow>
     (\<forall>q sub. map_of (lb_objects b) q = Some sub \<longrightarrow> sub_ok sub) \<and>
     list_all (\<lambda>(thread, subs, item). unmarked item) (posting b) \<and> list_all (\<lambda>(subs, item). unmarked item) (scheduled b) \<and>
     distinct (lb_subs b) \<and> (\<forall>q \<in> set (lb_subs b). q < lb_next_sub b) \<and> int (length (lb_subs b)) \<le> max 0 (lb_max_streams b)"

lemma on_object_map: "map_of (on_object q f objs) = (\<lambda>p. if p = q then map_option f (map_of objs q) else map_of objs p)"
  by (auto simp: on_object_def dict_simps fun_eq_iff split: option.split)

lemma offers_ok:
  "unmarked item \<Longrightarrow> (\<forall>q sub. map_of objs q = Some sub \<longrightarrow> sub_ok sub) \<Longrightarrow>
    (\<forall>q sub. map_of (fold (\<lambda>q. on_object q (offer_item item)) subs objs) q = Some sub \<longrightarrow> sub_ok sub)"
proof (induction subs arbitrary: objs)
  case (Cons p subs)
  have "\<forall>q sub. map_of (on_object p (offer_item item) objs) q = Some sub \<longrightarrow> sub_ok sub"
    using Cons.prems by (auto simp: on_object_map offer_ok split: if_splits)
  from Cons.IH [OF Cons.prems(1) this] show ?case by simp
qed simp

lemma take_first_ok:
  "take_first k xs = Some (y, ys) \<Longrightarrow> (\<exists>j. (j, y) \<in> set xs) \<and> set ys \<subseteq> set xs"
  by (induction xs arbitrary: ys) (fastforce split: if_splits option.splits)+

lemma log_step_ok:
  assumes "bus_ok b"
  shows "bus_ok (log_step op b)"
proof (cases op)
  case (Emit thread rec)
  have "unmarked ((render rec)\<lparr>li_seq := n\<rparr>)" for n by (simp add: unmarked_def render_def Let_def)
  then show ?thesis using assms Emit by (simp add: bus_ok_def emit_locked_def Let_def)
next
  case (Post thread)
  show ?thesis
  proof (cases "take_first thread (posting b)")
    case (Some r)
    obtain subs item rest where r: "r = ((subs, item), rest)" by (metis prod.exhaust)
    from take_first_ok [of thread "posting b" "(subs, item)" rest] Some r
    have "\<exists>j. (j, subs, item) \<in> set (posting b)" "set rest \<subseteq> set (posting b)" by auto
    then have "unmarked item" "list_all (\<lambda>(thread, subs, item). unmarked item) rest"
      using assms by (auto simp: bus_ok_def list_all_iff)
    then show ?thesis using assms Post Some r by (simp add: bus_ok_def emit_post_def)
  qed (use assms Post in \<open>simp add: emit_post_def\<close>)
next
  case Callback
  show ?thesis
  proof (cases "scheduled b")
    case (Cons cb rest)
    obtain subs item where cb: "cb = (subs, item)" by (cases cb)
    have "unmarked item" using assms Cons cb by (simp add: bus_ok_def)
    with assms offers_ok [OF this, of "lb_objects b" subs] Callback Cons cb show ?thesis
      by (simp add: bus_ok_def run_callback_def)
  qed (use assms Callback in \<open>simp add: run_callback_def\<close>)
next
  case (Open_log level)
  have fresh: "sub_ok \<lparr>sub_min_level = m, sub_queue = [], sub_dropped = 0, sub_offered = [], sub_pushed = []\<rparr>" for m
    by (simp add: sub_ok_def explained_def)
  show ?thesis
    using assms Open_log fresh
    by (auto simp: bus_ok_def stream_logs_def log_can_subscribe_def log_subscribe_def Let_def dict_simps split: option.split)
next
  case (Close_log q)
  have "int (length (lb_subs b)) \<le> max 0 (lb_max_streams b)" using assms by (simp add: bus_ok_def)
  then have "int (length (filter (\<lambda>p. p \<noteq> q) (lb_subs b))) \<le> max 0 (lb_max_streams b)"
    by (meson length_filter_le of_nat_le_iff order_trans)
  then show ?thesis using assms Close_log by (auto simp: bus_ok_def log_unsubscribe_def)
next
  case (Read_log q)
  have "sub_ok (sub\<lparr>sub_queue := tl (sub_queue sub)\<rparr>)" if "sub_ok sub" for sub
    using that suffix_order.trans [OF suffix_tl [of "sub_queue sub"]]
    by (auto simp: sub_ok_def explained_def)
  then show ?thesis using assms Read_log by (auto simp: bus_ok_def stream_read_def on_object_map split: if_splits)
next
  case Detach
  then show ?thesis using assms by (simp add: bus_ok_def log_detach_def)
qed

lemma run_ok: "bus_ok (fold log_step ops (new_log_bus bufsize streams))"
proof -
  have run: "bus_ok (fold log_step ops b)" if "bus_ok b" for b
    using that by (induction ops arbitrary: b) (simp_all add: log_step_ok del: log_step.simps)
  show ?thesis by (rule run) (simp add: bus_ok_def new_log_bus_def)
qed

text \<open>
  A slow client sees every gap: for every log stream, in front of each record that reached its
  queue exactly as many records at its level are missing as the record's \<open>dropped_before\<close> says (none
  if it has no such mark), and after the last one as many as the drop counter says; nothing below
  the stream's level reaches it.
\<close>

theorem log_gaps_marked:
  assumes "map_of (lb_objects (fold log_step ops (new_log_bus bufsize streams))) q = Some sub"
  shows "(\<exists>lost. map length lost = map gap (sub_pushed sub) \<and>
      (\<exists>rest. length rest = sub_dropped sub \<and>
        sub_offered sub = concat (map2 (\<lambda>l item. l @ [plain item]) lost (sub_pushed sub)) @ rest)) \<and>
    length (sub_queue sub) \<le> 256 \<and> list_all (\<lambda>item. sub_min_level sub \<le> li_levelno item) (sub_pushed sub)"
  using run_ok [of ops bufsize streams] assms
  unfolding bus_ok_def sub_ok_def explained_def LOG_QUEUE_SIZE_def by blast

definition warn_record :: log_record where
  "warn_record = \<lparr>lr_created = 0, lr_levelname = ''WARNING'', lr_levelno = 30, lr_name = ''zorkbot'', lr_formatted = Some ''late''\<rparr>"

theorem log_gaps_marked_witness:
  "case map_of (lb_objects (fold log_step [Open_log ''info'', Emit 0 warn_record, Post 0, Callback] (new_log_bus 500 2))) 0 of
     None \<Rightarrow> False
   | Some sub \<Rightarrow> length (sub_queue sub) \<le> 256 \<and> length (sub_pushed sub) = 1"
proof -
  let ?b = "fold log_step [Open_log ''info'', Emit 0 warn_record, Post 0, Callback] (new_log_bus 500 2)"
  have level: "parse_level ''info'' = Some 20"
    by code_simp
  have "\<exists>sub. map_of (lb_objects ?b) 0 = Some sub \<and> length (sub_pushed sub) = 1"
    by (simp add: stream_logs_def level log_can_subscribe_def new_log_bus_def log_subscribe_def Let_def emit_locked_def emit_post_def
        run_callback_def on_object_def offer_item_def render_def warn_record_def LOG_QUEUE_SIZE_def MAX_MESSAGE_CHARS_def)
  then obtain sub where sub: "map_of (lb_objects ?b) 0 = Some sub" "length (sub_pushed sub) = 1" by blast
  from log_gaps_marked [OF sub(1)] sub show ?thesis by simp
qed

text \<open>
  The order of the stream is the order of the hand-offs, not of the numbering: two records logged
  on two threads at the same time, where the second to be numbered is the first to be handed to
  the event loop, reach every subscriber in the wrong order, while the ring has them in the
  right one.
\<close>

theorem log_overtaking:
  assumes "map_of (lb_objects b) q = Some \<lparr>sub_min_level = m, sub_queue = [], sub_dropped = 0, sub_offered = [], sub_pushed = []\<rparr>"
    and "lb_subs b = [q]" and "lb_loop b" and "posting b = []" and "scheduled b = []" and "t1 \<noteq> t2" and "2 \<le> lb_size b"
    and "m \<le> lr_levelno r1" and "m \<le> lr_levelno r2"
    and "b' = fold log_step [Emit t1 r1, Emit t2 r2, Post t2, Post t1, Callback, Callback] b"
  shows "(\<exists>sub. map_of (lb_objects b') q = Some sub \<and> map li_seq (sub_queue sub) = [lb_next_seq b + 1, lb_next_seq b]) \<and>
    map li_seq (last_n 2 (lb_buffer b')) = [lb_next_seq b, lb_next_seq b + 1]"
proof -
  let ?i1 = "(render r1)\<lparr>li_seq := lb_next_seq b\<rparr>" and ?i2 = "(render r2)\<lparr>li_seq := Suc (lb_next_seq b)\<rparr>"
  have levels: "li_levelno ?i1 = lr_levelno r1" "li_levelno ?i2 = lr_levelno r2" by (simp_all add: render_def Let_def)
  have objects: "lb_objects b' = on_object q (offer_item ?i1) (on_object q (offer_item ?i2) (lb_objects b))"
    and ring: "lb_buffer b' = ring_append (lb_size b) ?i2 (ring_append (lb_size b) ?i1 (lb_buffer b))"
    using assms(2-6,10) by (simp_all add: emit_locked_def emit_post_def run_callback_def Let_def)
  have "lb_buffer b' = last_n (lb_size b) (lb_buffer b @ [?i1, ?i2])"
    unfolding ring by (simp add: ring_append_last_n last_n_last_n_append)
  then have "last_n 2 (lb_buffer b') = [?i1, ?i2]"
    using assms(7) by (auto simp: last_n_def min_def)
  then show ?thesis
    using assms(1,8,9) levels unfolding objects by (simp add: on_object_map offer_item_def Let_def LOG_QUEUE_SIZE_def)
qed

theorem log_overtaking_witness:
  "\<exists>sub. map_of (lb_objects (fold log_step [Emit 1 warn_record, Emit 2 warn_record, Post 2, Post 1, Callback, Callback]
     (snd (log_subscribe 20 (new_log_bus 500 2))))) 0 = Some sub \<and> map li_seq (sub_queue sub) = [2, 1]"
proof -
  let ?b = "snd (log_subscribe 20 (new_log_bus 500 2))"
  have "map_of (lb_objects ?b) 0 = Some \<lparr>sub_min_level = 20, sub_queue = [], sub_dropped = 0, sub_offered = [], sub_pushed = []\<rparr>"
    "lb_subs ?b = [0]" "lb_loop ?b" "posting ?b = []" "scheduled ?b = []" "lb_size ?b = 500" "lb_next_seq ?b = 1"
    by (simp_all add: log_subscribe_def new_log_bus_def Let_def)
  with log_overtaking [of ?b 0 20 1 2 warn_record warn_record, OF _ _ _ _ _ _ _ _ _ refl] show ?thesis
    by (simp add: warn_record_def numeral_2_eq_2 del: log_step.simps)
qed

end
