(* ===== verification/Admin_Stats.thy ===== *)
theory Admin_Stats
  imports Event_Store Admin_Access
begin

text \<open>
  The charts of the admin console, \<^verbatim>\<open>src/zorkbot/src/zorkbot/admin/routes/stats.py\<close>, over the tables of
  \<open>Event_Store\<close>. Each series is a list of points: the start of a time bucket with two
  counters, whose names depend on the series.
\<close>

section \<open>Range and buckets\<close>

definition MAX_POINTS :: int where
  "MAX_POINTS = 5000"

definition VALID_TRANSPORTS :: "string list" where
  "VALID_TRANSPORTS = [''dm'', ''channel'', ''both'']"

definition VALID_DIRECTIONS :: "string list" where
  "VALID_DIRECTIONS = [''rx'', ''tx'']"

definition bad_request :: "string \<Rightarrow> http_error" where
  "bad_request description = Http_error 400 ''invalid_request'' description"

definition stats_range :: "real \<Rightarrow> int option \<Rightarrow> int option \<Rightarrow> string \<Rightarrow> http_error + int \<times> int \<times> int" where
  "stats_range wall from_opt to_opt bucket =
     (case bucket_seconds bucket of
        None \<Rightarrow> Inl (bad_request (''invalid bucket: '' @ py_repr bucket))
      | Some bs \<Rightarrow>
          (let hi = (case to_opt of None \<Rightarrow> trunc wall | Some t \<Rightarrow> t);
               lo = (case from_opt of None \<Rightarrow> hi - 86400 | Some t \<Rightarrow> t)
           in if hi < lo then Inl (bad_request ([CHR 0x27] @ ''to'' @ [CHR 0x27] @ '' must be >= '' @ [CHR 0x27] @ ''from'' @ [CHR 0x27]))
              else if (hi - lo) div bs + 1 > MAX_POINTS
              then Inl (bad_request (''range too wide for bucket='' @ py_repr bucket @ '' (max '' @ str_int MAX_POINTS @ '' points)''))
              else Inr (lo, hi, bs)))"

definition align :: "int \<Rightarrow> int \<Rightarrow> int" where
  "align bs t = t - t mod bs"

text \<open>The loop of \<open>_zero_fill\<close>; it ends because a bucket has a positive length.\<close>

function zero_times :: "int \<Rightarrow> int \<Rightarrow> int \<Rightarrow> int list" where
  "zero_times t hi bs = (if 0 < bs \<and> t \<le> hi then t # zero_times (t + bs) hi bs else [])"
  by pat_completeness auto
termination by (relation "measure (\<lambda>(t, hi, bs). nat (hi - t + 1))") auto

declare zero_times.simps [simp del]

type_synonym counts = "nat \<times> nat"

definition zero_fill :: "int \<Rightarrow> int \<Rightarrow> int \<Rightarrow> (int \<times> counts) list" where
  "zero_fill lo hi bs = fold (\<lambda>t. AList.update t (0, 0)) (zero_times (align bs lo) hi bs) []"

text \<open>One row: \<open>buckets.setdefault(t, zeros)\<close>, then the counters are increased.\<close>

definition bump :: "int \<Rightarrow> int \<times> counts \<Rightarrow> (int \<times> counts) list \<Rightarrow> (int \<times> counts) list" where
  "bump bs row buckets =
     (case row of (tm, a, b) \<Rightarrow>
        let t = align bs tm; old = (case map_of buckets t of None \<Rightarrow> (0, 0) | Some c \<Rightarrow> c)
        in AList.update t (fst old + a, snd old + b) buckets)"

definition points :: "(int \<times> counts) list \<Rightarrow> (int \<times> counts) list" where
  "points buckets = sort_key fst buckets"

definition between :: "int \<Rightarrow> int \<Rightarrow> int \<Rightarrow> bool" where
  "between lo hi t \<longleftrightarrow> lo \<le> t \<and> t \<le> hi"

section \<open>The series\<close>

definition started_rows :: "int \<Rightarrow> int \<Rightarrow> event_db \<Rightarrow> (int \<times> counts) list" where
  "started_rows lo hi db =
     map (\<lambda>r. (sr_started_at r, 1, 0)) (filter (\<lambda>r. between lo hi (sr_started_at r)) (sessions_tab db))"

definition ended_rows :: "int \<Rightarrow> int \<Rightarrow> event_db \<Rightarrow> (int \<times> counts) list" where
  "ended_rows lo hi db =
     map (\<lambda>t. (t, 0, 1)) (filter (between lo hi) (List.map_filter sr_ended_at (sessions_tab db)))"

text \<open>Two queries with an await between them: the store may have grown when the second one runs.\<close>

definition stats_sessions ::
  "real \<Rightarrow> int option \<Rightarrow> int option \<Rightarrow> string \<Rightarrow> event_db \<Rightarrow> event_db \<Rightarrow> http_error + (int \<times> counts) list" where
  "stats_sessions wall from_opt to_opt bucket db db' =
     (case stats_range wall from_opt to_opt bucket of
        Inl e \<Rightarrow> Inl e
      | Inr (lo, hi, bs) \<Rightarrow>
          Inr (points (fold (bump bs) (ended_rows lo hi db') (fold (bump bs) (started_rows lo hi db) (zero_fill lo hi bs)))))"

definition message_points :: "int \<Rightarrow> int \<Rightarrow> string \<Rightarrow> string \<Rightarrow> event_db \<Rightarrow> (int \<times> counts) list" where
  "message_points lo hi direction transport db =
     map (\<lambda>r. (mg_at r, 1, mg_chars r))
       (filter (\<lambda>r. mg_direction r = direction \<and> between lo hi (mg_at r) \<and>
          (transport \<noteq> ''both'' \<longrightarrow> mg_transport r = transport)) (messages_tab db))"

definition stats_messages ::
  "real \<Rightarrow> int option \<Rightarrow> int option \<Rightarrow> string \<Rightarrow> string \<Rightarrow> string \<Rightarrow> event_db \<Rightarrow> http_error + (int \<times> counts) list" where
  "stats_messages wall from_opt to_opt bucket direction transport db =
     (if direction \<notin> set VALID_DIRECTIONS then Inl (bad_request (''invalid direction: '' @ py_repr direction))
      else if transport \<notin> set VALID_TRANSPORTS then Inl (bad_request (''invalid transport: '' @ py_repr transport))
      else case stats_range wall from_opt to_opt bucket of
        Inl e \<Rightarrow> Inl e
      | Inr (lo, hi, bs) \<Rightarrow>
          Inr (points (fold (bump bs) (message_points lo hi direction transport db) (zero_fill lo hi bs))))"

definition delivery_points :: "int \<Rightarrow> int \<Rightarrow> event_db \<Rightarrow> (int \<times> counts) list" where
  "delivery_points lo hi db =
     map (\<lambda>r. if mg_acked r = Some True then (mg_at r, 1, 0) else (mg_at r, 0, 1))
       (filter (\<lambda>r. mg_direction r = ''tx'' \<and> mg_acked r \<noteq> None \<and> between lo hi (mg_at r)) (messages_tab db))"

definition stats_delivery ::
  "real \<Rightarrow> int option \<Rightarrow> int option \<Rightarrow> string \<Rightarrow> event_db \<Rightarrow> http_error + (int \<times> counts) list" where
  "stats_delivery wall from_opt to_opt bucket db =
     (case stats_range wall from_opt to_opt bucket of
        Inl e \<Rightarrow> Inl e
      | Inr (lo, hi, bs) \<Rightarrow> Inr (points (fold (bump bs) (delivery_points lo hi db) (zero_fill lo hi bs))))"

definition command_points :: "int \<Rightarrow> int \<Rightarrow> string option \<Rightarrow> string \<Rightarrow> event_db \<Rightarrow> (int \<times> counts) list" where
  "command_points lo hi command transport db =
     map (\<lambda>r. if cm_accepted r then (cm_at r, 1, 0) else (cm_at r, 0, 1))
       (filter (\<lambda>r. between lo hi (cm_at r) \<and>
          (case command of None \<Rightarrow> True | Some c \<Rightarrow> cm_command r = c) \<and>
          (transport \<noteq> ''both'' \<longrightarrow> cm_transport r = transport)) (commands_tab db))"

definition stats_commands ::
  "real \<Rightarrow> int option \<Rightarrow> int option \<Rightarrow> string \<Rightarrow> string option \<Rightarrow> string \<Rightarrow> event_db \<Rightarrow> http_error + (int \<times> counts) list" where
  "stats_commands wall from_opt to_opt bucket command transport db =
     (if transport \<notin> set VALID_TRANSPORTS then Inl (bad_request (''invalid transport: '' @ py_repr transport))
      else case stats_range wall from_opt to_opt bucket of
        Inl e \<Rightarrow> Inl e
      | Inr (lo, hi, bs) \<Rightarrow>
          Inr (points (fold (bump bs) (command_points lo hi command transport db) (zero_fill lo hi bs))))"

section \<open>What a series contains\<close>

lemma align_props:
  assumes "0 < bs"
  shows "align bs t \<le> t" and "t < align bs t + bs" and "bs dvd align bs t"
proof -
  show "align bs t \<le> t" "t < align bs t + bs"
    using pos_mod_sign [OF assms, of t] pos_mod_bound [OF assms, of t] unfolding align_def by linarith+
  show "bs dvd align bs t" by (simp add: align_def minus_mod_eq_mult_div)
qed

lemma align_unique:
  assumes "0 < bs" and "bs dvd t" and "t \<le> tm" and "tm < t + bs"
  shows "align bs tm = t"
proof -
  from assms(2) obtain k where k: "t = bs * k" by (elim dvdE)
  have "tm mod bs = (tm - t) mod bs" using k by (simp add: mod_diff_cong mod_mult_self2 [symmetric] mod_diff_eq [symmetric])
  also have "\<dots> = tm - t" using assms by (intro mod_pos_pos_trivial) simp_all
  finally show ?thesis by (simp add: align_def)
qed

lemma align_mono: "0 < bs \<Longrightarrow> s \<le> t \<Longrightarrow> align bs s \<le> align bs t"
proof -
  assume bs: "0 < bs" and "s \<le> t"
  have "align bs x = bs * (x div bs)" for x by (simp add: align_def minus_mod_eq_mult_div)
  then show ?thesis using bs \<open>s \<le> t\<close> by (simp add: zdiv_mono1)
qed

lemma set_zero_times: "0 < bs \<Longrightarrow> set (zero_times t hi bs) = {x. t \<le> x \<and> x \<le> hi \<and> bs dvd x - t}"
proof (induction t hi bs rule: zero_times.induct)
  case (1 t hi bs)
  show ?case
  proof (cases "t \<le> hi")
    case True
    have "set (zero_times t hi bs) = insert t {x. t + bs \<le> x \<and> x \<le> hi \<and> bs dvd x - (t + bs)}"
      using 1 True by (subst zero_times.simps) simp
    also have "\<dots> = {x. t \<le> x \<and> x \<le> hi \<and> bs dvd x - t}"
    proof (intro set_eqI iffI)
      have shift: "bs dvd x - (t + bs) \<longleftrightarrow> bs dvd x - t" for x
        using dvd_add_left_iff [of bs bs "x - (t + bs)"] by simp
      fix x assume x: "x \<in> insert t {x. t + bs \<le> x \<and> x \<le> hi \<and> bs dvd x - (t + bs)}"
      then show "x \<in> {x. t \<le> x \<and> x \<le> hi \<and> bs dvd x - t}"
        using True 1(2) by (auto simp: shift)
    next
      fix x assume x: "x \<in> {x. t \<le> x \<and> x \<le> hi \<and> bs dvd x - t}"
      have step: "bs dvd x - (t + bs)" using x dvd_diff [of bs "x - t" bs] by (simp add: algebra_simps)
      show "x \<in> insert t {x. t + bs \<le> x \<and> x \<le> hi \<and> bs dvd x - (t + bs)}"
      proof (cases "x = t")
        case False
        then have "0 < x - t" using x by simp
        then have "bs \<le> x - t" using x zdvd_imp_le [of bs "x - t"] by blast
        then show ?thesis using x step by simp
      qed simp
    qed
    finally show ?thesis .
  qed (auto simp: zero_times.simps)
qed

lemma sorted_zero_times: "0 < bs \<Longrightarrow> sorted_wrt (<) (zero_times t hi bs)"
proof (induction t hi bs rule: zero_times.induct)
  case (1 t hi bs)
  then show ?case by (subst zero_times.simps) (auto simp: set_zero_times)
qed

lemma length_zero_times: "0 < bs \<Longrightarrow> int (length (zero_times t hi bs)) = (if t \<le> hi then (hi - t) div bs + 1 else 0)"
proof (induction t hi bs rule: zero_times.induct)
  case (1 t hi bs)
  have "(hi - (t + bs)) div bs + 1 = (hi - t) div bs"
    using 1(2) div_add_self2 [of bs "hi - (t + bs)"] by simp
  moreover have "(hi - t) div bs = 0" if "t \<le> hi" "\<not> t + bs \<le> hi"
    using that by (intro div_pos_pos_trivial) simp_all
  ultimately show ?case using 1 by (subst zero_times.simps) auto
qed

lemma zero_fill_map:
  "zero_fill lo hi bs = map (\<lambda>t. (t, 0, 0)) (zero_times (align bs lo) hi bs)"
proof -
  have "fold (\<lambda>t. AList.update t (0, 0)) ts al = al @ map (\<lambda>t. (t, 0, 0)) ts"
    if "distinct ts" "set ts \<inter> fst ` set al = {}" for ts :: "int list" and al :: "(int \<times> counts) list"
    using that
  proof (induction ts arbitrary: al)
    case (Cons t ts)
    have "AList.update t (0, 0) al = al @ [(t, 0, 0)]"
      using Cons.prems by (intro alist_update_fresh) (auto simp: map_of_eq_None_iff)
    then show ?case using Cons by auto
  qed simp
  moreover have "distinct (zero_times (align bs lo) hi bs)"
  proof (cases "0 < bs")
    case True
    then show ?thesis using sorted_zero_times strict_sorted_iff by blast
  qed (simp add: zero_times.simps)
  ultimately show ?thesis by (simp add: zero_fill_def)
qed

text \<open>A table with one entry per bucket of \<open>ts\<close>, whose counters are given by \<open>f\<close>.\<close>

definition table :: "int list \<Rightarrow> (int \<Rightarrow> counts) \<Rightarrow> (int \<times> counts) list" where
  "table ts f = map (\<lambda>t. (t, f t)) ts"

lemma map_of_table: "map_of (table ts f) t = (if t \<in> set ts then Some (f t) else None)"
  by (induction ts) (auto simp: table_def)

lemma update_table: "t \<in> set ts \<Longrightarrow> distinct ts \<Longrightarrow> AList.update t v (table ts f) = table ts (f(t := v))"
proof (induction ts)
  case (Cons s ts)
  then show ?case by (cases "s = t") (auto simp: table_def intro: map_cong)
qed simp

definition row_total :: "int \<Rightarrow> (int \<times> counts) list \<Rightarrow> int \<Rightarrow> counts" where
  "row_total bs rows t =
     (\<Sum>(tm, a, b) \<leftarrow> filter (\<lambda>(tm, _). align bs tm = t) rows. a, \<Sum>(tm, a, b) \<leftarrow> filter (\<lambda>(tm, _). align bs tm = t) rows. b)"

text \<open>The reference: each bucket of the range once, in order, with the totals of its rows.\<close>

definition series :: "int \<Rightarrow> int \<Rightarrow> int \<Rightarrow> (int \<times> counts) list \<Rightarrow> (int \<times> counts) list" where
  "series lo hi bs rows = table (zero_times (align bs lo) hi bs) (row_total bs rows)"

lemma bump_table:
  assumes "distinct ts" and "align bs (fst row) \<in> set ts"
  shows "bump bs row (table ts f) =
    table ts (f(align bs (fst row) := (fst (f (align bs (fst row))) + fst (snd row), snd (f (align bs (fst row))) + snd (snd row))))"
  using assms by (cases row) (simp add: bump_def map_of_table update_table Let_def)

lemma fold_bump_table:
  assumes "distinct ts" and "\<And>row. row \<in> set rows \<Longrightarrow> align bs (fst row) \<in> set ts"
  shows "fold (bump bs) rows (table ts f) =
    table ts (\<lambda>t. (fst (f t) + fst (row_total bs rows t), snd (f t) + snd (row_total bs rows t)))"
  using assms(2)
proof (induction rows arbitrary: f)
  case (Cons row rows)
  obtain tm a b where row: "row = (tm, a, b)" by (cases row)
  have "bump bs row (table ts f) = table ts (f(align bs tm := (fst (f (align bs tm)) + a, snd (f (align bs tm)) + b)))"
    using bump_table [OF assms(1), of bs row f] Cons.prems [of row] row by simp
  then show ?case using Cons row by (simp add: row_total_def fun_upd_def if_distrib cong: if_cong) (simp add: table_def)
qed (simp add: row_total_def)

lemma row_total_append:
  "row_total bs (xs @ ys) t = (fst (row_total bs xs t) + fst (row_total bs ys t), snd (row_total bs xs t) + snd (row_total bs ys t))"
  by (simp add: row_total_def)

lemma series_table:
  assumes "0 < bs" and "lo \<le> hi" and "\<And>row. row \<in> set rows \<Longrightarrow> between lo hi (fst row)"
  shows "points (fold (bump bs) rows (zero_fill lo hi bs)) = series lo hi bs rows"
proof -
  let ?ts = "zero_times (align bs lo) hi bs"
  have sorted: "sorted_wrt (<) ?ts" using assms(1) by (rule sorted_zero_times)
  then have "distinct ?ts" using strict_sorted_iff by blast
  moreover have "align bs (fst row) \<in> set ?ts" if "row \<in> set rows" for row
  proof -
    have row: "lo \<le> fst row" "fst row \<le> hi" using assms(3) [OF that] by (simp_all add: between_def)
    have "bs dvd align bs (fst row) - align bs lo" using align_props(3) [OF assms(1)] by (intro dvd_diff)
    then show ?thesis
      using row align_props(1) [OF assms(1), of "fst row"] align_mono [OF assms(1) row(1)] by (simp add: set_zero_times [OF assms(1)])
  qed
  moreover have "zero_fill lo hi bs = table ?ts (\<lambda>_. (0, 0))" by (simp add: zero_fill_map table_def)
  ultimately have "fold (bump bs) rows (zero_fill lo hi bs) = table ?ts (row_total bs rows)"
    by (simp add: fold_bump_table)
  moreover have "sorted (map fst (table ?ts f))" for f :: "int \<Rightarrow> counts"
    using sorted strict_sorted_imp_sorted by (simp add: table_def comp_def)
  ultimately show ?thesis by (simp add: points_def series_def sorted_sort_id sort_key_id_if_sorted)
qed

lemma range_ok:
  assumes "stats_range wall from_opt to_opt bucket = Inr (lo, hi, bs)"
  shows "0 < bs" and "lo \<le> hi" and "(hi - lo) div bs + 1 \<le> MAX_POINTS"
proof -
  obtain b where b: "bucket_seconds bucket = Some b"
    using assms by (cases "bucket_seconds bucket") (simp_all add: stats_range_def)
  show "0 < bs" using assms b
    by (simp add: stats_range_def Let_def bucket_seconds_def VALID_BUCKETS_def split: if_splits)
  show "lo \<le> hi" "(hi - lo) div bs + 1 \<le> MAX_POINTS" using assms b
    by (simp_all add: stats_range_def Let_def split: if_splits)
qed

lemma rows_between:
  "row \<in> set (started_rows lo hi db) \<Longrightarrow> between lo hi (fst row)"
  "row \<in> set (ended_rows lo hi db) \<Longrightarrow> between lo hi (fst row)"
  "row \<in> set (delivery_points lo hi db) \<Longrightarrow> between lo hi (fst row)"
  "row \<in> set (message_points lo hi direction transport db) \<Longrightarrow> between lo hi (fst row)"
  "row \<in> set (command_points lo hi command transport db) \<Longrightarrow> between lo hi (fst row)"
  by (auto simp: started_rows_def ended_rows_def delivery_points_def message_points_def command_points_def
      split: if_split_asm)

text \<open>Each chart is the reference series of its rows.\<close>

lemma chart_series:
  assumes "stats_range wall from_opt to_opt bucket = Inr (lo, hi, bs)"
  shows "stats_sessions wall from_opt to_opt bucket db db' = Inr (series lo hi bs (started_rows lo hi db @ ended_rows lo hi db'))"
    and "stats_delivery wall from_opt to_opt bucket db = Inr (series lo hi bs (delivery_points lo hi db))"
    and "direction \<in> set VALID_DIRECTIONS \<Longrightarrow> transport \<in> set VALID_TRANSPORTS \<Longrightarrow>
      stats_messages wall from_opt to_opt bucket direction transport db =
        Inr (series lo hi bs (message_points lo hi direction transport db))"
    and "transport \<in> set VALID_TRANSPORTS \<Longrightarrow>
      stats_commands wall from_opt to_opt bucket command transport db =
        Inr (series lo hi bs (command_points lo hi command transport db))"
proof -
  note chart = series_table [OF range_ok(1,2) [OF assms(1)]]
  have "points (fold (bump bs) (started_rows lo hi db @ ended_rows lo hi db') (zero_fill lo hi bs)) =
      series lo hi bs (started_rows lo hi db @ ended_rows lo hi db')"
    by (rule chart) (auto dest: rows_between)
  then show "stats_sessions wall from_opt to_opt bucket db db' =
      Inr (series lo hi bs (started_rows lo hi db @ ended_rows lo hi db'))"
    using assms by (simp add: stats_sessions_def)
qed (use assms in \<open>simp_all add: stats_delivery_def stats_messages_def stats_commands_def
    series_table [OF range_ok(1,2) [OF assms(1)]] rows_between\<close>)

text \<open>
  C26. Every chart is exactly what it claims: for an accepted range, the points are the buckets of the
  range in ascending order, one each without gaps, and the two counters of a bucket are the
  totals over the rows that fall into it; sessions count starts and ends, messages count packets
  and characters, delivery counts acknowledged and unacknowledged transmissions, commands
  count accepted and rejected ones.
\<close>

theorem series_exact:
  assumes "stats_range wall from_opt to_opt bucket = Inr (lo, hi, bs)"
  shows "stats_sessions wall from_opt to_opt bucket db db' =
      Inr (series lo hi bs (started_rows lo hi db @ ended_rows lo hi db')) \<and>
    stats_delivery wall from_opt to_opt bucket db = Inr (series lo hi bs (delivery_points lo hi db)) \<and>
    stats_messages wall from_opt to_opt bucket direction transport db =
      (if direction \<notin> set VALID_DIRECTIONS then Inl (bad_request (''invalid direction: '' @ py_repr direction))
       else if transport \<notin> set VALID_TRANSPORTS then Inl (bad_request (''invalid transport: '' @ py_repr transport))
       else Inr (series lo hi bs (message_points lo hi direction transport db))) \<and>
    stats_commands wall from_opt to_opt bucket command transport db =
      (if transport \<notin> set VALID_TRANSPORTS then Inl (bad_request (''invalid transport: '' @ py_repr transport))
       else Inr (series lo hi bs (command_points lo hi command transport db)))"
  using chart_series [OF assms] by (simp add: stats_messages_def stats_commands_def)

theorem series_exact_witness:
  "stats_delivery 0 (Some 100) (Some 130) ''minute'' empty_db = Inr [(60, 0, 0), (120, 0, 0)]"
proof -
  have "stats_range 0 (Some 100) (Some 130) ''minute'' = Inr (100, 130, 60)"
    by (simp add: stats_range_def bucket_seconds_def VALID_BUCKETS_def MAX_POINTS_def)
  from series_exact [OF this, of empty_db] show ?thesis
    by (simp add: series_def align_def zero_times.simps table_def row_total_def delivery_points_def empty_db_def)
qed

text \<open>
  The number of points of a chart is bounded, by one more than the limit the refusal names: the
  range test counts from the start of the range, the chart from the start of its first
  bucket.
\<close>

theorem series_bound:
  assumes "stats_range wall from_opt to_opt bucket = Inr (lo, hi, bs)"
  shows "int (length (zero_times (align bs lo) hi bs)) \<le> MAX_POINTS + 1 \<and>
    stats_range wall (Some 59) (Some 300000) ''minute'' = Inr (59, 300000, 60) \<and>
    int (length (zero_times (align 60 59) 300000 60)) = MAX_POINTS + 1"
proof -
  note r = range_ok [OF assms]
  have "align bs lo \<le> hi" using align_props(1) [OF r(1), of lo] r(2) by simp
  then have len: "int (length (zero_times (align bs lo) hi bs)) = (hi - align bs lo) div bs + 1"
    by (simp add: length_zero_times [OF r(1)])
  have "(hi - align bs lo) div bs \<le> (hi - lo + bs) div bs"
    using align_props(2) [OF r(1), of lo] r(1) by (intro zdiv_mono1) simp_all
  also have "\<dots> = (hi - lo) div bs + 1" using r(1) by simp
  finally have "int (length (zero_times (align bs lo) hi bs)) \<le> MAX_POINTS + 1" using len r(3) by (simp add: MAX_POINTS_def)
  then show ?thesis
    by (simp add: stats_range_def bucket_seconds_def VALID_BUCKETS_def MAX_POINTS_def length_zero_times align_def)
qed

theorem series_bound_witness: "int (length (zero_times (align 60 100) 130 60)) \<le> MAX_POINTS + 1"
  using series_bound [of 0 "Some 100" "Some 130" "''minute''" 100 130 60]
  by (simp add: stats_range_def bucket_seconds_def VALID_BUCKETS_def MAX_POINTS_def)

end
