(* ===== verification/Whole_Bot.thy ===== *)
theory Whole_Bot
  imports Bot_Interleaving Bot_Queues
begin

text \<open>
  The bot of \<^verbatim>\<open>src/zorkbot/src/zorkbot/bot.py\<close> with its queues and its handlers on one time line: messages are
  dispatched, workers take commands from their queues, and the commands they handle, the poller's
  reconciliations, the watcher jobs and the roll calls change the registry, each interrupted at its awaits by the
  others. That two commands of one sender are never handled at once, which the theory of interleavings
  assumes, follows here from the queues.
\<close>

section \<open>Time lines\<close>

text \<open>
  \<open>Player p n\<close> is what the worker of the queue \<open>p\<close> handles after \<open>n\<close> commands; \<open>Background k\<close> any other task. A
  moment is a step of the queues or a change of the registry.
\<close>

datatype who = Player string nat | Background nat

datatype moment = Queues bot_event | Changes who session_state session_state

fun changes_of :: "moment list \<Rightarrow> who change list" where
  "changes_of [] = []"
| "changes_of (Queues ev # ms) = changes_of ms"
| "changes_of (Changes w a b # ms) = (w, a, b) # changes_of ms"

fun queue_events :: "moment list \<Rightarrow> bot_event list" where
  "queue_events [] = []"
| "queue_events (Queues ev # ms) = ev # queue_events ms"
| "queue_events (Changes w a b # ms) = queue_events ms"

definition queues_after :: "bot_config \<Rightarrow> moment list \<Rightarrow> bot_state" where
  "queues_after cfg ms = fold bot_step (queue_events ms) (new_bot cfg)"

definition serving :: "string \<Rightarrow> nat \<Rightarrow> work_item \<Rightarrow> bot_state \<Rightarrow> bool" where
  "serving p n item b \<longleftrightarrow>
     map_of (bs_workers b) p = Some (Handling item) \<and> length (filter (\<lambda>x. fst x = p) (served b)) = n"

text \<open>
  Somebody's part of a time line: a stretch of it in which it runs, from the state it began in up to some
  await or its end; outside it changes nothing. A worker's part lies within the time it handles that command.
\<close>

definition part_fits :: "bot_config \<Rightarrow> moment list \<Rightarrow> moment list \<Rightarrow> who \<Rightarrow> activity \<Rightarrow> bool" where
  "part_fits cfg before during w act \<longleftrightarrow>
     (case w of
        Player p n \<Rightarrow> (\<exists>item t0. act = Command_run t0 (wi_ctx item) (wi_command item) (wi_args item) \<and>
          (\<forall>k \<le> length during. serving p n item (queues_after cfg (before @ take k during))))
      | Background k \<Rightarrow> activity_key act = None)"

definition has_part :: "bot_config \<Rightarrow> (who \<Rightarrow> activity) \<Rightarrow> session_state \<Rightarrow> moment list \<Rightarrow> who \<Rightarrow> bool" where
  "has_part cfg acts st0 line w \<longleftrightarrow>
     (\<exists>before during later st cur env m. line = before @ during @ later \<and> chain st0 (changes_of before) st \<and>
        w \<notin> fst ` set (changes_of before) \<and> w \<notin> fst ` set (changes_of later) \<and>
        sees w st (take m (moves (snd (run_activity (acts w) env (fresh_world st))))) (changes_of during) cur \<and>
        part_fits cfg before during w (acts w))"

definition lived :: "bot_config \<Rightarrow> (who \<Rightarrow> activity) \<Rightarrow> session_state \<Rightarrow> moment list \<Rightarrow> session_state \<Rightarrow> bool" where
  "lived cfg acts st0 line st \<longleftrightarrow>
     chain st0 (changes_of line) st \<and> (\<forall>w \<in> fst ` set (changes_of line). has_part cfg acts st0 line w)"

section \<open>Queues keep senders apart\<close>

definition keyed :: "bot_state \<Rightarrow> bool" where
  "keyed b \<longleftrightarrow> (\<forall>(p, item) \<in> set (accepted b). p = queue_key (wi_ctx item))"

lemma keyed_enqueue: "keyed b \<Longrightarrow> keyed (snd (enqueue ctx c a b))"
  using enqueue_accepted [of ctx c a b] by (fastforce simp: keyed_def)

lemma keyed_step: "keyed b \<Longrightarrow> keyed (bot_step ev b)"
proof (cases ev)
  case (Channel_msg m)
  assume "keyed b"
  then show ?thesis using Channel_msg keyed_enqueue [of b]
    by (auto simp: dispatch_channel_def split_beta sink_push_def keyed_def split: option.split)
next
  case (Bots_msg now m)
  assume "keyed b"
  moreover have "accepted (snd (dispatch_bots_channel now m b)) = accepted b"
    by (auto simp: dispatch_bots_channel_def Let_def split_beta sink_push_def split: option.split)
  ultimately show ?thesis using Bots_msg by (simp add: keyed_def)
next
  case (Dm_msg m)
  assume "keyed b"
  then show ?thesis using Dm_msg keyed_enqueue [of b] by (simp add: dispatch_dm_def Let_def split_beta)
next
  case (Worker_runs p)
  assume "keyed b"
  moreover have "accepted (worker_step p b) = accepted b"
    by (auto simp: worker_step_def worker_next_def split: option.split worker.split list.split)
  ultimately show ?thesis using Worker_runs by (simp add: keyed_def)
qed

lemma keyed_run: "keyed (queues_after cfg ms)"
proof -
  have "keyed (fold bot_step evs b)" if "keyed b" for evs b
    using that by (induction evs arbitrary: b) (simp_all add: keyed_step)
  moreover have "keyed (new_bot cfg)" by (simp add: keyed_def new_bot_def)
  ultimately show ?thesis by (simp add: queues_after_def)
qed

lemma serving_keyed:
  assumes "serving p n item (queues_after cfg ms)"
  shows "p = queue_key (wi_ctx item)"
proof -
  let ?b = "queues_after cfg ms"
  have "lane_ok (lane p ?b)" unfolding queues_after_def by (rule lanes_ok_run)
  then have "item \<in> set (map snd (filter (\<lambda>x. fst x = p) (accepted ?b)))"
    using assms by (simp add: lane_def serving_def)
  then show ?thesis using keyed_run [of cfg ms] by (auto simp: keyed_def)
qed

lemma same_sender_same_queue: "sender_key c = sender_key c' \<Longrightarrow> queue_key c = queue_key c'"
  by (auto simp: sender_key_def queue_key_def or_else_def split: option.splits)

lemma changes_append: "changes_of (xs @ ys) = changes_of xs @ changes_of ys"
  by (induction xs rule: changes_of.induct) simp_all

lemma change_moment: "(w, a, b) \<in> set (changes_of ms) \<longleftrightarrow> Changes w a b \<in> set ms"
  by (induction ms rule: changes_of.induct) auto

lemma player_key: "part_fits cfg before during (Player p n) act \<Longrightarrow> activity_key act \<noteq> None"
  by (auto simp: part_fits_def)

text \<open>Two who change the registry for the same sender within the part of one of them are the same.\<close>

lemma nobody_else:
  assumes "line = before @ d1 @ Changes j a b # d2 @ later"
    and "part_fits cfg before (d1 @ Changes j a b # d2) i (acts i)"
    and "has_part cfg acts st0 line j"
    and "activity_key (acts i) = activity_key (acts j)" and "activity_key (acts j) \<noteq> None"
  shows "i = j"
proof -
  from assms(3) obtain before' during' later' where
    line: "line = before' @ during' @ later'" and outside: "j \<notin> fst ` set (changes_of before')" "j \<notin> fst ` set (changes_of later')"
    and part_fits: "part_fits cfg before' during' j (acts j)"
    unfolding has_part_def by blast
  have "Changes j a b \<notin> set before'" "Changes j a b \<notin> set later'"
    using outside change_moment by force+
  with middle_part [of before' during' later' "before @ d1" "Changes j a b" "d2 @ later"] obtain e1 e2 where
    e: "during' = e1 @ Changes j a b # e2" "before @ d1 = before' @ e1"
    using line assms(1) by auto
  obtain p n where i: "i = Player p n" using assms(2,4,5) by (cases i) (auto simp: part_fits_def)
  obtain p' n' where j: "j = Player p' n'" using part_fits assms(5) by (cases j) (auto simp: part_fits_def)
  obtain item t0 where item: "acts i = Command_run t0 (wi_ctx item) (wi_command item) (wi_args item)"
    "\<And>k. k \<le> length (d1 @ Changes j a b # d2) \<Longrightarrow> serving p n item (queues_after cfg (before @ take k (d1 @ Changes j a b # d2)))"
    using assms(2) i by (auto simp: part_fits_def)
  obtain item' t0' where item': "acts j = Command_run t0' (wi_ctx item') (wi_command item') (wi_args item')"
    "\<And>k. k \<le> length during' \<Longrightarrow> serving p' n' item' (queues_after cfg (before' @ take k during'))"
    using part_fits j by (auto simp: part_fits_def)
  have s: "serving p n item (queues_after cfg (before @ d1))" using item(2) [of "length d1"] by simp
  have s': "serving p' n' item' (queues_after cfg (before @ d1))" using item'(2) [of "length e1"] e by simp
  have "sender_key (wi_ctx item) = sender_key (wi_ctx item')" using assms(4) item(1) item'(1) by simp
  from same_sender_same_queue [OF this] have "p = p'" using serving_keyed [OF s] serving_keyed [OF s'] by simp
  then show ?thesis using s s' i j by (simp add: serving_def)
qed

lemma split_changes:
  "w \<in> fst ` set (changes_of ms) \<Longrightarrow> \<exists>d1 a b d2. ms = d1 @ Changes w a b # d2"
proof -
  assume "w \<in> fst ` set (changes_of ms)"
  then obtain a b where "(w, a, b) \<in> set (changes_of ms)" by (auto simp: image_iff)
  then have "Changes w a b \<in> set ms" by (simp only: change_moment)
  then show ?thesis using split_list by fast
qed

lemma lived_part: "lived cfg acts st0 line st \<Longrightarrow> w \<in> fst ` set (changes_of line) \<Longrightarrow> has_part cfg acts st0 line w"
  unfolding lived_def by blast

text \<open>So a time line is a joint run, with its assumption on senders discharged.\<close>

lemma lived_joint:
  assumes "lived cfg acts st0 line st"
  shows "joint acts st0 (changes_of line) st"
proof -
  have "takes_part acts st0 (changes_of line) i" if "i \<in> fst ` set (changes_of line)" for i
  proof -
    have "has_part cfg acts st0 line i" using lived_part [OF assms that] .
    then obtain before during later st1 cur env m where line: "line = before @ during @ later"
      and start: "chain st0 (changes_of before) st1"
      and outside: "i \<notin> fst ` set (changes_of before)" "i \<notin> fst ` set (changes_of later)"
      and seen: "sees i st1 (take m (moves (snd (run_activity (acts i) env (fresh_world st1))))) (changes_of during) cur"
      and fit: "part_fits cfg before during i (acts i)"
      unfolding has_part_def by blast
    have "activity_key (acts j) = None \<or> activity_key (acts j) \<noteq> activity_key (acts i)"
      if "j \<in> fst ` set (changes_of during)" "j \<noteq> i" for j
    proof -
      note j = that
      obtain d1 a b d2 where d: "during = d1 @ Changes j a b # d2" using split_changes [OF j(1)] by blast
      have "j \<in> fst ` set (changes_of line)" using j(1) by (auto simp: line changes_append)
      from nobody_else [of line before d1 j a b d2 later cfg i acts st0, OF _ _ lived_part [OF assms this]]
      show ?thesis using fit line d j(2) by (metis append.assoc append_Cons)
    qed
    then show ?thesis
      unfolding takes_part_def using start outside seen
      by (intro exI [of _ "changes_of before"] exI [of _ "changes_of during"] exI [of _ "changes_of later"] exI [of _ st1]
          exI [of _ cur] exI [of _ env] exI [of _ m]) (simp add: line changes_append)
  qed
  then show ?thesis using assms by (simp add: joint_def lived_def)
qed

end
