(* ===== verification/Live_System.thy ===== *)
theory Live_System
  imports Whole_Bot Shutdown
begin

text \<open>
  The bot and the console together: the commands, reconciliations and watcher jobs of
  \<^verbatim>\<open>src/zorkbot/src/zorkbot/bot.py\<close> on one time line with its queues, the registry they change, the event sink it reports to
  (\<^verbatim>\<open>admin/events.py\<close>) and the store the sink's writer fills (\<^verbatim>\<open>admin/store.py\<close>). What earlier theories prove
  of the parts is put together here: the states a time line leads to are states the registry's
  operations lead to, and for those the store follows the registry.
\<close>

section \<open>A player starts a game\<close>

text \<open>The moves of a coroutine only grow; so those up to a given point are the first ones.\<close>

interpretation growing: effect_laws "\<lambda>_. True" "\<lambda>w. prefix ms (moves w)" "\<lambda>_. True" p
  by unfold_locales simp_all

lemma start_registered_grows:
  assumes "length (moves w) = n"
  shows "take n (moves (snd (start_registered ctx p nm r env w))) = moves w"
proof -
  have "prefix (moves w) (moves (snd (start_registered ctx p nm r env w)))"
    using keepsD [OF growing.k_start_registered, where env = env and w = w] by simp
  then show ?thesis using assms by (auto simp: prefix_def)
qed

definition started_by :: "string \<Rightarrow> session_record" where
  "started_by p = \<lparr>num = 1, player_id = p, player_name = ''Ann'', started_at = 50, started_wall_at = 1700000000, watchers = []\<rparr>"

definition start_event :: "string \<Rightarrow> sink_event" where
  "start_event p = command_event (dm_ctx p ''!start'') ''start'' True None"

lemma active_state_fresh: "active_state p (emit ev (new_session_state m)) = ''none''"
  by (simp add: active_state_def new_session_state_def emit_def)

lemma start_moves:
  assumes "p \<noteq> []" and "st = new_session_state m"
  defines "st1 \<equiv> emit (start_event p) st"
  shows "take 4 (moves (snd (run_activity (Command_run 0 (dm_ctx p ''!start'') ''start'' []) (calm_env (ok_response t)) (fresh_world st)))) =
    [(True, st, st1), (False, st1, st1), (False, st1, st1), (True, st1, snd (add_session 50 1700000000 p ''Ann'' st1))]"
  using assms(1,2)
  by (simp add: bot_handle_def handle_start_def start_checked_def io_defs dm_ctx_def calm_env_def fresh_world_def truthy_def
      st1_def start_event_def send_advert_def start_session_def client_request_def response_json_def ok_response_def
      or_default_def is_success_def or_else_def Let_def active_state_fresh start_registered_grows)

text \<open>A direct message \<open>!start\<close>, from its arrival to the registration of the player.\<close>

definition start_message :: "string \<Rightarrow> incoming_message" where
  "start_message p = ctx_message (dm_ctx p ''!start'')"

definition start_line :: "string \<Rightarrow> int \<Rightarrow> moment list" where
  "start_line p m =
     (let st0 = new_session_state m; st1 = emit (start_event p) st0
      in [Queues (Dm_msg (start_message p)), Queues (Worker_runs p), Changes (Player p 0) st0 st1,
          Changes (Player p 0) st1 (snd (add_session 50 1700000000 p ''Ann'' st1))])"

definition start_activity :: "string \<Rightarrow> activity" where
  "start_activity p = Command_run 0 (dm_ctx p ''!start'') ''start'' []"

lemma start_parsed:
  "strip ''!start'' = ''!start''" "fst (strip_address ''!start'' ''zorkbot'') = ''!start''" "parse_command ''!start'' = Some ''start''"
  "command_of ''start'' = (''start'', [])"
  by code_simp+

lemma start_served:
  assumes "p \<noteq> []"
  shows "serving p 0 \<lparr>wi_ctx = dm_ctx p ''!start'', wi_command = ''start'', wi_args = []\<rparr>
    (fold bot_step [Dm_msg (start_message p), Worker_runs p] (new_bot default_config))"
proof -
  have ctx: "make_ctx default_config (start_message p) ''!start'' = dm_ctx p ''!start''" "queue_key (dm_ctx p ''!start'') = p"
    using assms by (simp_all add: make_ctx_def start_message_def dm_ctx_def queue_key_def or_else_def)
  have msg: "im_text (start_message p) = ''!start''" by (simp add: start_message_def dm_ctx_def)
  have conf: "bs_config (new_bot default_config) = default_config" "bot_name default_config = ''zorkbot''"
    by (simp_all add: new_bot_def default_config_def)
  have "dispatch_dm (start_message p) (new_bot default_config) = snd (enqueue (dm_ctx p ''!start'') ''start'' [] (new_bot default_config))"
    by (simp add: dispatch_dm_def msg conf start_parsed ctx)
  then show ?thesis
    by (simp add: enqueue_def ctx new_bot_def live_def queue_of_def Let_def worker_step_def worker_next_def serving_def)
qed

lemma started_alone:
  fixes m :: int
  assumes "p \<noteq> []"
  defines "st1 \<equiv> emit (start_event p) (new_session_state m)"
  shows "lived default_config (\<lambda>_. start_activity p) (new_session_state m) (start_line p m)
    (snd (add_session 50 1700000000 p ''Ann'' st1))" (is "lived _ ?acts ?st0 _ ?st2")
proof -
  let ?w = "Player p 0" and ?before = "[Queues (Dm_msg (start_message p)), Queues (Worker_runs p)]"
  let ?during = "[Changes ?w ?st0 st1, Changes ?w st1 ?st2]"
  have line: "start_line p m = ?before @ ?during" by (simp add: start_line_def Let_def st1_def)
  have "sees ?w ?st0 ((([] @ [(True, ?st0, st1)]) @ [(False, st1, st1)]) @ [(False, st1, st1)]) ((([] @ [(?w, ?st0, st1)]) @ []) @ []) st1"
    by (intro sees_found sees_own sees_nothing) simp_all
  then have "sees ?w ?st0 (((([] @ [(True, ?st0, st1)]) @ [(False, st1, st1)]) @ [(False, st1, st1)]) @ [(True, st1, ?st2)])
      (((([] @ [(?w, ?st0, st1)]) @ []) @ []) @ [(?w, st1, ?st2)]) ?st2" by (rule sees_own)
  then have seen: "sees ?w ?st0 (take 4 (moves (snd (run_activity (start_activity p) (calm_env (ok_response ''West of House'')) (fresh_world ?st0)))))
      (changes_of ?during) ?st2"
    using start_moves [OF assms(1) refl, where m = m and t = "''West of House''", folded st1_def] by (simp add: start_activity_def)
  have none: "queue_events (take k ?during) = []" for k
    by (simp add: take_Cons' split: if_split)
  have fits: "part_fits default_config ?before ?during ?w (start_activity p)"
    unfolding part_fits_def queues_after_def start_activity_def who.case
    by (intro exI [of _ "\<lparr>wi_ctx = dm_ctx p ''!start'', wi_command = ''start'', wi_args = []\<rparr>"] exI [of _ "0::real"])
      (use none start_served [OF assms(1)] in simp)
  have "has_part default_config ?acts ?st0 (start_line p m) ?w"
    unfolding has_part_def line using seen fits
    by (intro exI [of _ ?before] exI [of _ ?during] exI [of _ "[]"] exI [of _ ?st0] exI [of _ ?st2]
        exI [of _ "calm_env (ok_response ''West of House'')"] exI [of _ "4::nat"]) simp
  then show ?thesis unfolding lived_def by (simp add: line)
qed

section \<open>The registry\<close>

text \<open>
  C1. Messages arrive, workers take commands from their queues and handle them, the poller reconciles, watcher jobs
  and roll calls run, each interrupted at its awaits by the others, in whatever environment each of them has,
  cut short or not: every change of the registry is one of its operations under the condition that needs,
  its tables are consistent after it, and no change made on behalf of one player gives another player a
  session or a watch.
\<close>

theorem bot_keeps_registry:
  assumes "lived cfg acts (new_session_state m) line st"
  shows "ss_inv st \<and> (\<forall>(w, a, b) \<in> set (changes_of line). ss_inv b \<and> registry_change a b \<and>
    (\<forall>q. activity_key (acts w) \<noteq> Some q \<longrightarrow>
      (map_of (sessions a) q = None \<longrightarrow> map_of (sessions b) q = None) \<and>
      (map_of (watching a) q = None \<longrightarrow> map_of (watching b) q = None)))"
  by (rule commands_interleave_safely [OF ss_inv_new lived_joint [OF assms]])

theorem bot_keeps_registry_witness:
  "lived default_config (\<lambda>_. start_activity ''ab12'') (new_session_state 2) (start_line ''ab12'' 2)
     (snd (add_session 50 1700000000 ''ab12'' ''Ann'' (emit (start_event ''ab12'') (new_session_state 2)))) \<and>
   ss_inv (snd (add_session 50 1700000000 ''ab12'' ''Ann'' (emit (start_event ''ab12'') (new_session_state 2))))"
  using started_alone [where p = "''ab12''" and m = 2] bot_keeps_registry [OF started_alone [where p = "''ab12''" and m = 2]] by simp

section \<open>The store follows the games\<close>

text \<open>
  C4. End to end: let messages, players' commands, reconciliations and watcher jobs run in any interleaving from the
  start of the bot, and let the event sink be called for the session starts and ends this reports, in order, with any
  other calls between them, with the writer and the daily prune running at any time. When nothing has been
  dropped and the writer has caught up, the session rows of this run that are still open in the database are
  exactly the games in progress, by number and player, in the order they were started.
\<close>

theorem store_follows_games:
  assumes "lived cfg acts (new_session_state m) line st" and "filter boundary (calls ops) = filter boundary (sink st)"
    and "\<And>n. \<not> has_session run_id n db"
    and "es = fold sink_step ops (new_event_sink run_id qsize bsize bus db)"
    and "es_dropped es = []" and "es_batch es = []" and "es_queue es = []"
  shows "open_rows run_id (es_db es) = map (\<lambda>r. (num r, player_id r)) (all_sessions st)"
  by (rule reached_caught_up [OF joint_reached [OF lived_joint [OF assms(1)]] assms(2-7)])

lemmas follow_eval = new_session_state_def add_session_def Let_def emit_def has_session_def start_event_def command_event_def
  dm_ctx_def empty_db_def sink_call_def sink_enqueue_def queue_full_def new_event_sink_def writer_take_def writer_flush_def
  hand_over_def run_many_def has_player_def upsert_player_def bus_publish_def bus_channel_def new_session_bus_def

definition start_calls :: "sink_op list" where
  "start_calls = [Call 0 0 (start_event ''ab12''), Call 0 0 (Session_started (started_by ''ab12'')), Take, Take, Take, Flush]"

theorem store_follows_games_witness:
  "open_rows ''run'' (es_db (fold sink_step start_calls (new_event_sink ''run'' 1024 100 (new_session_bus 50 4) empty_db))) =
    [(1, ''ab12'')]"
proof -
  let ?st1 = "emit (start_event ''ab12'') (new_session_state 2)"
  let ?st2 = "snd (add_session 50 1700000000 ''ab12'' ''Ann'' ?st1)"
  have "filter boundary (calls start_calls) = filter boundary (sink ?st2)"
    by (simp add: follow_eval start_calls_def started_by_def)
  moreover have "all_sessions ?st2 = [started_by ''ab12'']"
    by (simp add: follow_eval all_sessions_def started_by_def)
  ultimately show ?thesis
    using store_follows_games [OF started_alone [where p = "''ab12''" and m = 2], of start_calls "''run''" empty_db _ 1024 100 "new_session_bus 50 4"]
    by (simp add: start_calls_def started_by_def follow_eval)
qed

section \<open>Session numbers\<close>

text \<open>
  C14. Whatever the players do at the same time, session numbers are handed out consecutively from 1 and never
  reused, and every session is reported to the event sink once as started and, unless it is still live,
  once as ended.
\<close>

theorem sessions_accounted_when_interleaved:
  assumes "lived cfg acts (new_session_state m) line st"
  shows "started_nums st = [1..next_num st - 1] \<and>
    mset (ended_nums st) + mset (live_nums st) = mset (started_nums st)"
  using reached_inv [OF joint_reached [OF lived_joint [OF assms]]] by (simp add: accounted_def)

theorem sessions_accounted_when_interleaved_witness:
  "started_nums (snd (add_session 50 1700000000 ''ab12'' ''Ann'' (emit (start_event ''ab12'') (new_session_state 2)))) = [1..1]"
  using sessions_accounted_when_interleaved [OF started_alone [where p = "''ab12''" and m = 2]] by (simp add: follow_eval)

end
