(* ===== verification/Reporting.thy ===== *)
theory Reporting
  imports Admin_Stats
begin

text \<open>
  From the bot to the charts: what the event sink is told (\<^verbatim>\<open>src/zorkbot/src/zorkbot/admin/events.py\<close>), what
  its writer leaves in the store, and what the console's charts then show
  (\<^verbatim>\<open>admin/routes/stats.py\<close>). The command and message tables are seen through the rows that are not
  older than the start of a chart's range; both views follow every statement of the writer, so
  the locale of the event store applies to them.
\<close>

text \<open>Reading a table through a projection of its rows that are not older than some time, and a query
  that only accepts such rows.\<close>

lemma table_log:
  assumes "\<And>r. P r \<longleftrightarrow> Q (g r)" and "\<And>r. Q (g r) \<Longrightarrow> R r" and "\<And>r. f r = h (g r)"
  shows "map f (filter P rows) = map h (filter Q (map g (filter R rows)))"
proof (induction rows)
  case (Cons r rows)
  then show ?case using assms(1,3) assms(2) [of r] by auto
qed simp

lemma filter_from:
  assumes "\<And>row. P row \<Longrightarrow> lo \<le> fst row"
  shows "filter P (filter (\<lambda>row. lo \<le> (fst row :: int)) rows) = filter P rows"
  using assms by (induction rows) auto

section \<open>The commands\<close>

definition command_log :: "int \<Rightarrow> event_db \<Rightarrow> (int \<times> string \<times> string \<times> bool) list" where
  "command_log lo db =
     map (\<lambda>r. (cm_at r, cm_command r, cm_transport r, cm_accepted r)) (filter (\<lambda>r. lo \<le> cm_at r) (commands_tab db))"

fun log_command :: "int \<Rightarrow> stmt \<Rightarrow> (int \<times> string \<times> string \<times> bool) list \<Rightarrow> (int \<times> string \<times> string \<times> bool) list" where
  "log_command lo (Insert_command tm p cmd tr idx ok reason) rows = rows @ (if lo \<le> tm then [(tm, cmd, tr, ok)] else [])"
| "log_command lo (Delete_commands c) rows = filter (\<lambda>row. \<not> fst row < c) rows"
| "log_command lo s rows = rows"

lemma exec_command_log: "exec_stmt s db = Some db' \<Longrightarrow> command_log lo db' = log_command lo s (command_log lo db)"
  by (cases s) (auto simp: command_log_def filter_map comp_def conj_commute split: if_splits)

interpretation command_view: store_view "command_log lo" "log_command lo" "\<lambda>c. c \<le> lo"
proof unfold_locales
  fix c s db
  assume "c \<le> lo" and "s \<in> {Delete_commands c, Delete_messages c, Delete_sessions c}"
  moreover have "filter (\<lambda>row. \<not> fst row < c) (command_log lo db) = command_log lo db"
    using \<open>c \<le> lo\<close> by (intro filter_True) (auto simp: command_log_def)
  ultimately show "log_command lo s (command_log lo db) = command_log lo db" by auto
qed (rule exec_command_log)

fun command_entry :: "real \<times> sink_event \<Rightarrow> (int \<times> string \<times> string \<times> bool) list" where
  "command_entry (wall, Command_event p cmd tr idx ok reason) = [(trunc wall, cmd, tr, ok)]"
| "command_entry _ = []"

lemma reported_commands:
  "fold (log_command lo) (reported run tcs) rows = rows @ filter (\<lambda>row. lo \<le> fst row) (concat (map command_entry tcs))"
proof (induction tcs arbitrary: rows)
  case (Cons tc tcs)
  obtain wall ev where "tc = (wall, ev)" by (cases tc)
  then show ?case using Cons by (cases ev) (simp_all add: reported_def)
qed (simp add: reported_def)

definition shown_commands :: "int \<Rightarrow> int \<Rightarrow> string option \<Rightarrow> string \<Rightarrow> (real \<times> sink_event) list \<Rightarrow> (int \<times> counts) list" where
  "shown_commands lo hi command transport tcs =
     map (\<lambda>(tm, cmd, tr, ok). if ok then (tm, 1, 0) else (tm, 0, 1))
       (filter (\<lambda>(tm, cmd, tr, ok). between lo hi tm \<and> (case command of None \<Rightarrow> True | Some c \<Rightarrow> cmd = c) \<and>
          (if transport = ''both'' then True else tr = transport)) (concat (map command_entry tcs)))"

lemma command_points_log:
  "command_points lo hi command transport db =
    map (\<lambda>(tm, cmd, tr, ok). if ok then (tm, 1, 0) else (tm, 0, 1))
      (filter (\<lambda>(tm, cmd, tr, ok). between lo hi tm \<and> (case command of None \<Rightarrow> True | Some c \<Rightarrow> cmd = c) \<and>
          (if transport = ''both'' then True else tr = transport)) (command_log lo db))"
  unfolding command_points_def command_log_def by (rule table_log) (auto simp: between_def)

section \<open>The messages\<close>

definition message_log :: "int \<Rightarrow> event_db \<Rightarrow> (int \<times> string \<times> string \<times> nat \<times> bool option) list" where
  "message_log lo db =
     map (\<lambda>r. (mg_at r, mg_direction r, mg_transport r, mg_chars r, mg_acked r)) (filter (\<lambda>r. lo \<le> mg_at r) (messages_tab db))"

fun log_message ::
  "int \<Rightarrow> stmt \<Rightarrow> (int \<times> string \<times> string \<times> nat \<times> bool option) list \<Rightarrow> (int \<times> string \<times> string \<times> nat \<times> bool option) list" where
  "log_message lo (Insert_message tm dir tr idx p chars dropped acked) rows =
     rows @ (if lo \<le> tm then [(tm, dir, tr, chars, acked)] else [])"
| "log_message lo (Delete_messages c) rows = filter (\<lambda>row. \<not> fst row < c) rows"
| "log_message lo s rows = rows"

lemma exec_message_log: "exec_stmt s db = Some db' \<Longrightarrow> message_log lo db' = log_message lo s (message_log lo db)"
  by (cases s) (auto simp: message_log_def filter_map comp_def conj_commute split: if_splits)

interpretation message_view: store_view "message_log lo" "log_message lo" "\<lambda>c. c \<le> lo"
proof unfold_locales
  fix c s db
  assume "c \<le> lo" and "s \<in> {Delete_commands c, Delete_messages c, Delete_sessions c}"
  moreover have "filter (\<lambda>row. \<not> fst row < c) (message_log lo db) = message_log lo db"
    using \<open>c \<le> lo\<close> by (intro filter_True) (auto simp: message_log_def)
  ultimately show "log_message lo s (message_log lo db) = message_log lo db" by auto
qed (rule exec_message_log)

fun message_entry :: "real \<times> sink_event \<Rightarrow> (int \<times> string \<times> string \<times> nat \<times> bool option) list" where
  "message_entry (wall, Message_rx tr idx p chars) = [(trunc wall, ''rx'', tr, chars, None)]"
| "message_entry (wall, Message_tx tr idx p chars dropped acked) = [(trunc wall, ''tx'', tr, chars, acked)]"
| "message_entry _ = []"

lemma reported_messages:
  "fold (log_message lo) (reported run tcs) rows = rows @ filter (\<lambda>row. lo \<le> fst row) (concat (map message_entry tcs))"
proof (induction tcs arbitrary: rows)
  case (Cons tc tcs)
  obtain wall ev where "tc = (wall, ev)" by (cases tc)
  then show ?case using Cons by (cases ev) (simp_all add: reported_def)
qed (simp add: reported_def)

definition shown_messages :: "int \<Rightarrow> int \<Rightarrow> string \<Rightarrow> string \<Rightarrow> (real \<times> sink_event) list \<Rightarrow> (int \<times> counts) list" where
  "shown_messages lo hi direction transport tcs =
     map (\<lambda>(tm, dir, tr, chars, acked). (tm, 1, chars))
       (filter (\<lambda>(tm, dir, tr, chars, acked). between lo hi tm \<and> dir = direction \<and>
          (if transport = ''both'' then True else tr = transport)) (concat (map message_entry tcs)))"

definition shown_deliveries :: "int \<Rightarrow> int \<Rightarrow> (real \<times> sink_event) list \<Rightarrow> (int \<times> counts) list" where
  "shown_deliveries lo hi tcs =
     map (\<lambda>(tm, dir, tr, chars, acked). if acked = Some True then (tm, 1, 0) else (tm, 0, 1))
       (filter (\<lambda>(tm, dir, tr, chars, acked). between lo hi tm \<and> dir = ''tx'' \<and> acked \<noteq> None) (concat (map message_entry tcs)))"

lemma message_points_log:
  "message_points lo hi direction transport db =
    map (\<lambda>(tm, dir, tr, chars, acked). (tm, 1, chars))
      (filter (\<lambda>(tm, dir, tr, chars, acked). between lo hi tm \<and> dir = direction \<and>
          (if transport = ''both'' then True else tr = transport)) (message_log lo db))"
  unfolding message_points_def message_log_def by (rule table_log) (auto simp: between_def)

lemma delivery_points_log:
  "delivery_points lo hi db =
    map (\<lambda>(tm, dir, tr, chars, acked). if acked = Some True then (tm, 1, 0) else (tm, 0, 1))
      (filter (\<lambda>(tm, dir, tr, chars, acked). between lo hi tm \<and> dir = ''tx'' \<and> acked \<noteq> None) (message_log lo db))"
  unfolding delivery_points_def message_log_def by (rule table_log) (auto simp: between_def)

section \<open>The charts\<close>



end
