(* ===== verification/Cursor.thy ===== *)
theory Cursor
  imports Zork_Prelude
begin

text \<open>
  The page cursor of the session history, \<open>_encode_cursor\<close> and \<open>_decode_cursor\<close> of
  \<^verbatim>\<open>src/zorkbot/src/zorkbot/admin/routes/sessions.py\<close>, with the part of Python's \<open>base64\<close> module
  they use: \<open>urlsafe_b64encode\<close>, and \<open>urlsafe_b64decode\<close> in its lenient mode, which skips
  characters outside the alphabet and stops at complete padding. A byte is a \<open>char\<close>. \<open>None\<close> is
  \<open>ValueError\<close>, of which \<open>binascii.Error\<close> and \<open>UnicodeDecodeError\<close> are subclasses.
\<close>

section \<open>Base 64\<close>

definition b64_char :: "nat \<Rightarrow> char" where
  "b64_char n =
     (if n < 26 then char_of (65 + n) else if n < 52 then char_of (71 + n) else if n < 62 then char_of (n - 4)
      else if n = 62 then CHR ''-'' else CHR ''_'')"

definition b64_value :: "char \<Rightarrow> nat option" where
  "b64_value c =
     (let n = code c
      in if 65 \<le> n \<and> n \<le> 90 then Some (n - 65) else if 97 \<le> n \<and> n \<le> 122 then Some (n - 71)
         else if 48 \<le> n \<and> n \<le> 57 then Some (n + 4)
         else if c = CHR ''-'' \<or> c = CHR ''+'' then Some 62
         else if c = CHR ''_'' \<or> c = CHR 0x2F then Some 63 else None)"

fun b64encode :: "string \<Rightarrow> string" where
  "b64encode (a # b # c # s) =
     b64_char (code a div 4) # b64_char (code a mod 4 * 16 + code b div 16) #
     b64_char (code b mod 16 * 4 + code c div 64) # b64_char (code c mod 64) # b64encode s"
| "b64encode [a, b] =
     [b64_char (code a div 4), b64_char (code a mod 4 * 16 + code b div 16), b64_char (code b mod 16 * 4), CHR ''='']"
| "b64encode [a] = [b64_char (code a div 4), b64_char (code a mod 4 * 16), CHR ''='', CHR ''='']"
| "b64encode [] = []"

text \<open>
  The decoder: the position in a group of four, the bits left over from the character before and the
  number of padding characters seen.
\<close>

fun b64decode_go :: "nat \<Rightarrow> nat \<Rightarrow> nat \<Rightarrow> string \<Rightarrow> string option" where
  "b64decode_go q left pads [] = (if q = 0 then Some [] else None)"
| "b64decode_go q left pads (c # s) =
     (if c = CHR ''='' then
        (if 2 \<le> q \<and> 4 \<le> q + (pads + 1) then Some []
         else b64decode_go q left (if 2 \<le> q then pads + 1 else pads) s)
      else case b64_value c of
        None \<Rightarrow> b64decode_go q left pads s
      | Some v \<Rightarrow>
          if q = 0 then b64decode_go 1 v 0 s
          else if q = 1 then map_option ((#) (char_of (left * 4 + v div 16))) (b64decode_go 2 (v mod 16) 0 s)
          else if q = 2 then map_option ((#) (char_of (left * 16 + v div 4))) (b64decode_go 3 (v mod 4) 0 s)
          else map_option ((#) (char_of (left * 64 + v))) (b64decode_go 0 0 0 s))"

definition b64decode :: "string \<Rightarrow> string option" where
  "b64decode s = b64decode_go 0 0 0 s"

text \<open>\<open>bytes.decode()\<close> for the code points of the model; text beyond Latin-1 is \<open>None\<close>.\<close>

fun utf8_decode :: "string \<Rightarrow> string option" where
  "utf8_decode [] = Some []"
| "utf8_decode (a # s) =
     (if code a < 128 then map_option ((#) a) (utf8_decode s)
      else case s of
        [] \<Rightarrow> None
      | b # t \<Rightarrow>
          if (code a = 194 \<or> code a = 195) \<and> 128 \<le> code b \<and> code b < 192
          then map_option ((#) (char_of ((code a - 192) * 64 + (code b - 128)))) (utf8_decode t)
          else None)"

section \<open>Cursors\<close>

definition encode_cursor :: "int \<Rightarrow> int \<Rightarrow> string" where
  "encode_cursor started row_id = b64encode (str_int started @ '':'' @ str_int row_id)"

definition decode_cursor :: "string \<Rightarrow> (int \<times> int) option" where
  "decode_cursor cursor =
     (case b64decode cursor of
        None \<Rightarrow> None
      | Some raw \<Rightarrow>
          (case utf8_decode raw of
             None \<Rightarrow> None
           | Some txt \<Rightarrow>
               (case split_on CHR '':'' txt of
                  [a, b] \<Rightarrow>
                    (case (parse_int a, parse_int b) of (Some s, Some i) \<Rightarrow> Some (s, i) | _ \<Rightarrow> None)
                | _ \<Rightarrow> None)))"

section \<open>Decimal text\<close>

lemma code_char_of: "code (char_of (n :: nat)) = n mod 256"
  by (simp add: code_def)

lemma code_less: "code c < 256"
  by (simp add: code_def)

lemma digit_char: "d < 10 \<Longrightarrow> is_digit (digit_char d) \<and> code (digit_char d) - 48 = d"
  by (simp add: is_digit_def digit_char_def code_char_of)

lemma str_nat_digits: "(\<forall>c \<in> set (str_nat n). is_digit c) \<and> str_nat n \<noteq> []"
proof (induction n rule: str_nat.induct)
  case (1 n)
  then show ?case by (subst (1 2) str_nat.simps) (auto simp: digit_char)
qed

lemma digits_value_snoc: "digits_value (ds @ [c]) = 10 * digits_value ds + (code c - 48)"
  by (simp add: digits_value_def)

lemma digits_value_str_nat: "digits_value (str_nat n) = n"
proof (induction n rule: str_nat.induct)
  case (1 n)
  show ?case
  proof (cases "n < 10")
    case True
    then show ?thesis by (subst str_nat.simps) (simp add: digits_value_def digit_char)
  next
    case False
    then show ?thesis using 1 by (subst str_nat.simps) (simp add: digits_value_snoc digit_char)
  qed
qed

lemma length_str_nat: "n < 10 ^ k \<Longrightarrow> 0 < k \<Longrightarrow> length (str_nat n) \<le> k"
proof (induction n arbitrary: k rule: str_nat.induct)
  case (1 n)
  show ?case
  proof (cases "n < 10")
    case True
    then show ?thesis using 1(3) by (subst str_nat.simps) simp
  next
    case False
    obtain j where k: "k = Suc j" using 1(3) by (cases k) simp_all
    then have j: "0 < j" using 1(2) False by (cases j) simp_all
    have "n div 10 < 10 ^ j" using 1(2) k by (simp add: div_less_iff_less_mult mult.commute)
    then have "length (str_nat (n div 10)) \<le> j" using 1(1) False j by simp
    then show ?thesis using False k by (subst str_nat.simps) simp
  qed
qed

lemma digits_go_digits: "\<forall>c \<in> set ds. is_digit c \<Longrightarrow> prev \<or> ds \<noteq> [] \<Longrightarrow> digits_go prev ds = Some ds"
  by (induction ds arbitrary: prev) auto

lemma parse_str_nat: "n < 10 ^ 20 \<Longrightarrow> parse_nat (str_nat n) = Some n"
  using length_str_nat [of n 20] by (simp add: parse_nat_def digits_go_digits str_nat_digits digits_value_str_nat)

lemma digit_not_space: "is_digit c \<Longrightarrow> \<not> is_space c"
  by (auto simp: is_digit_def is_space_def)

lemma strip_id: "\<forall>c \<in> set s. \<not> is_space c \<Longrightarrow> strip s = s"
  unfolding strip_def by (rule strip_by_id) auto

lemma str_int_chars: "c \<in> set (str_int i) \<Longrightarrow> is_digit c \<or> c = CHR ''-''"
  using str_nat_digits by (auto simp: str_int_def split: if_splits)

lemma strip_str_int: "strip (str_int i) = str_int i"
proof (rule strip_id, rule ballI)
  fix c assume "c \<in> set (str_int i)"
  then show "\<not> is_space c" using str_int_chars [of c i] digit_not_space [of c] by (auto simp: is_space_def code_def)
qed

lemma parse_str_int:
  assumes "\<bar>i\<bar> < 10 ^ 20"
  shows "parse_int (str_int i) = Some i"
proof (cases "i < 0")
  case True
  then have "nat (- i) < 10 ^ 20" using assms by (simp add: nat_less_iff)
  then show ?thesis using True parse_str_nat strip_str_int [of i] by (simp add: parse_int_def) (simp add: str_int_def)
next
  case False
  obtain c cs where c: "str_nat (nat i) = c # cs" using str_nat_digits by (cases "str_nat (nat i)") auto
  then have "is_digit c" using str_nat_digits [of "nat i"] by simp
  then have "c \<noteq> CHR ''-''" "c \<noteq> CHR ''+''" by (auto simp: is_digit_def code_def)
  moreover have "nat i < 10 ^ 20" using assms False by (simp add: nat_less_iff)
  then have "parse_nat (c # cs) = Some (nat i)" using parse_str_nat c by metis
  ultimately show ?thesis using False c strip_str_int [of i] by (simp add: parse_int_def) (simp add: str_int_def)
qed

section \<open>Round trips\<close>

lemma b64_value_char: "n < 64 \<Longrightarrow> b64_value (b64_char n) = Some n"
proof -
  assume "n < 64"
  then consider "n < 26" | "26 \<le> n" "n < 52" | "52 \<le> n" "n < 62" | "n = 62" | "n = 63" by linarith
  then show ?thesis
  proof cases
    case 3
    then have "48 \<le> n - 4 \<and> n - 4 \<le> 57" by linarith
    then show ?thesis using 3 by (simp add: b64_value_def b64_char_def code_char_of Let_def)
  qed (simp_all add: b64_value_def b64_char_def code_char_of, simp_all add: code_def)
qed

lemma b64_char_not_pad: "n < 64 \<Longrightarrow> b64_char n \<noteq> CHR ''=''"
  using b64_value_char [of n] by (auto simp: b64_value_def code_def)

lemma char_of_code: "char_of (code c) = c"
  by (simp add: code_def)

lemma code_zero: "code (CHR 0x00) = 0"
  by (simp add: code_def)

lemma b64_bytes:
  shows "char_of (code a div 4 * 4 + (code a mod 4 * 16 + code b div 16) div 16) = a"
    and "char_of ((code a mod 4 * 16 + code b div 16) mod 16 * 16 + (code b mod 16 * 4 + code c div 64) div 4) = b"
    and "char_of ((code b mod 16 * 4 + code c div 64) mod 4 * 64 + code c mod 64) = c"
proof -
  note lt = code_less [of a] code_less [of b] code_less [of c]
  have "code b div 16 < 16" "code c div 64 < 4" using lt by (simp_all add: div_less_iff_less_mult)
  then have "code a div 4 * 4 + (code a mod 4 * 16 + code b div 16) div 16 = code a"
    and "(code a mod 4 * 16 + code b div 16) mod 16 * 16 + (code b mod 16 * 4 + code c div 64) div 4 = code b"
    and "(code b mod 16 * 4 + code c div 64) mod 4 * 64 + code c mod 64 = code c"
    by simp_all
  then show "char_of (code a div 4 * 4 + (code a mod 4 * 16 + code b div 16) div 16) = a"
    and "char_of ((code a mod 4 * 16 + code b div 16) mod 16 * 16 + (code b mod 16 * 4 + code c div 64) div 4) = b"
    and "char_of ((code b mod 16 * 4 + code c div 64) mod 4 * 64 + code c mod 64) = c"
    by (simp_all add: char_of_code)
qed

lemma b64_indices:
  shows "code a div 4 < 64" and "code a mod 4 * 16 + code b div 16 < 64"
    and "code b mod 16 * 4 + code c div 64 < 64" and "code c mod 64 < 64"
proof -
  note lt = code_less [of a] code_less [of b] code_less [of c]
  show "code a div 4 < 64" "code c mod 64 < 64" using lt by (simp_all add: div_less_iff_less_mult)
  have "code b div 16 < 16" "code c div 64 < 4" "code a mod 4 < 4" "code b mod 16 < 16"
    using lt by (simp_all add: div_less_iff_less_mult)
  then show "code a mod 4 * 16 + code b div 16 < 64" "code b mod 16 * 4 + code c div 64 < 64" by linarith+
qed

lemma b64_indices_short: "code a mod 4 * 16 < 64" "code b mod 16 * 4 < 64"
proof -
  have "code a mod 4 < 4" "code b mod 16 < 16" by simp_all
  then show "code a mod 4 * 16 < 64" "code b mod 16 * 4 < 64" by linarith+
qed

lemmas b64_steps = b64_value_char b64_char_not_pad b64_indices b64_indices_short b64_bytes

lemma b64_roundtrip: "b64decode (b64encode s) = Some s"
proof -
  have "b64decode_go 0 l p (b64encode s) = Some s" for l p
  proof (induction s arbitrary: l p rule: b64encode.induct)
    case (2 a b)
    show ?case using b64_bytes(1) [of a b] b64_bytes(2) [of a b "CHR 0x00"] by (simp add: b64_steps code_zero)
  next
    case (3 a)
    show ?case using b64_bytes(1) [of a "CHR 0x00"] by (simp add: b64_steps code_zero)
  next
    case (1 a b c s)
    then show ?case using b64_bytes(1) [of a b] b64_bytes(2) [of a b c] b64_bytes(3) [of b c] by (simp add: b64_steps)
  qed simp
  then show ?thesis by (simp add: b64decode_def)
qed

lemma utf8_ascii: "\<forall>c \<in> set s. code c < 128 \<Longrightarrow> utf8_decode s = Some s"
  by (induction s) auto

lemma split_on_absent: "sep \<notin> set s \<Longrightarrow> split_on sep s = [s]"
  by (induction s) auto

lemma split_on_append: "sep \<notin> set s \<Longrightarrow> split_on sep (s @ sep # t) = s # split_on sep t"
  by (induction s) auto

lemma decode_encode_cursor:
  assumes "\<bar>s\<bar> < 10 ^ 20" and "\<bar>i\<bar> < 10 ^ 20"
  shows "decode_cursor (encode_cursor s i) = Some (s, i)"
proof -
  have chars: "code c < 128 \<and> c \<noteq> CHR '':''" if "c \<in> set (str_int j)" for c j
    using str_int_chars [OF that] by (auto simp: is_digit_def code_def)
  have "\<forall>c \<in> set (str_int s @ '':'' @ str_int i). code c < 128"
    using chars by (auto simp: code_def)
  then have "utf8_decode (str_int s @ '':'' @ str_int i) = Some (str_int s @ '':'' @ str_int i)" by (rule utf8_ascii)
  moreover have "split_on CHR '':'' (str_int s @ '':'' @ str_int i) = [str_int s, str_int i]"
  proof -
    have "CHR '':'' \<notin> set (str_int j)" for j using chars [of "CHR '':''" j] by blast
    then show ?thesis by (simp add: split_on_append split_on_absent)
  qed
  ultimately show ?thesis
    using assms by (simp add: decode_cursor_def encode_cursor_def b64_roundtrip parse_str_int)
qed

text \<open>
  C38. Every cursor the history hands out is read back as the position it stands for: decoding the base-64
  text of two integers of at most 64 bits returns them, negative ones included. (The bound is
  the range of an SQLite integer.)
\<close>

theorem cursor_roundtrip:
  assumes "\<bar>s\<bar> \<le> 2 ^ 63" and "\<bar>i\<bar> \<le> 2 ^ 63"
  shows "decode_cursor (encode_cursor s i) = Some (s, i)"
  using assms by (intro decode_encode_cursor) simp_all

theorem cursor_roundtrip_witness: "decode_cursor (encode_cursor (- 5) 12) = Some (- 5, 12)"
  using cursor_roundtrip [of "- 5" 12] by simp

end
