(* ===== verification/Sse.thy ===== *)
theory Sse
  imports Session_Bus Log_Bus Cursor
begin

text \<open>
  The text of the two live streams: \<open>_sse\<close> of \<^verbatim>\<open>src/zorkbot/src/zorkbot/admin/routes/logs.py\<close>, \<open>_sse_format\<close> of
  \<^verbatim>\<open>admin/routes/sessions.py\<close> and their generators, with \<open>json.dumps\<close> as far as they use it. On the other side
  \<open>readSse\<close> and \<open>parseSseFrame\<close> of the browser client (\<^verbatim>\<open>admin/static/app.js\<close>) put together what arrives
  in pieces; \<open>JSON.parse\<close> is a parameter.

  The text is ASCII, since \<open>json.dumps\<close> escapes everything else, so a piece is a string. How a float
  is written (\<open>repr\<close>) is a parameter; all that is needed is that it holds no line break.
\<close>

section \<open>JSON\<close>

datatype json =
    J_null
  | J_int int
  | J_float real
  | J_string string
  | J_list "json list"
  | J_object "(string \<times> json) list"

text \<open>One character of a string: \<open>ensure_ascii\<close> is the default.\<close>

definition json_char :: "char \<Rightarrow> string" where
  "json_char c =
     (if c = CHR 0x22 then [CHR 0x5C, CHR 0x22]
      else if c = CHR 0x5C then [CHR 0x5C, CHR 0x5C]
      else if c = CHR 0x0A then [CHR 0x5C, CHR ''n'']
      else if c = CHR 0x0D then [CHR 0x5C, CHR ''r'']
      else if c = CHR 0x09 then [CHR 0x5C, CHR ''t'']
      else if c = CHR 0x08 then [CHR 0x5C, CHR ''b'']
      else if c = CHR 0x0C then [CHR 0x5C, CHR ''f'']
      else if 32 \<le> code c \<and> code c \<le> 126 then [c]
      else [CHR 0x5C, CHR ''u'', CHR ''0'', CHR ''0'', hex_digit (code c div 16), hex_digit (code c mod 16)])"

definition json_string :: "string \<Rightarrow> string" where
  "json_string s = CHR 0x22 # concat (map json_char s) @ [CHR 0x22]"

fun dumps :: "(real \<Rightarrow> string) \<Rightarrow> json \<Rightarrow> string" where
  "dumps fl J_null = ''null''"
| "dumps fl (J_int i) = str_int i"
| "dumps fl (J_float x) = fl x"
| "dumps fl (J_string s) = json_string s"
| "dumps fl (J_list js) = ''['' @ join '', '' (map (dumps fl) js) @ '']''"
| "dumps fl (J_object kvs) = ''{'' @ join '', '' (map (\<lambda>kv. json_string (fst kv) @ '': '' @ dumps fl (snd kv)) kvs) @ ''}''"

section \<open>What is sent\<close>

definition log_json :: "log_item \<Rightarrow> json" where
  "log_json item = J_object
     ([(''seq'', J_int (int (li_seq item))), (''at'', J_float (li_at item)), (''level'', J_string (li_level item)),
       (''levelno'', J_int (li_levelno item)), (''logger'', J_string (li_logger item)), (''message'', J_string (li_message item))] @
      (case li_dropped_before item of None \<Rightarrow> [] | Some n \<Rightarrow> [(''dropped_before'', J_int (int n))]))"

fun bus_json :: "bus_data \<Rightarrow> json" where
  "bus_json (D_session_end n tm reason) =
     J_object [(''session'', J_int n), (''at'', J_int tm), (''reason'', J_string reason)]"
| "bus_json (D_watchers n ws) =
     J_object [(''session'', J_int n), (''watchers'', J_list (map (\<lambda>w. J_object [(''pubkey_prefix'', J_string w)]) ws))]"
| "bus_json (D_command n tm player t) =
     J_object [(''session'', J_int n), (''at'', J_float tm), (''player'', J_string player), (''text'', J_string t)]"
| "bus_json (D_output n tm t) = J_object [(''session'', J_int n), (''at'', J_float tm), (''text'', J_string t)]"

text \<open>The first event of the log stream; \<open>level\<close> is what \<open>effective_level_name\<close> reports.\<close>

definition hello_json :: "string \<Rightarrow> nat \<Rightarrow> log_item list \<Rightarrow> json" where
  "hello_json level bufsize backlog =
     J_object [(''root_level'', J_string level), (''buffer_size'', J_int (int bufsize)), (''replayed'', J_int (int (length backlog)))]"

datatype sse = Ping | Event string json

fun sse_text :: "(real \<Rightarrow> string) \<Rightarrow> sse \<Rightarrow> string" where
  "sse_text fl Ping = '': ping'' @ [CHR 0x0A, CHR 0x0A]"
| "sse_text fl (Event name data) = ''event: '' @ name @ [CHR 0x0A] @ ''data: '' @ dumps fl data @ [CHR 0x0A, CHR 0x0A]"

text \<open>The generators: what a round of the queue gave, \<open>None\<close> when it timed out.\<close>

definition log_events :: "string \<Rightarrow> nat \<Rightarrow> log_item list \<Rightarrow> log_item option list \<Rightarrow> sse list" where
  "log_events level bufsize backlog rounds =
     Event ''hello'' (hello_json level bufsize backlog) # map (\<lambda>item. Event ''log'' (log_json item)) backlog @
     map (\<lambda>r. case r of None \<Rightarrow> Ping | Some item \<Rightarrow> Event ''log'' (log_json item)) rounds"

definition item_event :: "bus_item \<Rightarrow> sse" where
  "item_event item = Event (bi_event item) (bus_json (bi_data item))"

fun session_rounds :: "bus_item option list \<Rightarrow> sse list" where
  "session_rounds [] = []"
| "session_rounds (None # rs) = Ping # session_rounds rs"
| "session_rounds (Some item # rs) =
     item_event item # (if bi_event item = ''session_end'' then [] else session_rounds rs)"

definition session_events :: "bus_item list \<Rightarrow> bus_item option list \<Rightarrow> sse list" where
  "session_events backlog rounds = map item_event backlog @ session_rounds rounds"

section \<open>The client\<close>

text \<open>\<open>buf.indexOf("\n\n")\<close> with the two slices.\<close>

fun split_frame :: "string \<Rightarrow> (string \<times> string) option" where
  "split_frame (a # b # s) =
     (if a = CHR 0x0A \<and> b = CHR 0x0A then Some ([], s)
      else (case split_frame (b # s) of None \<Rightarrow> None | Some (f, r) \<Rightarrow> Some (a # f, r)))"
| "split_frame s = None"

lemma split_frame_shorter: "split_frame s = Some (f, r) \<Longrightarrow> length r < length s"
  by (induction s arbitrary: f rule: split_frame.induct) (auto split: if_splits option.splits)

fun js_lines :: "string \<Rightarrow> string list" where
  "js_lines [] = [[]]"
| "js_lines (c # s) = (if c = CHR 0x0A then [] # js_lines s else (case js_lines s of [] \<Rightarrow> [[c]] | l # ls \<Rightarrow> (c # l) # ls))"

text \<open>\<open>String.trim\<close> on Latin-1.\<close>

definition js_space :: "char \<Rightarrow> bool" where
  "js_space c \<longleftrightarrow> code c \<in> {9, 10, 11, 12, 13, 32, 160}"

definition js_trim :: "string \<Rightarrow> string" where
  "js_trim s = strip_by js_space s"

fun frame_lines :: "string list \<Rightarrow> string \<Rightarrow> string \<Rightarrow> (string \<times> string) option" where
  "frame_lines [] event data = (if data = [] then None else Some (event, data))"
| "frame_lines (l # ls) event data =
     (if startswith l ''event:'' then frame_lines ls (js_trim (drop 6 l)) data
      else if startswith l ''data:'' then frame_lines ls event (data @ js_trim (drop 5 l))
      else if startswith l '':'' then None
      else frame_lines ls event data)"

definition parse_frame :: "(string \<Rightarrow> 'v option) \<Rightarrow> string \<Rightarrow> (string \<times> 'v) option" where
  "parse_frame parse raw =
     (case frame_lines (js_lines raw) ''message'' [] of
        None \<Rightarrow> None
      | Some (event, data) \<Rightarrow> map_option (Pair event) (parse data))"

function read_frames :: "(string \<Rightarrow> 'v option) \<Rightarrow> string \<Rightarrow> (string \<times> 'v) list \<times> string" where
  "read_frames parse buf =
     (case split_frame buf of
        None \<Rightarrow> ([], buf)
      | Some (frame, rest) \<Rightarrow>
          (case read_frames parse rest of
             (es, left) \<Rightarrow> ((case parse_frame parse frame of None \<Rightarrow> es | Some e \<Rightarrow> e # es), left)))"
  by auto
termination by (relation "measure (length \<circ> snd)") (auto simp: split_frame_shorter)

declare read_frames.simps [simp del]

text \<open>A piece arrives: the events handed on so far, and the text not yet used.\<close>

fun receive :: "(string \<Rightarrow> 'v option) \<Rightarrow> string \<Rightarrow> (string \<times> 'v) list \<times> string \<Rightarrow> (string \<times> 'v) list \<times> string" where
  "receive parse chunk (es, buf) = (case read_frames parse (buf @ chunk) of (new, left) \<Rightarrow> (es @ new, left))"

definition read_sse :: "(string \<Rightarrow> 'v option) \<Rightarrow> string list \<Rightarrow> (string \<times> 'v) list \<times> string" where
  "read_sse parse chunks = fold (receive parse) chunks ([], [])"

section \<open>Pieces\<close>

lemma split_frame_append: "split_frame a = Some (f, r) \<Longrightarrow> split_frame (a @ b) = Some (f, r @ b)"
  by (induction a arbitrary: f rule: split_frame.induct) (auto split: if_splits option.splits)

lemma read_frames_append:
  "read_frames parse (a @ b) =
     (case read_frames parse a of (es, left) \<Rightarrow> case read_frames parse (left @ b) of (new, left') \<Rightarrow> (es @ new, left'))"
proof (induction parse a rule: read_frames.induct)
  case (1 parse buf)
  show ?case
  proof (cases "split_frame buf")
    case None
    then show ?thesis by (simp add: read_frames.simps [of parse buf] split: prod.split)
  next
    case (Some fr)
    obtain f r where fr: "fr = (f, r)" by (cases fr)
    have IH: "read_frames parse (r @ b) =
      (case read_frames parse r of (es, left) \<Rightarrow> case read_frames parse (left @ b) of (new, left') \<Rightarrow> (es @ new, left'))"
      using 1 Some fr by blast
    show ?thesis
      using Some fr split_frame_append [of buf f r b]
      by (simp add: read_frames.simps [of parse buf] read_frames.simps [of parse "buf @ b"] IH split: prod.split option.split)
  qed
qed

text \<open>How the text is cut into pieces makes no difference.\<close>

lemma read_sse_pieces: "read_sse parse chunks = read_frames parse (concat chunks)"
proof (induction chunks rule: rev_induct)
  case Nil
  then show ?case by (simp add: read_sse_def read_frames.simps)
next
  case (snoc chunk chunks)
  then show ?case
    by (cases "read_frames parse (concat chunks)")
      (simp add: read_sse_def read_frames_append [of parse "concat chunks"] split: prod.split)
qed

section \<open>Frames\<close>

abbreviation nl :: char where
  "nl \<equiv> CHR 0x0A"

lemma split_line: "nl \<notin> set x \<Longrightarrow> split_frame (x @ nl # nl # s) = Some (x, s)"
proof (induction x)
  case (Cons c x)
  then show ?case by (cases x) auto
qed simp

lemma split_lines:
  assumes "nl \<notin> set x" and "nl \<notin> set y" and "y \<noteq> []"
  shows "split_frame (x @ nl # y @ nl # nl # s) = Some (x @ nl # y, s)"
  using assms(1)
proof (induction x)
  case Nil
  obtain c y' where "y = c # y'" using assms(3) by (cases y) auto
  then show ?case using split_line [OF assms(2), of s] assms(2) by auto
next
  case (Cons c x)
  then show ?case by (cases x) auto
qed

lemma js_line: "nl \<notin> set x \<Longrightarrow> js_lines x = [x]"
  by (induction x) auto

lemma js_lines_join: "nl \<notin> set x \<Longrightarrow> js_lines (x @ nl # y) = x # js_lines y"
  by (induction x) auto

text \<open>Texts that survive: no line break, and nothing to trim.\<close>

definition wire_safe :: "string \<Rightarrow> bool" where
  "wire_safe x \<longleftrightarrow> x \<noteq> [] \<and> nl \<notin> set x \<and> \<not> js_space (hd x) \<and> \<not> js_space (last x)"

lemma trim_safe: "wire_safe x \<Longrightarrow> js_trim (CHR '' '' # x) = x"
proof -
  assume x: "wire_safe x"
  then have "strip_by js_space x = x" by (intro strip_by_id) (simp add: wire_safe_def)
  moreover have "js_space (CHR '' '')" by (simp add: js_space_def code_def)
  ultimately show ?thesis by (simp add: js_trim_def strip_by_def)
qed

lemma frame_read:
  assumes "wire_safe name" and "wire_safe text"
  shows "read_frames parse (''event: '' @ name @ [nl] @ ''data: '' @ text @ [nl, nl] @ s) =
    (case read_frames parse s of (es, left) \<Rightarrow> ((case parse text of None \<Rightarrow> es | Some v \<Rightarrow> (name, v) # es), left))"
proof -
  let ?x = "''event: '' @ name" and ?y = "''data: '' @ text"
  have lines: "nl \<notin> set ?x" "nl \<notin> set ?y" "?y \<noteq> []" using assms by (simp_all add: wire_safe_def)
  have "split_frame (?x @ nl # ?y @ nl # nl # s) = Some (?x @ nl # ?y, s)" by (rule split_lines [OF lines])
  moreover have "js_lines (?x @ nl # ?y) = [?x, ?y]" using js_lines_join [OF lines(1)] js_line [OF lines(2)] by simp
  moreover have "frame_lines [?x, ?y] ''message'' [] = Some (name, text)"
    using trim_safe [OF assms(1)] trim_safe [OF assms(2)] assms(2) by (simp add: startswith_def wire_safe_def)
  ultimately have "parse_frame parse (?x @ nl # ?y) = map_option (Pair name) (parse text)"
    and split: "split_frame (?x @ nl # ?y @ nl # nl # s) = Some (?x @ nl # ?y, s)" by (simp_all add: parse_frame_def)
  then show ?thesis
    by (subst read_frames.simps) (simp split: prod.split option.split)
qed

lemma ping_read: "read_frames parse (sse_text fl Ping @ s) = read_frames parse s"
  by (subst read_frames.simps) (simp add: parse_frame_def startswith_def split: prod.split)

section \<open>No line break in JSON\<close>

lemma set_join: "set (join sep xs) \<subseteq> set sep \<union> \<Union> (set ` set xs)"
  by (induction sep xs rule: join.induct) auto

lemma hex_digit_code: "d < 16 \<Longrightarrow> code (hex_digit d) \<noteq> 10"
  by (simp add: hex_digit_def code_def)

lemma code_nl: "code nl = 10"
  by (simp add: code_def)

lemma json_char_line: "nl \<notin> set (json_char c)"
proof -
  have "code c < 256" by (simp add: code_def)
  then have d: "code c div 16 < 16" "code c mod 16 < 16" by simp_all
  have "nl \<noteq> hex_digit k" if "k < 16" for k using hex_digit_code [OF that] code_nl by metis
  from this [OF d(1)] this [OF d(2)] show ?thesis by (auto simp: json_char_def)
qed

lemma json_string_line: "nl \<notin> set (json_string s)"
  using json_char_line by (auto simp: json_string_def)

lemma dumps_line: "(\<And>x. nl \<notin> set (fl x)) \<Longrightarrow> nl \<notin> set (dumps fl j)"
proof (induction fl j rule: dumps.induct)
  case (2 fl i)
  then show ?case using str_int_chars [of nl i] by (auto simp: is_digit_def code_def)
next
  case (5 fl js)
  have "nl \<notin> \<Union> (set ` set (map (dumps fl) js))" using 5 by auto
  then show ?case using set_join [of "'', ''" "map (dumps fl) js"] by auto
next
  case (6 fl kvs)
  let ?xs = "map (\<lambda>kv. json_string (fst kv) @ '': '' @ dumps fl (snd kv)) kvs"
  have "nl \<notin> \<Union> (set ` set ?xs)" using 6 json_string_line by auto
  then show ?case using set_join [of "'', ''" ?xs] by auto
qed (simp_all add: json_string_line)

section \<open>From the console to its client\<close>

definition sent :: "sse list \<Rightarrow> (string \<times> json) list" where
  "sent evs = List.map_filter (\<lambda>e. case e of Ping \<Rightarrow> None | Event name data \<Rightarrow> Some (name, data)) evs"

lemma sent_events:
  "sent (log_events level n lines live) =
     (''hello'', hello_json level n lines) # map (\<lambda>item. (''log'', log_json item)) (lines @ List.map_filter (\<lambda>r. r) live)"
  "sent (map item_event items) = map (\<lambda>item. (bi_event item, bus_json (bi_data item))) items"
proof -
  have lines: "sent (map (\<lambda>item. Event ''log'' (log_json item)) xs @ es) = map (\<lambda>item. (''log'', log_json item)) xs @ sent es" for xs es
    by (induction xs) (simp_all add: sent_def map_filter_simps)
  have live: "sent (map (\<lambda>r. case r of None \<Rightarrow> Ping | Some item \<Rightarrow> Event ''log'' (log_json item)) rs) =
      map (\<lambda>item. (''log'', log_json item)) (List.map_filter (\<lambda>r. r) rs)" for rs
    by (induction rs) (simp_all add: sent_def map_filter_simps split: option.split)
  show "sent (log_events level n lines live) =
     (''hello'', hello_json level n lines) # map (\<lambda>item. (''log'', log_json item)) (lines @ List.map_filter (\<lambda>r. r) live)"
    using lines [of lines] live [of live] by (simp add: log_events_def sent_def map_filter_simps)
  show "sent (map item_event items) = map (\<lambda>item. (bi_event item, bus_json (bi_data item))) items"
    by (induction items) (simp_all add: sent_def item_event_def map_filter_simps)
qed

fun framed :: "sse \<Rightarrow> bool" where
  "framed Ping = True"
| "framed (Event name (J_object kvs)) = wire_safe name"
| "framed (Event name data) = False"

lemma object_safe: "(\<And>x. nl \<notin> set (fl x)) \<Longrightarrow> wire_safe (dumps fl (J_object kvs))"
  using dumps_line [of fl "J_object kvs"] by (simp add: wire_safe_def js_space_def code_def)

lemma frames_read:
  assumes "\<And>x. nl \<notin> set (fl x)" and "list_all framed evs"
  shows "read_frames parse (concat (map (sse_text fl) evs)) =
    (List.map_filter (\<lambda>(name, data). map_option (Pair name) (parse (dumps fl data))) (sent evs), [])"
  using assms(2)
proof (induction evs)
  case Nil
  then show ?case by (simp add: read_frames.simps sent_def map_filter_simps)
next
  case (Cons e evs)
  let ?rest = "concat (map (sse_text fl) evs)"
  show ?case
  proof (cases e)
    case Ping
    then show ?thesis using Cons ping_read [of parse fl ?rest] by (simp add: sent_def map_filter_simps)
  next
    case (Event name data)
    then obtain kvs where data: "data = J_object kvs" "wire_safe name" using Cons.prems by (cases data) auto
    have "wire_safe (dumps fl data)" unfolding data(1) using assms(1) by (rule object_safe)
    from frame_read [OF data(2) this, of parse ?rest] show ?thesis
      using Cons Event by (simp add: sent_def map_filter_simps del: dumps.simps split: option.split)
  qed
qed

lemma log_framed: "list_all framed (log_events level n backlog rounds)"
proof -
  have "wire_safe ''hello''" "wire_safe ''log''" by (simp_all add: wire_safe_def js_space_def code_def)
  then show ?thesis
    by (auto simp: log_events_def hello_json_def log_json_def list_all_iff split: option.split)
qed

lemma item_framed: "wire_safe (bi_event item) \<Longrightarrow> framed (item_event item)"
  by (cases "bi_data item") (simp_all add: item_event_def)

lemma session_framed:
  assumes "\<And>item. item \<in> set backlog \<or> Some item \<in> set rounds \<Longrightarrow> wire_safe (bi_event item)"
  shows "list_all framed (session_events backlog rounds)"
proof -
  have "list_all framed (session_rounds rounds)" if "\<And>item. Some item \<in> set rounds \<Longrightarrow> wire_safe (bi_event item)"
    using that by (induction rounds rule: session_rounds.induct) (simp_all add: item_framed)
  then show ?thesis using assms item_framed by (auto simp: session_events_def list_all_iff)
qed

text \<open>
  C37. What the console sends on a live stream is what the operator's page is given, however the connection cuts the
  text into pieces: the greeting, the replayed lines and then the live ones of the log stream, and the
  items of a session's stream, each once, in order, under its name, with the JSON text as it was written; the
  pings give nothing, and nothing is left over.
\<close>

theorem streams_reach_operator:
  assumes "\<And>x. CHR 0x0A \<notin> set (fl x)"
    and "concat chunks = concat (map (sse_text fl) evs)"
    and "evs = log_events level bufsize lines live \<or>
      evs = session_events items rounds \<and> (\<forall>item. item \<in> set items \<or> Some item \<in> set rounds \<longrightarrow> wire_safe (bi_event item))"
  shows "read_sse parse chunks =
    (List.map_filter (\<lambda>(name, data). map_option (Pair name) (parse (dumps fl data))) (sent evs), [])"
proof -
  have "list_all framed evs"
    using assms(3)
  proof
    assume "evs = session_events items rounds \<and> (\<forall>item. item \<in> set items \<or> Some item \<in> set rounds \<longrightarrow> wire_safe (bi_event item))"
    then show ?thesis using session_framed [of items rounds] by blast
  qed (simp add: log_framed)
  from frames_read [OF assms(1) this] show ?thesis by (simp add: read_sse_pieces assms(2))
qed

definition two_words :: bus_item where
  "two_words = \<lparr>bi_event = ''output'', bi_data = D_output 1 0 (''ab'' @ [CHR 0x0A, CHR 0x0A, CHR 0x22, CHR 0xE9]), bi_at = 0\<rparr>"

theorem streams_reach_operator_witness:
  "read_sse Some [''event: outp'', ''ut'' @ [CHR 0x0A], drop 14 (sse_text (\<lambda>_. ''0.0'') (item_event two_words)) @ '': pi'',
      ''ng'' @ [CHR 0x0A, CHR 0x0A]] =
    ([(''output'', dumps (\<lambda>_. ''0.0'') (bus_json (bi_data two_words)))], [])"
proof -
  let ?fl = "\<lambda>_. ''0.0''" and ?evs = "session_events [two_words] [None]"
  let ?chunks = "[''event: outp'', ''ut'' @ [CHR 0x0A], drop 14 (sse_text ?fl (item_event two_words)) @ '': pi'', ''ng'' @ [CHR 0x0A, CHR 0x0A]]"
  have "concat ?chunks = concat (map (sse_text ?fl) ?evs)"
    by (simp add: session_events_def item_event_def two_words_def)
  moreover have "wire_safe ''output''" by (simp add: wire_safe_def js_space_def code_def)
  ultimately have "read_sse Some ?chunks =
      (List.map_filter (\<lambda>(name, data). map_option (Pair name) (Some (dumps ?fl data))) (sent ?evs), [])"
    by (intro streams_reach_operator [where items = "[two_words]" and rounds = "[None]"]) (auto simp: two_words_def)
  then show ?thesis
    by (simp add: sent_def session_events_def item_event_def two_words_def map_filter_simps del: dumps.simps)
qed

end
