(* ===== verification/Admin_Pages.thy ===== *)
theory Admin_Pages
  imports Cursor Admin_Stats Radio_Routes Runner
begin

text \<open>
  The list pages of the admin console: live sessions and session history
  (\<^verbatim>\<open>src/zorkbot/src/zorkbot/admin/routes/sessions.py\<close>), player statistics
  (\<^verbatim>\<open>routes/players.py\<close>) and the status page (\<^verbatim>\<open>routes/meta.py\<close>).

  A query is a function of the tables. \<open>LIMIT\<close> and \<open>OFFSET\<close> are SQLite's: a negative limit is no
  limit and a negative offset is none. SQLite refuses an unqualified column name that two joined
  tables have, which the history query has as soon as a player is asked for; the route does not
  catch that exception, nor the \<open>IndexError\<close> of \<open>rows[-1]\<close> on an empty page: both are
  \<open>Server_error\<close>. The framework's own refusal of a parameter is status 422.
\<close>

section \<open>Live sessions\<close>

record session_view =
  sv_num :: int
  sv_player :: "string \<times> string"
  sv_started_at :: int
  sv_duration :: int
  sv_watchers :: "(string \<times> string) list"

text \<open>\<open>_resolve_name\<close>; \<open>None\<close> also when the lookup raises.\<close>

definition resolve_name :: "(string \<Rightarrow> contact option) \<Rightarrow> string \<Rightarrow> string" where
  "resolve_name look p =
     (case look p of
        None \<Rightarrow> take 8 p
      | Some c \<Rightarrow> if c = [] then take 8 p else (case map_of c ''adv_name'' of None \<Rightarrow> take 8 p | Some n \<Rightarrow> n))"

definition session_view_of :: "(string \<Rightarrow> contact option) \<Rightarrow> real \<Rightarrow> session_record \<Rightarrow> session_view" where
  "session_view_of look now r =
     \<lparr>sv_num = num r, sv_player = (player_id r, player_name r), sv_started_at = trunc (started_wall_at r),
      sv_duration = trunc (now - started_at r), sv_watchers = map (\<lambda>w. (w, resolve_name look w)) (sort (watchers r))\<rparr>"

definition get_sessions :: "(string \<Rightarrow> contact option) \<Rightarrow> real \<Rightarrow> string \<Rightarrow> session_state \<Rightarrow> string \<times> session_view list" where
  "get_sessions look now run st = (run, sort_key sv_num (map (session_view_of look now) (all_sessions st)))"

section \<open>Session history\<close>

definition sql_limit :: "int \<Rightarrow> 'a list \<Rightarrow> 'a list" where
  "sql_limit n xs = (if n < 0 then xs else take (nat n) xs)"

definition sql_offset :: "int \<Rightarrow> 'a list \<Rightarrow> 'a list" where
  "sql_offset n xs = drop (nat n) xs"

record history_row =
  hr_id :: int
  hr_session_num :: int
  hr_run :: string
  hr_player :: "string \<times> string option"
  hr_started_at :: int
  hr_ended_at :: "int option"
  hr_duration :: "int option"
  hr_end_reason :: "string option"
  hr_peak_watchers :: nat

text \<open>\<open>LEFT JOIN players\<close> on the primary key.\<close>

definition joined_name :: "event_db \<Rightarrow> string \<Rightarrow> string option" where
  "joined_name db p = (case find (\<lambda>r. pl_pubkey r = p) (players_tab db) of None \<Rightarrow> None | Some r \<Rightarrow> pl_name r)"

definition history_row_of :: "event_db \<Rightarrow> session_row \<Rightarrow> history_row" where
  "history_row_of db r =
     \<lparr>hr_id = sr_id r, hr_session_num = sr_num r, hr_run = sr_run r, hr_player = (sr_pubkey r, joined_name db (sr_pubkey r)),
      hr_started_at = sr_started_at r, hr_ended_at = sr_ended_at r,
      hr_duration = (case sr_ended_at r of None \<Rightarrow> None | Some e \<Rightarrow> Some (e - sr_started_at r)),
      hr_end_reason = sr_end_reason r, hr_peak_watchers = sr_peak_watchers r\<rparr>"

definition session_pubkey_re :: "string \<Rightarrow> bool" where
  "session_pubkey_re s = re_run is_lower_hex 12 12 s"

definition history_clauses :: "int option \<Rightarrow> int option \<Rightarrow> (int \<times> int) option \<Rightarrow> session_row \<Rightarrow> bool" where
  "history_clauses from_opt to_opt pos r \<longleftrightarrow>
     (case from_opt of None \<Rightarrow> True | Some f \<Rightarrow> f \<le> sr_started_at r) \<and>
     (case to_opt of None \<Rightarrow> True | Some t \<Rightarrow> sr_started_at r \<le> t) \<and>
     (case pos of None \<Rightarrow> True
      | Some (s, i) \<Rightarrow> sr_started_at r < s \<or> (sr_started_at r = s \<and> sr_id r < i))"

text \<open>\<open>ORDER BY started_at DESC, id DESC\<close>.\<close>

definition history_key :: "session_row \<Rightarrow> int \<times> int" where
  "history_key r = (- sr_started_at r, - sr_id r)"

definition history_rows :: "int option \<Rightarrow> int option \<Rightarrow> (int \<times> int) option \<Rightarrow> event_db \<Rightarrow> session_row list" where
  "history_rows from_opt to_opt pos db = sort_key history_key (filter (history_clauses from_opt to_opt pos) (sessions_tab db))"

definition cursor_clause :: "string option \<Rightarrow> http_error + (int \<times> int) option" where
  "cursor_clause cursor =
     (if \<not> truthy cursor then Inr None
      else case decode_cursor (the cursor) of
        None \<Rightarrow> Inl (bad_request ''invalid cursor'')
      | Some pos \<Rightarrow> Inr (Some pos))"

definition history_next :: "int \<Rightarrow> session_row list \<Rightarrow> http_error + string option" where
  "history_next limit rows =
     (if int (length rows) \<noteq> limit then Inr None
      else if rows = [] then Inl Server_error
      else Inr (Some (encode_cursor (sr_started_at (last rows)) (sr_id (last rows)))))"

definition session_history ::
  "int option \<Rightarrow> int option \<Rightarrow> string option \<Rightarrow> int \<Rightarrow> string option \<Rightarrow> event_db \<Rightarrow> http_error + history_row list \<times> string option" where
  "session_history from_opt to_opt player limit cursor db =
     (if 500 < limit then Inl (Http_error 422 [] [])
      else if (case player of None \<Rightarrow> False | Some p \<Rightarrow> \<not> session_pubkey_re p)
      then Inl (bad_request ''invalid player pubkey_prefix'')
      else case cursor_clause cursor of
        Inl e \<Rightarrow> Inl e
      | Inr pos \<Rightarrow>
          if player \<noteq> None then Inl Server_error
          else
            let rows = sql_limit limit (history_rows from_opt to_opt pos db)
            in case history_next limit rows of
                 Inl e \<Rightarrow> Inl e
               | Inr nxt \<Rightarrow> Inr (map (history_row_of db) rows, nxt))"

section \<open>Players\<close>

definition VALID_PLAYER_SORTS :: "(string \<times> string) list" where
  "VALID_PLAYER_SORTS =
     [(''last_active'', ''last_seen_at''), (''first_active'', ''first_seen_at''), (''sessions'', ''sessions_started''),
      (''messages_rx'', ''messages_received_from''), (''messages_tx'', ''messages_sent_to'')]"

definition player_sort_column :: "string \<Rightarrow> string option" where
  "player_sort_column s = map_of VALID_PLAYER_SORTS s"

record player_detail =
  pd_pubkey :: string
  pd_name :: "string option"
  pd_first_active :: int
  pd_last_active :: int
  pd_received_from :: nat
  pd_sent_to :: nat
  pd_delivered :: nat
  pd_undelivered :: nat
  pd_sessions_started :: nat
  pd_play_seconds :: int
  pd_banned :: bool

definition count_rows :: "('a \<Rightarrow> bool) \<Rightarrow> 'a list \<Rightarrow> nat" where
  "count_rows P rows = length (filter P rows)"

text \<open>\<open>_DETAIL_SQL\<close> with \<open>_row_to_dict\<close>, at the database's clock \<open>now\<close>.\<close>

definition detail_of :: "int \<Rightarrow> event_db \<Rightarrow> player_row \<Rightarrow> player_detail" where
  "detail_of now db r =
     (let p = pl_pubkey r;
          sent = (\<lambda>m. mg_direction m = ''tx'' \<and> mg_pubkey m = Some p)
      in \<lparr>pd_pubkey = p, pd_name = pl_name r, pd_first_active = pl_first_seen r, pd_last_active = pl_last_seen r,
          pd_received_from = count_rows (\<lambda>m. mg_direction m = ''rx'' \<and> mg_pubkey m = Some p) (messages_tab db),
          pd_sent_to = count_rows sent (messages_tab db),
          pd_delivered = count_rows (\<lambda>m. sent m \<and> mg_acked m = Some True) (messages_tab db),
          pd_undelivered = count_rows (\<lambda>m. sent m \<and> mg_acked m = Some False) (messages_tab db),
          pd_sessions_started = count_rows (\<lambda>s. sr_pubkey s = p) (sessions_tab db),
          pd_play_seconds = (\<Sum>s \<leftarrow> filter (\<lambda>s. sr_pubkey s = p) (sessions_tab db).
            (case sr_ended_at s of None \<Rightarrow> now | Some e \<Rightarrow> e) - sr_started_at s),
          pd_banned = (pl_banned_at r \<noteq> None)\<rparr>)"

definition column_value :: "string \<Rightarrow> player_detail \<Rightarrow> int" where
  "column_value col d =
     (if col = ''last_seen_at'' then pd_last_active d
      else if col = ''first_seen_at'' then pd_first_active d
      else if col = ''sessions_started'' then int (pd_sessions_started d)
      else if col = ''messages_received_from'' then int (pd_received_from d)
      else int (pd_sent_to d))"

text \<open>
  \<open>order_by\<close> is the database's sort by a column, ascending or not; the statement leaves the order
  of rows with equal values to it.
\<close>

type_synonym order_by = "(player_detail \<Rightarrow> int) \<Rightarrow> bool \<Rightarrow> player_detail list \<Rightarrow> player_detail list"

definition list_players ::
  "order_by \<Rightarrow> int \<Rightarrow> string \<Rightarrow> string \<Rightarrow> int \<Rightarrow> int \<Rightarrow> event_db \<Rightarrow> http_error + player_detail list \<times> int option" where
  "list_players order_by now sort_name order limit cursor db =
     (if 500 < limit then Inl (Http_error 422 [] [])
      else case player_sort_column sort_name of
        None \<Rightarrow> Inl (bad_request (''invalid sort: '' @ py_repr sort_name))
      | Some col \<Rightarrow>
          if order \<noteq> ''asc'' \<and> order \<noteq> ''desc'' then Inl (bad_request (''invalid order: '' @ py_repr order))
          else
            let rows = sql_limit limit (sql_offset cursor
                  (order_by (column_value col) (order = ''asc'') (map (detail_of now db) (players_tab db))))
            in Inr (rows, if int (length rows) = limit then Some (cursor + limit) else None))"

definition player_detail_of :: "int \<Rightarrow> string \<Rightarrow> event_db \<Rightarrow> http_error + player_detail" where
  "player_detail_of now p db =
     (if \<not> session_pubkey_re p then Inl (bad_request ''invalid pubkey_prefix'')
      else case find (\<lambda>r. pl_pubkey r = p) (players_tab db) of
        None \<Rightarrow> Inl (Http_error 404 ''not_found'' ''unknown player'')
      | Some r \<Rightarrow> Inr (detail_of now db r))"

section \<open>Status\<close>

text \<open>Without a runner (in simulate mode) the bot has no send gate and has flushed nothing: both values are \<open>None\<close>.\<close>

record bot_status =
  bs_run_id :: string
  bs_version :: string
  bs_uptime_seconds :: int
  bs_uptime :: string
  bs_active_sessions :: nat
  bs_send_queue_depth :: "int option"
  bs_startup_flushed :: "nat option"
  bs_game_reachable :: bool
  bs_event_queue_depth :: nat
  bs_event_queue_dropped :: nat

definition get_status ::
  "string option \<Rightarrow> exn + bool \<Rightarrow> real \<Rightarrow> real \<Rightarrow> session_state \<Rightarrow> send_gate option \<Rightarrow> nat option \<Rightarrow> event_sink \<Rightarrow> bot_status" where
  "get_status version healthy now started st gate flushed es =
     (let up = trunc (now - started)
      in \<lparr>bs_run_id = es_run_id es, bs_version = (case version of None \<Rightarrow> ''unknown'' | Some v \<Rightarrow> v),
          bs_uptime_seconds = up, bs_uptime = format_uptime (real_of_int up),
          bs_active_sessions = length (all_sessions st), bs_send_queue_depth = map_option send_queue_depth gate,
          bs_startup_flushed = flushed,
          bs_game_reachable = (case healthy of Inl _ \<Rightarrow> False | Inr ok \<Rightarrow> ok),
          bs_event_queue_depth = length (es_queue es), bs_event_queue_dropped = drop_count es\<rparr>)"

section \<open>Walking the pages\<close>

text \<open>A client that follows the cursor it is given, for at most so many requests.\<close>

fun walk_pages :: "nat \<Rightarrow> ('c \<Rightarrow> ('r list \<times> 'c option) option) \<Rightarrow> 'c \<Rightarrow> 'r list option" where
  "walk_pages 0 page c = None"
| "walk_pages (Suc k) page c =
     (case page c of
        None \<Rightarrow> None
      | Some (rows, None) \<Rightarrow> Some rows
      | Some (rows, Some c') \<Rightarrow> map_option ((@) rows) (walk_pages k page c'))"

text \<open>
  The contract of a paged route: at the cursor of position \<open>j\<close> of a list it returns the next
  \<open>size\<close> rows, and the cursor of the position after them exactly when the page is full.
\<close>

locale pager =
  fixes page :: "'q \<Rightarrow> 'c \<Rightarrow> ('r list \<times> 'c option) option"
    and good :: "'q \<Rightarrow> bool"
    and rows_of :: "'q \<Rightarrow> 'r list"
    and page_size :: "'q \<Rightarrow> nat"
    and at_pos :: "'q \<Rightarrow> nat \<Rightarrow> 'c"
  assumes size_pos: "good q \<Longrightarrow> 0 < page_size q"
    and page_at: "good q \<Longrightarrow> j \<le> length (rows_of q) \<Longrightarrow>
      page q (at_pos q j) =
        Some (take (page_size q) (drop j (rows_of q)),
          if page_size q \<le> length (rows_of q) - j then Some (at_pos q (j + page_size q)) else None)"
begin

lemma walk_from:
  assumes "good q"
  shows "j \<le> length (rows_of q) \<Longrightarrow> length (rows_of q) - j < k \<Longrightarrow>
    walk_pages k (page q) (at_pos q j) = Some (drop j (rows_of q))"
proof (induction k arbitrary: j)
  case (Suc k)
  show ?case
  proof (cases "page_size q \<le> length (rows_of q) - j")
    case True
    let ?i = "j + page_size q"
    have "?i \<le> length (rows_of q)" using True Suc.prems(1) by simp
    moreover have "length (rows_of q) - ?i < k" using True Suc.prems size_pos [OF assms] by simp
    ultimately have "walk_pages k (page q) (at_pos q ?i) = Some (drop ?i (rows_of q))" by (rule Suc.IH)
    then show ?thesis
      using True page_at [OF assms Suc.prems(1)] append_take_drop_id [of "page_size q" "drop j (rows_of q)"]
      by (simp add: add.commute)
  next
    case False
    then show ?thesis using page_at [OF assms Suc.prems(1)] by simp
  qed
qed simp

lemma walk_all: "good q \<Longrightarrow> length (rows_of q) < k \<Longrightarrow> walk_pages k (page q) (at_pos q 0) = Some (rows_of q)"
  using walk_from [of q 0 k] by simp

end

subsection \<open>The history\<close>

lemma filter_above:
  fixes key :: "'a \<Rightarrow> 'k :: linorder"
  assumes "sorted_wrt (\<lambda>x y. key x < key y) L" and "j < length L"
  shows "filter (\<lambda>r. key (L ! j) < key r) L = drop (Suc j) L"
proof -
  let ?P = "\<lambda>r. key (L ! j) < key r"
  have "filter (\<lambda>r. key (L ! j) < key r) (take (Suc j) L) = []"
  proof (rule filter_False, rule ballI)
    fix x assume "x \<in> set (take (Suc j) L)"
    then obtain i where i: "i \<le> j" "x = L ! i" using assms(2) by (auto simp: in_set_conv_nth less_Suc_eq_le)
    show "\<not> key (L ! j) < key x"
    proof (cases "i = j")
      case False
      then have "key (L ! i) < key (L ! j)" using sorted_wrt_nth_less [OF assms(1), of i j] i(1) assms(2) by simp
      then show ?thesis using i(2) by simp
    qed (simp add: i(2))
  qed
  moreover have "filter (\<lambda>r. key (L ! j) < key r) (drop (Suc j) L) = drop (Suc j) L"
  proof (rule filter_True, rule ballI)
    fix x assume "x \<in> set (drop (Suc j) L)"
    then obtain i where i: "i < length L - Suc j" "x = L ! (Suc j + i)" by (auto simp: in_set_conv_nth)
    then show "key (L ! j) < key x" using sorted_wrt_nth_less [OF assms(1), of j "Suc j + i"] by simp
  qed
  ultimately show ?thesis using filter_append [of ?P "take (Suc j) L" "drop (Suc j) L"] by simp
qed

text \<open>The tables as the database keeps them: row ids are unique, integers have 64 bits.\<close>

definition history_ok :: "event_db \<Rightarrow> bool" where
  "history_ok db \<longleftrightarrow> distinct (map sr_id (sessions_tab db)) \<and>
     list_all (\<lambda>r. \<bar>sr_started_at r\<bar> < 2 ^ 63 \<and> \<bar>sr_id r\<bar> < 2 ^ 63) (sessions_tab db)"

lemma history_rows_strict:
  assumes "history_ok db"
  shows "sorted_wrt (\<lambda>r s. history_key r < history_key s) (history_rows f t None db)"
proof -
  let ?L = "history_rows f t None db"
  have "distinct (map sr_id (filter (history_clauses f t None) (sessions_tab db)))"
    using assms distinct_map_filter unfolding history_ok_def by blast
  then have "distinct (map history_key (filter (history_clauses f t None) (sessions_tab db)))"
    by (auto simp: distinct_map history_key_def inj_on_def)
  then have "distinct (map history_key ?L)"
    by (simp add: history_rows_def distinct_map)
  moreover have "sorted (map history_key ?L)" by (simp add: history_rows_def)
  ultimately have "sorted_wrt (<) (map history_key ?L)" using strict_sorted_iff by blast
  then show ?thesis by (simp add: sorted_wrt_map)
qed

lemma history_rows_after:
  "history_rows f t (Some (sr_started_at r, sr_id r)) db = filter (\<lambda>s. history_key r < history_key s) (history_rows f t None db)"
proof -
  have "history_clauses f t (Some (sr_started_at r, sr_id r)) s \<longleftrightarrow>
      history_clauses f t None s \<and> history_key r < history_key s" for s
    by (auto simp: history_clauses_def history_key_def)
  then have "history_clauses f t (Some (sr_started_at r, sr_id r)) =
      (\<lambda>s. history_clauses f t None s \<and> history_key r < history_key s)" by (rule ext)
  then show ?thesis by (simp add: history_rows_def filter_sort)
qed

record history_query =
  hq_from :: "int option"
  hq_to :: "int option"
  hq_limit :: int
  hq_db :: event_db

definition history_page :: "history_query \<Rightarrow> string option \<Rightarrow> (history_row list \<times> string option option) option" where
  "history_page q cursor =
     (case session_history (hq_from q) (hq_to q) None (hq_limit q) cursor (hq_db q) of
        Inl _ \<Rightarrow> None
      | Inr (rows, nxt) \<Rightarrow> Some (rows, map_option Some nxt))"

definition history_all :: "history_query \<Rightarrow> history_row list" where
  "history_all q = map (history_row_of (hq_db q)) (history_rows (hq_from q) (hq_to q) None (hq_db q))"

definition history_at :: "history_query \<Rightarrow> nat \<Rightarrow> string option" where
  "history_at q j =
     (case j of 0 \<Rightarrow> None
      | Suc i \<Rightarrow> (let r = history_rows (hq_from q) (hq_to q) None (hq_db q) ! i in Some (encode_cursor (sr_started_at r) (sr_id r))))"

definition history_good :: "history_query \<Rightarrow> bool" where
  "history_good q \<longleftrightarrow> 0 < hq_limit q \<and> hq_limit q \<le> 500 \<and> history_ok (hq_db q)"

lemma encode_cursor_nonempty: "encode_cursor s i \<noteq> []"
proof -
  have "b64encode (c # cs) \<noteq> []" for c cs by (cases "c # cs" rule: b64encode.cases) auto
  then show ?thesis by (cases "str_int s @ '':'' @ str_int i") (simp_all add: encode_cursor_def)
qed

lemma history_cursor_at:
  assumes "history_ok (hq_db q)" and "j \<le> length (history_rows (hq_from q) (hq_to q) None (hq_db q))"
  shows "\<exists>pos. cursor_clause (history_at q j) = Inr pos \<and>
    history_rows (hq_from q) (hq_to q) pos (hq_db q) = drop j (history_rows (hq_from q) (hq_to q) None (hq_db q))"
proof (cases j)
  case 0
  then show ?thesis by (simp add: history_at_def cursor_clause_def truthy_def)
next
  case (Suc i)
  let ?L = "history_rows (hq_from q) (hq_to q) None (hq_db q)"
  let ?r = "?L ! i"
  have i: "i < length ?L" using assms(2) Suc by simp
  then have "?r \<in> set (sessions_tab (hq_db q))" using nth_mem [OF i] by (simp add: history_rows_def)
  then have "\<bar>sr_started_at ?r\<bar> < 2 ^ 63" "\<bar>sr_id ?r\<bar> < 2 ^ 63" using assms(1) by (simp_all add: history_ok_def list_all_iff)
  then have "decode_cursor (encode_cursor (sr_started_at ?r) (sr_id ?r)) = Some (sr_started_at ?r, sr_id ?r)"
    by (intro decode_encode_cursor) simp_all
  then have "cursor_clause (history_at q j) = Inr (Some (sr_started_at ?r, sr_id ?r))"
    using Suc by (simp add: history_at_def cursor_clause_def truthy_def encode_cursor_nonempty Let_def)
  moreover have "filter (\<lambda>s. history_key ?r < history_key s) ?L = drop (Suc i) ?L"
    by (rule filter_above [OF history_rows_strict [OF assms(1)] i])
  ultimately show ?thesis using Suc by (simp add: history_rows_after)
qed

interpretation history: pager history_page history_good history_all "\<lambda>q. nat (hq_limit q)" history_at
proof unfold_locales
  fix q j assume q: "history_good q" and j: "j \<le> length (history_all q)"
  let ?L = "history_rows (hq_from q) (hq_to q) None (hq_db q)"
  let ?n = "nat (hq_limit q)"
  have n: "0 < ?n" "int ?n = hq_limit q" "\<not> 500 < hq_limit q" "\<not> hq_limit q < 0" using q by (simp_all add: history_good_def)
  have len: "j \<le> length ?L" using j by (simp add: history_all_def)
  obtain pos where pos: "cursor_clause (history_at q j) = Inr pos"
    "history_rows (hq_from q) (hq_to q) pos (hq_db q) = drop j ?L"
    using history_cursor_at [OF _ len] q unfolding history_good_def by blast
  let ?rows = "take ?n (drop j ?L)"
  have full: "history_next (hq_limit q) ?rows =
      Inr (if ?n \<le> length ?L - j then history_at q (j + ?n) else None)"
  proof (cases "?n \<le> length ?L - j")
    case True
    then have "last ?rows = ?L ! (j + ?n - 1)" using n(1) by (simp add: last_conv_nth)
    moreover have "length ?rows = ?n" "?rows \<noteq> []" using True n(1) by auto
    moreover have "history_at q (j + ?n) = Some (encode_cursor (sr_started_at (?L ! (j + ?n - 1))) (sr_id (?L ! (j + ?n - 1))))"
      using n(1) by (cases "j + ?n") (simp_all add: history_at_def Let_def)
    ultimately show ?thesis using True n(2) by (simp add: history_next_def)
  next
    case False
    then have "int (length ?rows) \<noteq> hq_limit q" using n(2) by simp
    then show ?thesis using False by (simp add: history_next_def)
  qed
  have nxt: "map_option Some (if c then history_at q (j + ?n) else None) = (if c then Some (history_at q (j + ?n)) else None)" for c
    using n(1) by (cases "j + ?n") (simp_all add: history_at_def Let_def)
  show "history_page q (history_at q j) =
      Some (take ?n (drop j (history_all q)), if ?n \<le> length (history_all q) - j then Some (history_at q (j + ?n)) else None)"
    using pos full n(3,4) nxt [of "?n \<le> length ?L - j"]
    by (simp add: history_page_def session_history_def sql_limit_def history_all_def take_map drop_map)
qed (simp add: history_good_def)

text \<open>Row ids are handed out in ascending order and never changed, so they stay unique.\<close>

definition ids_fresh :: "event_db \<Rightarrow> bool" where
  "ids_fresh db \<longleftrightarrow> distinct (map sr_id (sessions_tab db)) \<and> (\<forall>r \<in> set (sessions_tab db). sr_id r < session_seq db)"

lemma ids_fresh_map:
  assumes "\<And>r. sr_id (f r) = sr_id r"
  shows "ids_fresh (db\<lparr>sessions_tab := map f (sessions_tab db)\<rparr>) \<longleftrightarrow> ids_fresh db"
  by (simp add: ids_fresh_def comp_def assms)

lemma exec_stmt_ids:
  assumes "ids_fresh db" and "exec_stmt st db = Some db'"
  shows "ids_fresh db'"
proof (cases st)
  case (Insert_session run n p tm)
  then show ?thesis using assms by (fastforce simp: ids_fresh_def split: if_splits)
next
  case (Delete_sessions cutoff)
  then show ?thesis using assms by (auto simp: ids_fresh_def distinct_map_filter)
next
  case (End_session tm reason run n)
  then show ?thesis using assms by (auto simp: on_session_def ids_fresh_map)
next
  case (Peak_watchers k run n)
  then show ?thesis using assms by (auto simp: on_session_def ids_fresh_map)
qed (use assms in \<open>auto simp: ids_fresh_def\<close>)

lemma exec_all_ids: "ids_fresh db \<Longrightarrow> exec_all ss db = Some db' \<Longrightarrow> ids_fresh db'"
  by (induction ss arbitrary: db) (auto split: option.splits dest: exec_stmt_ids)

definition wide_ints :: "event_db \<Rightarrow> bool" where
  "wide_ints db \<longleftrightarrow> list_all (\<lambda>r. \<bar>sr_started_at r\<bar> < 2 ^ 63 \<and> \<bar>sr_id r\<bar> < 2 ^ 63) (sessions_tab db)"

lemma history_ok_reached: "exec_all ss empty_db = Some db \<Longrightarrow> wide_ints db \<Longrightarrow> history_ok db"
  using exec_all_ids [of empty_db ss db] by (simp add: history_ok_def ids_fresh_def wide_ints_def empty_db_def)

text \<open>
  C21. Following the cursors of the session history shows every session of the range exactly once,
  newest first, for every page size the route accepts from 1 on, on any table the event writer
  can have written: no session is skipped or repeated at a page boundary, also when sessions
  started in the same second, and the walk ends.
\<close>

theorem history_walk_complete:
  assumes "exec_all ss empty_db = Some db" and "wide_ints db" and "0 < limit" and "limit \<le> 500"
    and "length (sessions_tab db) < k"
  shows "walk_pages k (history_page \<lparr>hq_from = f, hq_to = t, hq_limit = limit, hq_db = db\<rparr>) None =
    Some (map (history_row_of db) (sort_key history_key (filter (history_clauses f t None) (sessions_tab db))))"
proof -
  let ?q = "\<lparr>hq_from = f, hq_to = t, hq_limit = limit, hq_db = db\<rparr>"
  have "history_good ?q" using assms(1-4) by (simp add: history_good_def history_ok_reached)
  moreover have "length (history_all ?q) < k"
    using le_less_trans [OF length_filter_le assms(5)] by (simp add: history_all_def history_rows_def)
  ultimately have "walk_pages k (history_page ?q) (history_at ?q 0) = Some (history_all ?q)" by (rule history.walk_all)
  then show ?thesis by (simp add: history_at_def history_all_def history_rows_def)
qed

definition two_started :: event_db where
  "two_started = snd (run_many
     [Upsert_player ''aa'' None 5, Insert_session ''r'' 1 ''aa'' 7, Insert_session ''r'' 2 ''aa'' 7] empty_db)"

theorem history_walk_complete_witness:
  "map_option (map hr_id)
     (walk_pages 3 (history_page \<lparr>hq_from = Some 1, hq_to = None, hq_limit = 1, hq_db = two_started\<rparr>) None) = Some [2, 1]"
proof -
  let ?ss = "[Upsert_player ''aa'' None 5, Insert_session ''r'' 1 ''aa'' 7, Insert_session ''r'' 2 ''aa'' 7]"
  have run: "exec_all ?ss empty_db = Some two_started"
    by (simp add: two_started_def run_many_def empty_db_def upsert_player_def has_session_def has_player_def)
  have "map sr_id (sessions_tab two_started) = [1, 2]" and tab: "map sr_started_at (sessions_tab two_started) = [7, 7]"
    by (simp_all add: two_started_def run_many_def empty_db_def upsert_player_def has_session_def has_player_def)
  then obtain a b where ab: "sessions_tab two_started = [a, b]" "sr_id a = 1" "sr_id b = 2" "sr_started_at a = 7" "sr_started_at b = 7"
    by auto
  have "wide_ints two_started" by (simp add: wide_ints_def ab)
  from history_walk_complete [OF run this, of 1 3 "Some 1" None] show ?thesis
    by (simp add: ab history_clauses_def history_key_def history_row_of_def)
qed

subsection \<open>The players\<close>

record player_query =
  pq_now :: int
  pq_sort :: string
  pq_order :: string
  pq_limit :: int
  pq_db :: event_db

definition player_page :: "order_by \<Rightarrow> player_query \<Rightarrow> int \<Rightarrow> (player_detail list \<times> int option) option" where
  "player_page order_by q cursor =
     (case list_players order_by (pq_now q) (pq_sort q) (pq_order q) (pq_limit q) cursor (pq_db q) of
        Inl _ \<Rightarrow> None | Inr r \<Rightarrow> Some r)"

definition player_all :: "order_by \<Rightarrow> player_query \<Rightarrow> player_detail list" where
  "player_all order_by q =
     order_by (column_value (the (player_sort_column (pq_sort q)))) (pq_order q = ''asc'')
       (map (detail_of (pq_now q) (pq_db q)) (players_tab (pq_db q)))"

definition player_good :: "player_query \<Rightarrow> bool" where
  "player_good q \<longleftrightarrow> 0 < pq_limit q \<and> pq_limit q \<le> 500 \<and> player_sort_column (pq_sort q) \<noteq> None \<and>
     (pq_order q = ''asc'' \<or> pq_order q = ''desc'')"

interpretation players: pager "player_page order_by" player_good "player_all order_by" "\<lambda>q. nat (pq_limit q)" "\<lambda>q j. int j"
proof unfold_locales
  fix q j assume q: "player_good q" and j: "j \<le> length (player_all order_by q)"
  obtain col where col: "player_sort_column (pq_sort q) = Some col" using q by (auto simp: player_good_def)
  have n: "0 < pq_limit q" "\<not> 500 < pq_limit q" "\<not> (pq_order q \<noteq> ''asc'' \<and> pq_order q \<noteq> ''desc'')"
    using q by (auto simp: player_good_def)
  let ?rows = "take (nat (pq_limit q)) (drop j (player_all order_by q))"
  have "list_players order_by (pq_now q) (pq_sort q) (pq_order q) (pq_limit q) (int j) (pq_db q) =
      Inr (?rows, if int (length ?rows) = pq_limit q then Some (int j + pq_limit q) else None)"
    using n col by (simp add: list_players_def player_all_def sql_limit_def sql_offset_def Let_def)
  moreover have "int (length ?rows) = pq_limit q \<longleftrightarrow> nat (pq_limit q) \<le> length (player_all order_by q) - j"
    using n(1) by auto
  ultimately show "player_page order_by q (int j) =
      Some (?rows, if nat (pq_limit q) \<le> length (player_all order_by q) - j then Some (int (j + nat (pq_limit q))) else None)"
    using n(1) by (simp add: player_page_def)
qed (simp add: player_good_def)

text \<open>
  The list of players can be walked the same way as long as the database sorts the same rows the same
  way for every page: every player is shown exactly once.
\<close>

lemma player_walk_complete:
  assumes "\<And>f up xs. mset (order_by f up xs) = mset xs" and "player_good q" and "length (players_tab (pq_db q)) < k"
  shows "\<exists>rows. walk_pages k (player_page order_by q) 0 = Some rows \<and>
    mset rows = image_mset (detail_of (pq_now q) (pq_db q)) (mset (players_tab (pq_db q)))"
proof -
  have all: "mset (player_all order_by q) = image_mset (detail_of (pq_now q) (pq_db q)) (mset (players_tab (pq_db q)))"
    using assms(1) by (simp add: player_all_def)
  then have "length (player_all order_by q) = length (players_tab (pq_db q))"
    by (metis mset_map size_mset length_map)
  then have "walk_pages k (player_page order_by q) (int 0) = Some (player_all order_by q)"
    using players.walk_all [OF assms(2)] assms(3) by simp
  then show ?thesis using all by simp
qed

text \<open>
  What is measured of the deliveries never exceeds what was sent, and a negative page size lifts the
  limit of 500 rows per page.
\<close>

lemma detail_bounds: "pd_delivered (detail_of now db r) + pd_undelivered (detail_of now db r) \<le> pd_sent_to (detail_of now db r)"
proof -
  have "length (filter (\<lambda>m. P m \<and> f m = Some True) ms) + length (filter (\<lambda>m. P m \<and> f m = Some False) ms) \<le> length (filter P ms)"
    for P :: "message_row \<Rightarrow> bool" and f :: "message_row \<Rightarrow> bool option" and ms by (induction ms) auto
  from this [of "\<lambda>m. mg_direction m = ''tx'' \<and> mg_pubkey m = Some (pl_pubkey r)" mg_acked "messages_tab db"]
  show ?thesis by (simp add: detail_of_def count_rows_def Let_def)
qed

text \<open>
  Asking for one player's sessions never works: whatever the tables hold, a well-formed player
  prefix ends in the database's refusal, and so does a page size of 0; a negative page size
  returns all sessions at once.
\<close>

theorem history_requests_fail:
  "(session_pubkey_re p \<and> limit \<le> 500 \<longrightarrow> session_history f t (Some p) limit None db = Inl Server_error) \<and>
   session_history f t None 0 None db = Inl Server_error \<and>
   session_history f t None (- 1) None db = Inr (map (history_row_of db) (history_rows f t None db), None)"
  by (auto simp: session_history_def cursor_clause_def truthy_def sql_limit_def history_next_def Let_def)

theorem history_requests_fail_witness:
  "session_history None None (Some ''00000000dead'') 100 None empty_db = Inl Server_error"
proof -
  have "session_pubkey_re ''00000000dead''" by code_simp
  then show ?thesis using history_requests_fail [of "''00000000dead''" 100 None None empty_db] by simp
qed

end
