(* ===== verification/Admin_Server.thy ===== *)
theory Admin_Server
  imports Admin_Pages Log_Bus
begin

text \<open>
  The admin console as a whole, \<open>AdminUIServer\<close> and \<open>create_app\<close> of
  \<^verbatim>\<open>src/zorkbot/src/zorkbot/admin/__init__.py\<close>: it owns the authentication service, the event sink with
  the store and the session bus, and the log bus, and serves the routes of the other theories. Every
  router but the authentication one declares \<open>Depends(require_scope())\<close> on each of its routes, so a
  request first passes the bearer-token check and only then reaches its handler.

  What the console shows of the bot (registry, send gate, message windows, contacts) is a \<open>bot_side\<close>,
  given with each request. What other tasks do while a handler waits is part of the request: sink
  operations for the session chart, turns for the radio.
\<close>

section \<open>State\<close>

record console =
  con_auth :: auth_state
  con_sink :: event_sink
  con_log :: log_bus
  con_radio :: radio_state

text \<open>
  The constructor; \<open>deque(maxlen=n)\<close> raises \<open>ValueError\<close> for a negative \<open>n\<close>, the log bus at once
  and the session bus at its first event, so the sizes are assumed not to be negative. The batch
  size of the sink is its default.
\<close>

definition new_console ::
  "admin_ui_config \<Rightarrow> string \<Rightarrow> admin_user option \<Rightarrow> refresh_row list \<Rightarrow> event_db \<Rightarrow> radio_state \<Rightarrow> console" where
  "new_console cfg run user rows db radio =
     \<lparr>con_auth = new_auth_service (access_token_ttl_seconds cfg) (refresh_token_ttl_seconds cfg) user rows,
      con_sink = new_event_sink run (event_queue_size cfg) 100
        (new_session_bus (nat (live_buffer_events cfg)) (max_live_streams cfg)) db,
      con_log = new_log_bus (nat (log_buffer_lines cfg)) (max_log_streams cfg),
      con_radio = radio\<rparr>"

definition console_start :: "crypto \<Rightarrow> real \<Rightarrow> bytes \<Rightarrow> console \<Rightarrow> console" where
  "console_start c wall salt con = con\<lparr>con_auth := ensure_admin_user c wall salt (con_auth con)\<rparr>"

text \<open>One round of \<open>_retention_loop\<close>: one transaction over the events and the refresh tokens.\<close>

definition console_prune :: "real \<Rightarrow> int \<Rightarrow> console \<Rightarrow> console" where
  "console_prune wall days con =
     (if days \<le> 0 then con
      else con\<lparr>con_sink := sink_step (Prune_db wall days) (con_sink con),
               con_auth := prune_refresh_tokens wall (trunc wall - days * 86400) (con_auth con)\<rparr>)"

definition console_stop :: "console \<Rightarrow> console" where
  "console_stop con = con\<lparr>con_log := log_detach (con_log con), con_sink := sink_stop (con_sink con)\<rparr>"

section \<open>Routes\<close>

record bot_side =
  side_registry :: session_state
  side_gate :: "send_gate option"
  side_windows :: message_windows
  side_mesh :: mesh_view
  side_lookup :: "string \<Rightarrow> contact option"
  side_can_write :: bool

datatype route =
    Get_sessions real
  | Get_history "int option" "int option" "string option" int "string option"
  | Get_stream int
  | Get_stats_sessions real "int option" "int option" string "sink_op list"
  | Get_stats_messages real "int option" "int option" string string string
  | Get_stats_delivery real "int option" "int option" string
  | Get_stats_commands real "int option" "int option" string "string option" string
  | Get_players order_by int string string int int
  | Get_player int string
  | Get_status "string option" "exn + bool" real real "nat option"
  | Get_log_stream string
  | Get_radio turn turn
  | Get_contacts
  | Get_contact_messages string
  | Get_channels turn turn
  | Get_channel_messages turn int
  | Put_channel turn turn turn real int "pydict option"
  | Delete_channel turn turn turn real bytes int

datatype response =
    Refused http_error
  | Sessions "string \<times> session_view list"
  | History "history_row list \<times> string option"
  | Stream_opened nat "bus_item list"
  | Series "(int \<times> counts) list"
  | Players "player_detail list \<times> int option"
  | Player player_detail
  | Status bot_status
  | Log_opened nat "log_item list"
  | Radio radio_snapshot
  | Contacts "(contact_row \<times> nat) list"
  | Messages messages_reply
  | Channels "channel_row list \<times> int list \<times> int option"
  | Channel_set put_reply
  | Channel_cleared int

definition answer_with :: "('a \<Rightarrow> response) \<Rightarrow> http_error + 'a \<Rightarrow> response" where
  "answer_with f r = (case r of Inl e \<Rightarrow> Refused e | Inr v \<Rightarrow> f v)"

fun opened :: "stream_open \<Rightarrow> response" where
  "opened Not_found = Refused (Http_error 404 ''not_found'' ''no such active session'')"
| "opened Too_many = Refused (Http_error 429 ''too_many_streams'' ''max concurrent admin streams reached'')"
| "opened (Opened q backlog) = Stream_opened q backlog"

fun serve_route :: "bot_side \<Rightarrow> route \<Rightarrow> console \<Rightarrow> response \<times> console" where
  "serve_route b (Get_sessions now) con =
     (Sessions (get_sessions (side_lookup b) now (es_run_id (con_sink con)) (side_registry b)), con)"
| "serve_route b (Get_history f t p limit cursor) con =
     (answer_with History (session_history f t p limit cursor (es_db (con_sink con))), con)"
| "serve_route b (Get_stream n) con =
     (case stream_session (get_session_by_num n (side_registry b) \<noteq> None) n (es_bus (con_sink con)) of
        (r, bus) \<Rightarrow> (opened r, con\<lparr>con_sink := (con_sink con)\<lparr>es_bus := bus\<rparr>\<rparr>))"
| "serve_route b (Get_stats_sessions wall f t bkt ops) con =
     (let es = fold sink_step ops (con_sink con)
      in (answer_with Series (stats_sessions wall f t bkt (es_db (con_sink con)) (es_db es)), con\<lparr>con_sink := es\<rparr>))"
| "serve_route b (Get_stats_messages wall f t bkt dir tr) con =
     (answer_with Series (stats_messages wall f t bkt dir tr (es_db (con_sink con))), con)"
| "serve_route b (Get_stats_delivery wall f t bkt) con =
     (answer_with Series (stats_delivery wall f t bkt (es_db (con_sink con))), con)"
| "serve_route b (Get_stats_commands wall f t bkt cmd tr) con =
     (answer_with Series (stats_commands wall f t bkt cmd tr (es_db (con_sink con))), con)"
| "serve_route b (Get_players ord now s d limit cursor) con =
     (answer_with Players (list_players ord now s d limit cursor (es_db (con_sink con))), con)"
| "serve_route b (Get_player now p) con = (answer_with Player (player_detail_of now p (es_db (con_sink con))), con)"
| "serve_route b (Get_status version healthy now started flushed) con =
     (Status (get_status version healthy now started (side_registry b) (side_gate b) flushed (con_sink con)), con)"
| "serve_route b (Get_log_stream level) con =
     (case stream_logs level (con_log con) of
        (r, lb) \<Rightarrow> (answer_with (\<lambda>(q, backlog). Log_opened q backlog) r, con\<lparr>con_log := lb\<rparr>))"
| "serve_route b (Get_radio t1 t2) con =
     (case get_radio (side_mesh b) t1 t2 (con_radio con) of (r, rs) \<Rightarrow> (Radio r, con\<lparr>con_radio := rs\<rparr>))"
| "serve_route b Get_contacts con = (Contacts (get_contacts (side_mesh b) (side_windows b)), con)"
| "serve_route b (Get_contact_messages p) con =
     (answer_with Messages (get_contact_messages (side_mesh b) (side_windows b) p), con)"
| "serve_route b (Get_channels t1 t2) con =
     (case get_channels t1 t2 (side_windows b) (con_radio con) of (r, rs) \<Rightarrow> (Channels r, con\<lparr>con_radio := rs\<rparr>))"
| "serve_route b (Get_channel_messages t idx) con =
     (case get_channel_messages t (side_windows b) idx (con_radio con) of
        (r, rs) \<Rightarrow> (answer_with Messages r, con\<lparr>con_radio := rs\<rparr>))"
| "serve_route b (Put_channel t1 t2 t3 now idx bd) con =
     (case put_channel (side_mesh b) (side_windows b) (side_can_write b) t1 t2 t3 now idx bd (con_radio con) of
        (r, rs) \<Rightarrow> (answer_with Channel_set r, con\<lparr>con_radio := rs\<rparr>))"
| "serve_route b (Delete_channel t1 t2 t3 now key idx) con =
     (case delete_channel (side_mesh b) (side_can_write b) t1 t2 t3 now key idx (con_radio con) of
        (r, rs) \<Rightarrow> (answer_with Channel_cleared r, con\<lparr>con_radio := rs\<rparr>))"

text \<open>A request to one of these routers, with the clock and the header the dependency reads.\<close>

definition serve_api :: "crypto \<Rightarrow> bot_side \<Rightarrow> real \<Rightarrow> string option \<Rightarrow> route \<Rightarrow> console \<Rightarrow> response \<times> console" where
  "serve_api c b wall authorization r con =
     (case require_scope c SCOPE_ADMIN wall authorization (con_auth con) of
        (Inl e, a) \<Rightarrow> (Refused e, con\<lparr>con_auth := a\<rparr>)
      | (Inr _, a) \<Rightarrow> serve_route b r (con\<lparr>con_auth := a\<rparr>))"

text \<open>
  What happens to the console: requests to the authentication router, requests to the others, calls
  of the sink and steps of its writer, log records, and the daily prune.
\<close>

datatype console_event =
    Auth_call auth_request
  | Api_call bot_side real "string option" route
  | Sink_event sink_op
  | Log_event log_op
  | Prune_round real int

fun console_step :: "crypto \<Rightarrow> console_event \<Rightarrow> console \<Rightarrow> console" where
  "console_step c (Auth_call req) con = con\<lparr>con_auth := serve_auth c req (con_auth con)\<rparr>"
| "console_step c (Api_call b wall authorization r) con = snd (serve_api c b wall authorization r con)"
| "console_step c (Sink_event op) con = con\<lparr>con_sink := sink_step op (con_sink con)\<rparr>"
| "console_step c (Log_event op) con = con\<lparr>con_log := log_step op (con_log con)\<rparr>"
| "console_step c (Prune_round wall days) con = console_prune wall days con"

section \<open>Access\<close>

lemma serve_route_auth: "con_auth (snd (serve_route b r con)) = con_auth con"
  by (cases r) (simp_all add: case_prod_beta Let_def)

lemma serve_api_auth:
  "con_auth (snd (serve_api c b wall authorization r con)) = snd (require_scope c SCOPE_ADMIN wall authorization (con_auth con))"
  by (cases "require_scope c SCOPE_ADMIN wall authorization (con_auth con)")
    (simp add: serve_api_def serve_route_auth split: sum.split)

text \<open>To the authentication service every event is one of its requests, or nothing.\<close>

fun auth_view :: "console_event \<Rightarrow> auth_request list" where
  "auth_view (Auth_call req) = [req]"
| "auth_view (Api_call b wall authorization r) = [Other_route wall authorization]"
| "auth_view (Prune_round wall days) = (if days \<le> 0 then [] else [Daily_prune wall (trunc wall - days * 86400)])"
| "auth_view ev = []"

lemma console_step_auth: "con_auth (console_step c ev con) = fold (serve_auth c) (auth_view ev) (con_auth con)"
  by (cases ev) (simp_all add: serve_api_auth console_prune_def)

lemma console_run_auth:
  "con_auth (fold (console_step c) evs con) = fold (serve_auth c) (concat (map auth_view evs)) (con_auth con)"
  by (induction evs arbitrary: con) (simp_all add: console_step_auth)

lemma refused_changes_nothing:
  assumes "fst (require_scope c SCOPE_ADMIN wall authorization (con_auth con)) = Inl e"
  shows "serve_api c b wall authorization r con =
    (Refused e, con\<lparr>con_auth := snd (require_scope c SCOPE_ADMIN wall authorization (con_auth con))\<rparr>)"
  using assms by (cases "require_scope c SCOPE_ADMIN wall authorization (con_auth con)") (simp add: serve_api_def)


definition demo_radio :: radio_state where
  "demo_radio = new_radio_state 30 [] False 2"

definition demo_side :: bot_side where
  "demo_side = \<lparr>side_registry = new_session_state 3, side_gate = None, side_windows = new_message_windows 1 1 [] ''zork'',
     side_mesh = demo_mesh, side_lookup = (\<lambda>_. None), side_can_write = False\<rparr>"

definition first_login :: auth_request where
  "first_login = Post_token 0 0 1 1 \<lparr>td_access = ''a1'', td_refresh = ''r1''\<rparr> None ''password'' (Some ''admin'') (Some DEFAULT_PASSWORD) None"

definition demo_console :: console where
  "demo_console = fold (console_step toy_crypto) [Auth_call first_login]
     (console_start toy_crypto 0 ''salt'' (new_console default_admin_ui ''run'' None [] empty_db demo_radio))"

lemmas login_eval = first_login_def demo_console_def console_start_def new_console_def ensure_admin_user_def new_auth_service_def
  post_token_def password_grant_def login_finish_def login_check_def throttle_check_def new_throttle_def fresh_bucket_def
  locked_for_def get_user_def issue_tokens_def insert_token_def find_token_def truthy_def DEFAULT_PASSWORD_def


text \<open>
  C9. Only who has earned an access token gets past the door of the console: when a request to a route
  outside the authentication router is not refused at the door, its bearer token has the hash of an
  access token that an earlier token request of this run earned, with the account's password while
  the throttle was open or with a live refresh token, and that entry has the admin scope and has not
  expired. Access tokens do not survive a restart.
\<close>

theorem console_access_earned:
  assumes "con = fold (console_step c) evs (console_start c w salt (new_console cfg run user rows db radio))"
    and "fst (require_scope c SCOPE_ADMIN wall authorization (con_auth con)) = Inr e"
  shows "\<exists>tok. bearer_token authorization = Inr tok \<and> wall \<le> ae_expires_at e \<and> ae_scope e = SCOPE_ADMIN \<and>
    sha256 c tok \<in> earned_hashes c (concat (map auth_view evs))
      (con_auth (console_start c w salt (new_console cfg run user rows db radio)))"
proof -
  let ?st = "con_auth (console_start c w salt (new_console cfg run user rows db radio))"
  from scope_admitted [OF assms(2)] obtain tok where tok: "bearer_token authorization = Inr tok"
    "map_of (access_tokens (con_auth con)) (sha256 c tok) = Some e" "wall \<le> ae_expires_at e" "ae_scope e = SCOPE_ADMIN" by blast
  have "sha256 c tok \<in> live_hashes (con_auth con)" using map_of_SomeD [OF tok(2)] by force
  moreover have "live_hashes (con_auth con) \<subseteq> earned_hashes c (concat (map auth_view evs)) ?st \<union> live_hashes ?st"
    unfolding assms(1) console_run_auth by (rule run_hashes)
  moreover have "live_hashes ?st = {}"
    by (simp add: console_start_def new_console_def ensure_admin_user_def new_auth_service_def split: option.split)
  ultimately have "sha256 c tok \<in> earned_hashes c (concat (map auth_view evs)) ?st" by (simp only: Un_empty_right) (rule subsetD)
  then show ?thesis using tok(1,3,4) by (intro exI [of _ tok] conjI) simp_all
qed

definition settled_user :: admin_user where
  "settled_user = (the (user_row seeded))\<lparr>must_change_password := False\<rparr>"

theorem console_access_earned_witness:
  "sha256 toy_crypto ''a1'' \<in> earned_hashes toy_crypto [first_login]
     (con_auth (console_start toy_crypto 0 ''salt'' (new_console default_admin_ui ''run'' (Some settled_user) [] empty_db demo_radio)))"
proof -
  let ?start = "console_start toy_crypto 0 ''salt'' (new_console default_admin_ui ''run'' (Some settled_user) [] empty_db demo_radio)"
  have token: "bearer_token (Some ''Bearer a1'') = Inr ''a1''" by code_simp
  have "\<exists>e. fst (require_scope toy_crypto SCOPE_ADMIN 2 (Some ''Bearer a1'')
      (con_auth (fold (console_step toy_crypto) [Auth_call first_login] ?start))) = Inr e"
    by (simp add: require_scope_def token login_eval Let_def settled_user_def seeded_def toy_crypto_def password_ok_def
        verify_access_token_def scope_for_def default_admin_ui_def)
  then obtain e where "fst (require_scope toy_crypto SCOPE_ADMIN 2 (Some ''Bearer a1'')
      (con_auth (fold (console_step toy_crypto) [Auth_call first_login] ?start))) = Inr e" by blast
  from console_access_earned [OF refl this] show ?thesis by (simp add: token)
qed

section \<open>Response headers\<close>

text \<open>
  The middleware of \<open>create_app\<close>: what the application answers leaves with the four headers set, whatever the
  route has set itself; an exception passes through it.
\<close>

definition SECURITY_HEADERS :: "(string \<times> string) list" where
  "SECURITY_HEADERS =
     [(''X-Frame-Options'', ''DENY''), (''X-Content-Type-Options'', ''nosniff''), (''Referrer-Policy'', ''no-referrer''),
      (''Content-Security-Policy'',
       ''default-src 'self'; script-src 'self'; style-src 'self'; '' @
       ''img-src 'self' data:; connect-src 'self'' @ [CHR 0x27])]"

definition security_headers :: "exn + (string \<times> string) list \<Rightarrow> exn + (string \<times> string) list" where
  "security_headers r = map_sum id (fold (\<lambda>(k, v) hs. AList.update k v hs) SECURITY_HEADERS) r"

theorem security_headers_set:
  "map_of (projr (security_headers (Inr hs))) k =
     (case map_of SECURITY_HEADERS k of None \<Rightarrow> map_of hs k | Some v \<Rightarrow> Some v)"
  by (simp add: security_headers_def SECURITY_HEADERS_def dict_simps)

end
