(* ===== verification/Console_Life.thy ===== *)
theory Console_Life
  imports Admin_Server Store_File
begin

text \<open>
  The life of the console, \<open>AdminUIServer\<close> in \<^verbatim>\<open>src/zorkbot/src/zorkbot/admin/__init__.py\<close>: the log handler is
  attached by the constructor, the store, the writer, the web server and the retention loop are started by
  \<open>start\<close>, any step of which may fail, and \<open>stop\<close> takes them down. The web server is a task that ends in one of
  three ways when it is awaited.
\<close>

text \<open>How a task ends; the last is an exception that \<open>except Exception\<close> does not catch.\<close>

datatype ending = Returned | Raised_exception | Raised_base

record ui_server =
  us_console :: console
  us_store :: store_handle
  us_attached :: bool
  us_writer :: bool
  us_server :: bool
  us_retention :: bool

definition new_ui_server ::
  "admin_ui_config \<Rightarrow> string \<Rightarrow> db_file \<Rightarrow> admin_user option \<Rightarrow> refresh_row list \<Rightarrow> event_db \<Rightarrow> radio_state \<Rightarrow> ui_server" where
  "new_ui_server cfg run file user rows db radio =
     \<lparr>us_console = new_console cfg run user rows db radio, us_store = new_store file, us_attached = True,
      us_writer = False, us_server = False, us_retention = False\<rparr>"

text \<open>\<open>start\<close>: whether the store opens, and whether the account can be made sure of.\<close>

definition ui_start :: "bool \<Rightarrow> bool \<Rightarrow> crypto \<Rightarrow> real \<Rightarrow> bytes \<Rightarrow> ui_server \<Rightarrow> bool \<times> ui_server" where
  "ui_start opens ensures c wall salt s =
     (if \<not> opens then (False, s)
      else
        (let s1 = s\<lparr>us_store := store_open (us_store s)\<rparr>
         in if \<not> ensures then (False, s1)
            else (True, s1\<lparr>us_console := console_start c wall salt (us_console s1), us_writer := True, us_server := True,
                           us_retention := True\<rparr>)))"

text \<open>One day of \<open>_retention_loop\<close>; a failing prune is logged, and changes nothing.\<close>

definition retention_day :: "bool \<Rightarrow> real \<Rightarrow> int \<Rightarrow> ui_server \<Rightarrow> ui_server" where
  "retention_day ok wall days s =
     (if us_retention s \<and> ok then s\<lparr>us_console := console_prune wall days (us_console s)\<rparr> else s)"

definition ui_stop :: "ending \<Rightarrow> ui_server \<Rightarrow> bool \<times> ui_server" where
  "ui_stop ends s =
     (let con = us_console s;
          s1 = s\<lparr>us_console := con\<lparr>con_log := log_detach (con_log con)\<rparr>, us_attached := False\<rparr>
      in if us_server s \<and> ends = Raised_base then (False, s1\<lparr>us_server := False, us_retention := False\<rparr>)
         else (True, s1\<lparr>us_console := console_stop con, us_store := store_close (us_store s), us_writer := False,
                        us_server := False, us_retention := False\<rparr>))"

text \<open>
  After a stop that was not interrupted nothing of the console is left: no handler on the log and no log stream, no
  writer, no loop, no connection; what was queued for the store has been handed to it.
\<close>

theorem ui_stop_releases:
  assumes "us_server s \<longrightarrow> ends \<noteq> Raised_base"
  shows "case ui_stop ends s of (ok, s') \<Rightarrow>
    ok \<and> \<not> us_attached s' \<and> \<not> us_writer s' \<and> \<not> us_server s' \<and> \<not> us_retention s' \<and> \<not> sh_conn (us_store s') \<and>
    lb_subs (con_log (us_console s')) = [] \<and> es_queue (con_sink (us_console s')) = [] \<and>
    es_db (con_sink (us_console s')) = es_db (sink_stop (con_sink (us_console s)))"
  using assms
  by (auto simp: ui_stop_def Let_def console_stop_def log_detach_def store_close_def sink_stop_def)

theorem ui_stop_releases_witness:
  "\<not> sh_conn (us_store (snd (ui_stop Raised_exception (snd (ui_start True True toy_crypto 0 ''salt''
     (new_ui_server default_admin_ui ''run'' [] None [] empty_db demo_radio))))))"
  using ui_stop_releases [of "snd (ui_start True True toy_crypto 0 ''salt'' (new_ui_server default_admin_ui ''run'' [] None [] empty_db demo_radio))"
      Raised_exception]
  by (simp add: case_prod_beta)

text \<open>
  When the server's task ended with an exception outside \<open>Exception\<close>, awaiting it in \<open>stop\<close> raises it again: the
  sink is not stopped, what it has queued is not written, and the connection is not closed.
\<close>

theorem ui_stop_gives_up:
  assumes "us_server s"
  shows "case ui_stop Raised_base s of (ok, s') \<Rightarrow>
    \<not> ok \<and> us_writer s' = us_writer s \<and> us_store s' = us_store s \<and> con_sink (us_console s') = con_sink (us_console s)"
  using assms by (simp add: ui_stop_def Let_def)

theorem ui_stop_gives_up_witness:
  "sh_conn (us_store (snd (ui_stop Raised_base (snd (ui_start True True toy_crypto 0 ''salt''
     (new_ui_server default_admin_ui ''run'' [] None [] empty_db demo_radio))))))"
proof -
  let ?s = "snd (ui_start True True toy_crypto 0 ''salt'' (new_ui_server default_admin_ui ''run'' [] None [] empty_db demo_radio))"
  have "us_server ?s" "sh_conn (us_store ?s)" by (simp_all add: ui_start_def new_ui_server_def store_open_def)
  then show ?thesis using ui_stop_gives_up [of ?s] by (simp add: case_prod_beta)
qed

text \<open>A start that fails at the account leaves the store open; \<^verbatim>\<open>cli.py\<close> does not stop a console that has not started.\<close>

theorem failed_start_leaves_store_open:
  "\<not> fst (ui_start True False c wall salt s) \<and> sh_conn (us_store (snd (ui_start True False c wall salt s))) \<and>
   us_server (snd (ui_start True False c wall salt s)) = us_server s"
  by (simp add: ui_start_def store_open_def)

end
