(* ===== verification/Simulator.thy ===== *)
theory Simulator
  imports Admin_Pages
begin

text \<open>
  The interactive simulator, \<^verbatim>\<open>src/zorkbot/src/zorkbot/simulator.py\<close>, and the stub radio it runs
  against, \<open>_StubMeshCore\<close> of \<^verbatim>\<open>src/zorkbot/src/zorkbot/cli.py\<close>. A line typed is a control, or a
  message for one of the bot's three dispatchers; what the bot answers, a parameter of the loop \<open>repl\<close>, is
  shown by \<open>show_replies\<close>.
  Characters beyond Latin-1 in the simulator's own texts are \<open>CHR 0x1A\<close>.
\<close>

section \<open>State\<close>

record simulator =
  sim_sender :: string
  sim_pubkey :: string
  sim_channel :: int
  sim_done :: bool
  sim_pending :: "string list"

definition DEFAULT_PUBKEY :: string where
  "DEFAULT_PUBKEY = ''00000000dead''"

definition new_simulator :: "bot_config \<Rightarrow> simulator" where
  "new_simulator cfg =
     \<lparr>sim_sender = ''you'', sim_pubkey = DEFAULT_PUBKEY, sim_channel = chan_index (channel cfg), sim_done = False, sim_pending = []\<rparr>"

definition sim_prompt :: "simulator \<Rightarrow> string" where
  "sim_prompt s = sim_sender s @ ''@ch'' @ str_int (sim_channel s) @ ''> ''"

section \<open>The stub radio\<close>

definition utf8_encode :: "string \<Rightarrow> string" where
  "utf8_encode s =
     concat (map (\<lambda>c. if code c < 128 then [c] else [char_of (192 + code c div 64), char_of (128 + code c mod 64)]) s)"

definition hex_of :: "string \<Rightarrow> string" where
  "hex_of bs = concat (map (\<lambda>c. [hex_digit (code c div 16), hex_digit (code c mod 16)]) bs)"

text \<open>\<open>args.encode().hex()[:12].ljust(12, "0")\<close>.\<close>

definition hex_name :: "string \<Rightarrow> string" where
  "hex_name name = (let h = take 12 (hex_of (utf8_encode name)) in h @ replicate (12 - length h) CHR ''0'')"

text \<open>\<open>bytes.fromhex\<close>: pairs of hexadecimal digits with ASCII white space between them.\<close>

fun bytes_fromhex :: "string \<Rightarrow> string option" where
  "bytes_fromhex [] = Some []"
| "bytes_fromhex (a # s) =
     (if code a = 32 \<or> (9 \<le> code a \<and> code a \<le> 13) then bytes_fromhex s
      else case s of
        [] \<Rightarrow> None
      | b # t \<Rightarrow>
          if is_hex a \<and> is_hex b then map_option ((#) (char_of (16 * hex_value a + hex_value b))) (bytes_fromhex t)
          else None)"

definition rstrip_zeros :: "string \<Rightarrow> string" where
  "rstrip_zeros s = rev (dropWhile (\<lambda>c. c = CHR ''0'') (rev s))"

definition stub_contact :: "string \<Rightarrow> contact option" where
  "stub_contact p =
     (let name = (case bytes_fromhex (rstrip_zeros p) of
                    None \<Rightarrow> take 8 p
                  | Some bs \<Rightarrow> (case utf8_decode bs of None \<Rightarrow> take 8 p | Some n \<Rightarrow> n))
      in Some [(''adv_name'', name)])"

section \<open>Lines\<close>

definition on_dm_send :: "(string \<Rightarrow> contact option) \<Rightarrow> string \<Rightarrow> string \<Rightarrow> simulator \<Rightarrow> bool \<times> simulator" where
  "on_dm_send look p txt s =
     (True, s\<lparr>sim_pending := sim_pending s @ [''[DM '' @ [CHR 0x1A] @ '' '' @ resolve_name look p @ ''] '' @ txt]\<rparr>)"

definition sim_channel_message :: "string \<Rightarrow> simulator \<Rightarrow> incoming_message" where
  "sim_channel_message txt s =
     \<lparr>im_text = txt, im_sender_name = Some (sim_sender s), im_pubkey_prefix = Some (sim_pubkey s), im_is_dm = False,
      im_channel_idx = sim_channel s\<rparr>"

definition sim_dm_message :: "string \<Rightarrow> simulator \<Rightarrow> incoming_message" where
  "sim_dm_message txt s =
     \<lparr>im_text = txt, im_sender_name = Some (sim_sender s), im_pubkey_prefix = Some (sim_pubkey s), im_is_dm = True,
      im_channel_idx = 0\<rparr>"

definition CONTROL_HELP :: "string list" where
  "CONTROL_HELP =
     [''/name <sender> change simulated sender name (and pubkey prefix)'', ''/channel <n> change simulated channel index'',
      ''/status show simulated sender and channel'', ''/help list simulator controls'', ''/quit leave the simulator'']"

definition control :: "string \<Rightarrow> simulator \<Rightarrow> string list \<times> simulator" where
  "control txt s =
     (case partition_on CHR '' '' txt of (name, _, rest) \<Rightarrow>
        let args = strip rest; cmd = lower name
        in if cmd = ''name'' then
             (if args = [] then ([''usage: /name <sender>''], s)
              else ([''now sending as '' @ args @ '' (pubkey='' @ hex_name args @ '')''],
                    s\<lparr>sim_sender := args, sim_pubkey := hex_name args\<rparr>))
           else if cmd = ''channel'' \<or> cmd = ''ch'' then
             (case parse_int args of
                None \<Rightarrow> ([''channel must be a number, got '' @ py_repr args], s)
              | Some i \<Rightarrow> ([''now talking on channel '' @ str_int i], s\<lparr>sim_channel := i\<rparr>))
           else if cmd = ''status'' then
             ([sim_sender s @ '' (pubkey='' @ sim_pubkey s @ '') on channel '' @ str_int (sim_channel s)], s)
           else if cmd = ''help'' \<or> cmd = ''?'' then (CONTROL_HELP, s)
           else if cmd = ''quit'' \<or> cmd = ''exit'' \<or> cmd = ''q'' then ([''bye''], s\<lparr>sim_done := True\<rparr>)
           else ([''unknown control /'' @ name @ '' '' @ [CHR 0x1A] @ '' try /help''], s))"

text \<open>What a line is: nothing, a control that is carried out at once, or a message to dispatch.\<close>

datatype sim_line =
    Shown "string list"
  | To_dm incoming_message
  | To_channel incoming_message
  | To_bots_channel incoming_message

definition handle_line :: "bot_config \<Rightarrow> string \<Rightarrow> simulator \<Rightarrow> sim_line \<times> simulator" where
  "handle_line cfg raw s =
     (let line = strip raw
      in if line = [] then (Shown [], s)
         else if startswith line ''/'' then (case control (drop 1 line) s of (out, s') \<Rightarrow> (Shown out, s'))
         else
           (let s1 = s\<lparr>sim_pending := []\<rparr>
            in if startswith (lower line) ''dm:'' then (To_dm (sim_dm_message (strip (drop 3 line)) s1), s1)
               else
                 (let m = sim_channel_message line s1
                  in if (case bots_channel cfg of None \<Rightarrow> False | Some b \<Rightarrow> sim_channel s1 = chan_index b)
                     then (To_bots_channel m, s1) else (To_channel m, s1))))"

definition show_reply :: "string \<Rightarrow> string list" where
  "show_reply txt =
     (case split_on CHR 0x0A txt of
        [] \<Rightarrow> []
      | first # others \<Rightarrow> (''bot> '' @ first) # map ((@) ''     '') (filter (\<lambda>x. x \<noteq> []) others))"

definition show_replies :: "string list \<Rightarrow> simulator \<Rightarrow> string list \<times> simulator" where
  "show_replies replies s =
     (let every = replies @ sim_pending s; s1 = s\<lparr>sim_pending := []\<rparr>
      in if every = [] then ([''(no response)''], s1) else (concat (map show_reply every), s1))"

section \<open>The loop\<close>

text \<open>
  What the bot does with a message until \<open>drain\<close> returns is a parameter: the direct replies and the simulator
  with the messages its handlers sent, after an announcement if a reply is still owed; or an exception,
  which ends the loop. The end of the list of lines is the end of the input.
\<close>

record bot_turn =
  bt_owes :: bool
  bt_replies :: "string list"
  bt_simulator :: simulator

type_synonym bot_answers = "sim_line \<Rightarrow> simulator \<Rightarrow> bot_turn option"

definition WAITING :: string where
  "WAITING = ''(waiting for a delayed reply'' @ [CHR 0x1A] @ '')''"

definition sim_turn :: "bot_config \<Rightarrow> bot_answers \<Rightarrow> string \<Rightarrow> simulator \<Rightarrow> string list \<times> simulator option" where
  "sim_turn cfg bot_says line s =
     (case handle_line cfg line s of
        (Shown out, s1) \<Rightarrow> (out, Some s1)
      | (message, s1) \<Rightarrow>
          (case bot_says message s1 of
             None \<Rightarrow> ([], None)
           | Some t \<Rightarrow>
               (case show_replies (bt_replies t) (bt_simulator t) of
                  (out, s2) \<Rightarrow> ((if bt_owes t then [WAITING] else []) @ out, Some s2))))"

datatype shown = Prompt string | Line string

definition BANNER :: "string list" where
  "BANNER =
     [''Simulator: messages are handled in memory, nothing is sent over the mesh.'',
      ''Send channel commands on #zork, e.g. '!help', '!start', '!list'.'',
      ''Prefix a message with 'dm:' to simulate a DM, e.g. 'dm:take lamp'.'',
      ''/help for simulator controls, /quit to leave.'']"

fun repl_rounds :: "bot_config \<Rightarrow> bot_answers \<Rightarrow> string list \<Rightarrow> simulator \<Rightarrow> shown list \<times> simulator option" where
  "repl_rounds cfg bot_says [] s =
     (if sim_done s then ([], Some s) else ([Prompt (sim_prompt s), Line []], Some s))"
| "repl_rounds cfg bot_says (line # rest) s =
     (if sim_done s then ([], Some s)
      else (case sim_turn cfg bot_says line s of
              (out, None) \<Rightarrow> (Prompt (sim_prompt s) # map Line out, None)
            | (out, Some s1) \<Rightarrow>
                (case repl_rounds cfg bot_says rest s1 of
                   (later, final) \<Rightarrow> (Prompt (sim_prompt s) # map Line out @ later, final))))"

definition repl :: "bot_config \<Rightarrow> bot_answers \<Rightarrow> string list \<Rightarrow> simulator \<Rightarrow> shown list \<times> simulator option" where
  "repl cfg bot_says inputs s = (case repl_rounds cfg bot_says inputs s of (out, final) \<Rightarrow> (map Line BANNER @ out, final))"

text \<open>\<open>/quit\<close> ends the loop: no line after it is read, and no message after it reaches the bot.\<close>

lemma quit_line: "handle_line cfg ''/quit'' s = (Shown [''bye''], s\<lparr>sim_done := True\<rparr>)"
proof -
  have "strip ''/quit'' = ''/quit''" "partition_on CHR '' '' ''quit'' = (''quit'', False, [])" "lower ''quit'' = ''quit''" "strip [] = []"
    by code_simp+
  then show ?thesis by (simp add: handle_line_def control_def Let_def startswith_def)
qed

theorem repl_stops_at_quit:
  "repl cfg bot_says (inputs @ ''/quit'' # rest) s = repl cfg bot_says (inputs @ [''/quit'']) s"
proof -
  have "repl_rounds cfg bot_says (inputs @ ''/quit'' # rest) s = repl_rounds cfg bot_says (inputs @ [''/quit'']) s"
  proof (induction inputs arbitrary: s)
    case Nil
    have "repl_rounds cfg bot_says rest (s\<lparr>sim_done := True\<rparr>) = ([], Some (s\<lparr>sim_done := True\<rparr>))" by (cases rest) simp_all
    then show ?case by (simp add: sim_turn_def quit_line)
  next
    case (Cons line inputs)
    then show ?case by (simp split: prod.split option.split)
  qed
  then show ?thesis by (simp add: repl_def)
qed

section \<open>Identities\<close>

lemma is_lower_hex_digit: "d < 16 \<Longrightarrow> is_lower_hex (hex_digit d)"
  by (auto simp: is_lower_hex_def is_digit_def hex_digit_def code_char_of)

lemma hex_value_digit: "d < 16 \<Longrightarrow> hex_value (hex_digit d) = d"
  by (auto simp: hex_value_def is_digit_def hex_digit_def code_char_of)

lemma hex_digit_zero: "d < 16 \<Longrightarrow> hex_digit d = CHR ''0'' \<Longrightarrow> d = 0"
  using hex_value_digit [of d] by (simp add: hex_value_def is_digit_def code_def)

lemma nibbles: "code c div 16 < 16" "code c mod 16 < 16"
  using code_less [of c] by (simp_all add: div_less_iff_less_mult)

lemma length_hex_of: "length (hex_of bs) = 2 * length bs"
  by (induction bs) (simp_all add: hex_of_def)

lemma hex_of_chars: "list_all is_lower_hex (hex_of bs)"
  by (induction bs) (simp_all add: hex_of_def is_lower_hex_digit nibbles)

lemma hex_name_wellformed: "session_pubkey_re (hex_name name)"
proof -
  have "list_all is_lower_hex (take 12 (hex_of (utf8_encode name)))"
    using hex_of_chars [of "utf8_encode name"] set_take_subset [of 12] by (fastforce simp: list_all_iff)
  moreover have "is_lower_hex CHR ''0''" by (simp add: is_lower_hex_def is_digit_def code_def)
  ultimately have "list_all is_lower_hex (hex_name name)" "length (hex_name name) = 12"
    by (auto simp: hex_name_def Let_def list_all_iff)
  then show ?thesis by (simp add: session_pubkey_re_def re_run_def Let_def)
qed

lemma control_pubkey:
  "session_pubkey_re (sim_pubkey s) \<Longrightarrow> session_pubkey_re (sim_pubkey (snd (control txt s)))"
  by (simp add: control_def Let_def hex_name_wellformed split: prod.split option.split)

text \<open>
  The simulated sender always has a well-formed identity, twelve lower-case hexadecimal digits,
  whatever lines have been typed; every message the simulator passes on carries it.
\<close>

theorem simulated_identity:
  "session_pubkey_re (sim_pubkey (fold (\<lambda>l s. snd (handle_line cfg l s)) ls (new_simulator cfg)))"
proof -
  have step: "session_pubkey_re (sim_pubkey (snd (handle_line cfg l s)))" if "session_pubkey_re (sim_pubkey s)" for l s
    using that control_pubkey [OF that, of "drop 1 (strip l)"]
    by (cases "control (drop 1 (strip l)) s") (simp add: handle_line_def Let_def)
  have "session_pubkey_re (sim_pubkey s) \<Longrightarrow> session_pubkey_re (sim_pubkey (fold (\<lambda>l s. snd (handle_line cfg l s)) ls s))" for s
    by (induction ls arbitrary: s) (simp_all add: step)
  moreover have "session_pubkey_re (sim_pubkey (new_simulator cfg))"
    by (simp add: new_simulator_def) code_simp
  ultimately show ?thesis by blast
qed

lemma bytes_fromhex_hex_of: "bytes_fromhex (hex_of bs) = Some bs"
proof (induction bs)
  case (Cons c bs)
  let ?h = "hex_digit (code c div 16)" and ?l = "hex_digit (code c mod 16)"
  have h: "is_lower_hex ?h" "is_lower_hex ?l" by (simp_all add: is_lower_hex_digit nibbles)
  then have "is_hex ?h" "is_hex ?l" "code ?h \<noteq> 32" "\<not> code ?h \<le> 13"
    by (auto simp: is_hex_def is_lower_hex_def is_digit_def)
  moreover have "char_of (16 * hex_value ?h + hex_value ?l) = c"
    by (simp add: hex_value_digit nibbles char_of_code)
  moreover have "hex_of (c # bs) = ?h # ?l # hex_of bs" by (simp add: hex_of_def)
  ultimately show ?case using Cons by simp
qed (simp add: hex_of_def)

lemma rstrip_zeros_pad: "s \<noteq> [] \<Longrightarrow> last s \<noteq> CHR ''0'' \<Longrightarrow> rstrip_zeros (s @ replicate n CHR ''0'') = s"
proof -
  assume s: "s \<noteq> []" "last s \<noteq> CHR ''0''"
  have "dropWhile (\<lambda>c. c = CHR ''0'') (replicate n CHR ''0'' @ rev s) = rev s"
    using s by (subst dropWhile_append2) (auto simp: dropWhile_eq_self_iff hd_rev)
  then show ?thesis by (simp add: rstrip_zeros_def)
qed

lemma utf8_encode_ascii: "\<forall>c \<in> set s. code c < 128 \<Longrightarrow> utf8_encode s = s"
  by (induction s) (simp_all add: utf8_encode_def)

lemma last_hex_of: "bs \<noteq> [] \<Longrightarrow> last (hex_of bs) = hex_digit (code (last bs) mod 16)"
  by (induction bs rule: rev_induct) (simp_all add: hex_of_def)

text \<open>
  The stub radio recovers the name the simulator derived an identity from: for ASCII names of up to
  six characters whose last character does not have a code divisible by 16.
\<close>

theorem stub_contact_roundtrip:
  assumes "name \<noteq> []" and "length name \<le> 6" and "list_all (\<lambda>c. code c < 128) name" and "code (last name) mod 16 \<noteq> 0"
  shows "stub_contact (hex_name name) = Some [(''adv_name'', name)]"
proof -
  have ascii: "\<forall>c \<in> set name. code c < 128" using assms(3) by (simp add: list_all_iff)
  have "hex_name name = hex_of name @ replicate (12 - 2 * length name) CHR ''0''"
    using assms(2) by (simp add: hex_name_def utf8_encode_ascii [OF ascii] length_hex_of Let_def)
  moreover have "last (hex_of name) \<noteq> CHR ''0''"
    using assms(1,4) hex_digit_zero [OF nibbles(2), of "last name"] by (auto simp: last_hex_of)
  moreover have "hex_of name \<noteq> []" using assms(1) length_hex_of [of name] by (metis length_0_conv mult_is_0 zero_neq_numeral)
  ultimately have "rstrip_zeros (hex_name name) = hex_of name" by (simp add: rstrip_zeros_pad)
  then show ?thesis using utf8_ascii [OF ascii] by (simp add: stub_contact_def bytes_fromhex_hex_of)
qed

theorem stub_contact_roundtrip_witness: "stub_contact (hex_name ''alice'') = Some [(''adv_name'', ''alice'')]"
  using stub_contact_roundtrip [of "''alice''"] by (simp add: code_def)

text \<open>
  With such a last character the trailing zero of its code is taken for padding, and the contact
  is shown by the first eight digits of its identity.
\<close>

lemma stub_contact_zero_nibble: "stub_contact (hex_name ''bop'') = Some [(''adv_name'', ''626f7000'')]"
  by code_simp

end
