(* ===== verification/Client_Pool.thy ===== *)
theory Client_Pool
  imports Zork_Prelude
begin

text \<open>
  The HTTP clients behind the game client, \<^verbatim>\<open>src/zorkbot/src/zorkbot/game_client.py\<close>: \<open>__aenter__\<close> opens one
  for all requests, \<open>close\<close> closes it, and a request made outside \<open>async with\<close> opens one of its own and closes it
  when it is done. \<open>close\<close> awaits the closing before it forgets the client, and requests overlap, so each is two
  steps and a run is any sequence of them. What the requests do is in the theory of the game client.

  \<open>httpx.AsyncClient\<close> objects are numbered in the order they are made; \<open>gc_closed\<close> lists those on which
  \<open>aclose\<close> was called. Closing one again is allowed and does nothing.
\<close>

record game_client =
  gc_base_url :: string
  gc_timeout :: real
  gc_client :: "nat option"
  gc_made :: nat
  gc_closed :: "nat list"
  gc_flying :: "(nat \<times> nat) list"

definition new_game_client :: "string \<Rightarrow> real \<Rightarrow> game_client" where
  "new_game_client base_url timeout =
     \<lparr>gc_base_url = rev (dropWhile (\<lambda>c. c = CHR ''/'') (rev base_url)), gc_timeout = timeout, gc_client = None,
      gc_made = 0, gc_closed = [], gc_flying = []\<rparr>"

definition aenter :: "game_client \<Rightarrow> game_client" where
  "aenter gc = gc\<lparr>gc_client := Some (gc_made gc), gc_made := Suc (gc_made gc)\<rparr>"

definition close_begin :: "game_client \<Rightarrow> game_client" where
  "close_begin gc = (case gc_client gc of None \<Rightarrow> gc | Some c \<Rightarrow> gc\<lparr>gc_closed := c # gc_closed gc\<rparr>)"

definition close_end :: "game_client \<Rightarrow> game_client" where
  "close_end gc = gc\<lparr>gc_client := None\<rparr>"

text \<open>\<open>_request\<close> up to the request itself, and its \<open>finally\<close>; \<open>q\<close> names the request.\<close>

definition request_begin :: "nat \<Rightarrow> game_client \<Rightarrow> game_client" where
  "request_begin q gc =
     (case gc_client gc of
        Some c \<Rightarrow> gc\<lparr>gc_flying := (q, c) # gc_flying gc\<rparr>
      | None \<Rightarrow> gc\<lparr>gc_flying := (q, gc_made gc) # gc_flying gc, gc_made := Suc (gc_made gc)\<rparr>)"

definition request_end :: "nat \<Rightarrow> game_client \<Rightarrow> game_client" where
  "request_end q gc =
     (case map_of (gc_flying gc) q of
        None \<Rightarrow> gc
      | Some c \<Rightarrow>
          (let gc1 = gc\<lparr>gc_flying := AList.delete q (gc_flying gc)\<rparr>
           in if gc_client gc = None then gc1\<lparr>gc_closed := c # gc_closed gc\<rparr> else gc1))"

datatype pool_op = Enter | Close_begin | Close_end | Request_begin nat | Request_end nat

fun pool_step :: "pool_op \<Rightarrow> game_client \<Rightarrow> game_client" where
  "pool_step Enter gc = aenter gc"
| "pool_step Close_begin gc = close_begin gc"
| "pool_step Close_end gc = close_end gc"
| "pool_step (Request_begin q) gc = request_begin q gc"
| "pool_step (Request_end q) gc = request_end q gc"

text \<open>
  The order of calls a program must keep to: the client is entered when it is not entered, \<open>close\<close> goes on
  only after its client was closed, a request is named afresh, and nothing enters the client while a
  request made outside is under way.
\<close>

definition allowed :: "pool_op \<Rightarrow> game_client \<Rightarrow> bool" where
  "allowed s gc \<longleftrightarrow>
     (case s of
        Enter \<Rightarrow> gc_client gc = None \<and> gc_flying gc = []
      | Close_end \<Rightarrow> (case gc_client gc of None \<Rightarrow> True | Some c \<Rightarrow> c \<in> set (gc_closed gc))
      | Request_begin q \<Rightarrow> q \<notin> fst ` set (gc_flying gc)
      | _ \<Rightarrow> True)"

fun orderly_use :: "pool_op list \<Rightarrow> game_client \<Rightarrow> bool" where
  "orderly_use [] gc = True"
| "orderly_use (s # ss) gc \<longleftrightarrow> allowed s gc \<and> orderly_use ss (pool_step s gc)"

definition open_clients :: "game_client \<Rightarrow> nat set" where
  "open_clients gc = {..<gc_made gc} - set (gc_closed gc)"

text \<open>Every open client is the pool's, or that of a request which will close it.\<close>

definition pool_inv :: "game_client \<Rightarrow> bool" where
  "pool_inv gc \<longleftrightarrow> set (gc_closed gc) \<subseteq> {..<gc_made gc} \<and> snd ` set (gc_flying gc) \<subseteq> {..<gc_made gc} \<and>
     distinct (map fst (gc_flying gc)) \<and>
     (case gc_client gc of
        None \<Rightarrow> open_clients gc \<subseteq> snd ` set (gc_flying gc)
      | Some c \<Rightarrow> c < gc_made gc \<and> open_clients gc \<subseteq> {c} \<and> snd ` set (gc_flying gc) \<subseteq> {c})"

lemma pool_inv_step:
  assumes "pool_inv gc" and "allowed s gc"
  shows "pool_inv (pool_step s gc)"
proof (cases s)
  case Enter
  then show ?thesis using assms by (auto simp: pool_inv_def allowed_def aenter_def open_clients_def)
next
  case Close_begin
  then show ?thesis using assms by (auto simp: pool_inv_def close_begin_def open_clients_def split: option.splits)
next
  case Close_end
  then show ?thesis using assms by (auto simp: pool_inv_def allowed_def close_end_def open_clients_def split: option.splits)
next
  case (Request_begin q)
  then show ?thesis using assms
    by (auto simp: pool_inv_def allowed_def request_begin_def open_clients_def lessThan_Suc split: option.splits)
next
  case (Request_end q)
  show ?thesis
  proof (cases "map_of (gc_flying gc) q")
    case None
    then show ?thesis using Request_end assms by (simp add: request_end_def)
  next
    case (Some c)
    have keys: "distinct (map fst (gc_flying gc))" using assms(1) by (simp add: pool_inv_def)
    have sub: "set (AList.delete q (gc_flying gc)) \<subseteq> set (gc_flying gc)" by (auto simp: AList.delete_eq)
    have only: "(q, d) \<in> set (gc_flying gc) \<Longrightarrow> d = c" for d using Some keys by (simp add: map_of_eq_Some_iff)
    have left: "snd ` set (gc_flying gc) \<subseteq> insert c (snd ` set (AList.delete q (gc_flying gc)))"
      using only by (force simp: AList.delete_eq)
    define F F' where "F = snd ` set (gc_flying gc)" and "F' = snd ` set (AList.delete q (gc_flying gc))"
    have F: "F' \<subseteq> F" "F \<subseteq> insert c F'" using sub left unfolding F_def F'_def by blast+
    have bounds: "F \<subseteq> {..<gc_made gc}" "set (gc_closed gc) \<subseteq> {..<gc_made gc}" "c < gc_made gc"
      using map_of_SomeD [OF Some] assms(1) by (force simp: pool_inv_def F_def)+
    have distinct: "distinct (map fst (AList.delete q (gc_flying gc)))" using keys by (rule distinct_delete)
    show ?thesis
    proof (cases "gc_client gc")
      case None
      have "{..<gc_made gc} - set (gc_closed gc) \<subseteq> F" using assms(1) None by (simp add: pool_inv_def F_def open_clients_def)
      then have "{..<gc_made gc} - insert c (set (gc_closed gc)) \<subseteq> F'" using F by blast
      then show ?thesis
        using None Request_end Some distinct bounds F order_trans [OF F(1) bounds(1)]
        by (simp add: pool_inv_def request_end_def open_clients_def Let_def F'_def del: map_of_eq_Some_iff)
    next
      case (Some d)
      have "d < gc_made gc" "{..<gc_made gc} - set (gc_closed gc) \<subseteq> {d}" "F \<subseteq> {d}"
        using assms(1) Some by (simp_all add: pool_inv_def F_def open_clients_def)
      then show ?thesis
        using Some \<open>map_of (gc_flying gc) q = Some c\<close> Request_end distinct bounds order_trans [OF F(1) bounds(1)] order_trans [OF F(1), of "{d}"]
        by (simp add: pool_inv_def request_end_def open_clients_def Let_def F'_def del: map_of_eq_Some_iff)
    qed
  qed
qed

lemma pool_inv_run: "pool_inv gc \<Longrightarrow> orderly_use ss gc \<Longrightarrow> pool_inv (fold pool_step ss gc)"
  by (induction ss arbitrary: gc) (simp_all add: pool_inv_step)

lemma pool_inv_new: "pool_inv (new_game_client url t)"
  by (simp add: pool_inv_def new_game_client_def open_clients_def)

text \<open>
  C36. Every HTTP client the game client opens is closed again: when it is not entered and no request is under
  way, none is open; while it is entered at most one is, whatever requests overlap; and a request never
  gets a client that is closed, except while the pool is being closed.
\<close>

theorem clients_released:
  fixes ss :: "pool_op list" and url :: string and t :: real
  defines "gc \<equiv> fold pool_step ss (new_game_client url t)"
  assumes "orderly_use ss (new_game_client url t)"
  shows "(gc_client gc = None \<and> gc_flying gc = [] \<longrightarrow> open_clients gc = {}) \<and>
    (\<forall>c. gc_client gc = Some c \<longrightarrow> open_clients gc \<subseteq> {c}) \<and>
    (\<forall>q. (\<forall>c. gc_client gc = Some c \<longrightarrow> c \<notin> set (gc_closed gc)) \<longrightarrow>
       (\<exists>c. map_of (gc_flying (request_begin q gc)) q = Some c \<and> c \<in> open_clients (request_begin q gc)))"
proof -
  have inv: "pool_inv gc" unfolding gc_def by (rule pool_inv_run [OF pool_inv_new assms(2)])
  have "\<exists>c. map_of (gc_flying (request_begin q gc)) q = Some c \<and> c \<in> open_clients (request_begin q gc)"
    if "\<forall>c. gc_client gc = Some c \<longrightarrow> c \<notin> set (gc_closed gc)" for q
    using inv that by (cases "gc_client gc") (auto simp: pool_inv_def request_begin_def open_clients_def)
  then show ?thesis using inv by (auto simp: pool_inv_def)
qed

theorem clients_released_witness:
  "open_clients (fold pool_step [Enter, Request_begin 0, Request_begin 1, Request_end 0, Close_begin, Close_end, Request_end 1,
     Request_begin 2, Request_end 2] (new_game_client ''http://zorkd:8080/'' 60)) = {}"
proof -
  let ?ss = "[Enter, Request_begin 0, Request_begin 1, Request_end 0, Close_begin, Close_end, Request_end 1, Request_begin 2, Request_end 2]"
  have "orderly_use ?ss (new_game_client ''http://zorkd:8080/'' 60)"
    by (simp add: allowed_def new_game_client_def aenter_def close_begin_def close_end_def request_begin_def request_end_def)
  from clients_released [OF this] show ?thesis
    by (simp add: new_game_client_def aenter_def close_begin_def close_end_def request_begin_def request_end_def)
qed

text \<open>
  The condition on entering matters: a request that began outside finds the client entered when it ends, takes
  its own client for the pool's, and leaves it open for good.
\<close>

theorem entering_during_request_leaks:
  "open_clients (fold pool_step [Request_begin 0, Enter, Request_end 0, Close_begin, Close_end]
     (new_game_client ''http://zorkd:8080/'' 60)) = {0}"
  by (auto simp: open_clients_def new_game_client_def aenter_def close_begin_def close_end_def request_begin_def request_end_def)

end
