(* ===== verification/Assembly.thy ===== *)
theory Assembly
  imports Admin_Server Bot_Tasks Runner
begin

text \<open>
  The bot put together, \<open>ZorkBot.__init__\<close> and its setters in \<^verbatim>\<open>src/zorkbot/src/zorkbot/bot.py\<close>, what the runner
  injects when it starts (\<^verbatim>\<open>runner.py\<close>), and what the console is given of it (\<^verbatim>\<open>admin/context.py\<close>): one
  configuration decides which channels the runner listens to, for which the message windows keep a ring,
  and which the console may not rewrite.
\<close>

section \<open>Construction\<close>

text \<open>The two senders of the runner; without a radio there is one, for players.\<close>

datatype sender = Player_dm | Watcher_dm | Printed

record zork_bot =
  zb_config :: bot_config
  zb_started_at :: real
  zb_state :: session_state
  zb_tasks :: "fan_job whole_bot"
  zb_windows :: message_windows
  zb_radio :: radio_state
  zb_send_dm :: "sender option"
  zb_send_watcher_dm :: "sender option"
  zb_depth_getter :: "send_gate \<Rightarrow> int option"
  zb_flushed :: "nat option"

definition bot_radio :: "bot_config \<Rightarrow> radio_state" where
  "bot_radio cfg =
     new_radio_state (radio_cache_seconds (admin_ui cfg)) (served_channels cfg) (radio_write_enabled (admin_ui cfg))
       (radio_write_min_interval_seconds (admin_ui cfg))"

definition new_zork_bot :: "bot_config \<Rightarrow> real \<Rightarrow> zork_bot" where
  "new_zork_bot cfg now =
     \<lparr>zb_config = cfg, zb_started_at = now, zb_state = new_session_state (max_watchers_per_session cfg),
      zb_tasks = new_whole_bot cfg, zb_windows = bot_windows cfg, zb_radio = bot_radio cfg,
      zb_send_dm = None, zb_send_watcher_dm = None, zb_depth_getter = (\<lambda>_. None), zb_flushed = None\<rparr>"

definition watcher_sender :: "zork_bot \<Rightarrow> sender option" where
  "watcher_sender zb = (case zb_send_watcher_dm zb of None \<Rightarrow> zb_send_dm zb | Some f \<Rightarrow> Some f)"

definition bot_queue_depth :: "send_gate \<Rightarrow> zork_bot \<Rightarrow> int option" where
  "bot_queue_depth g zb = zb_depth_getter zb g"

text \<open>What the steps of the runner's start do to the bot.\<close>

fun equip :: "start_action \<Rightarrow> zork_bot \<Rightarrow> zork_bot" where
  "equip (Flushed n) zb = zb\<lparr>zb_flushed := Some n\<rparr>"
| "equip Inject_senders zb = zb\<lparr>zb_send_dm := Some Player_dm, zb_send_watcher_dm := Some Watcher_dm,
     zb_depth_getter := (\<lambda>g. Some (send_queue_depth g))\<rparr>"
| "equip Start_poller zb = zb\<lparr>zb_tasks := (zb_tasks zb)\<lparr>wb_background :=
     start_session_poller (zb_config zb) (wb_background (zb_tasks zb))\<rparr>\<rparr>"
| "equip a zb = zb"

text \<open>What the console sees of the bot; the radio's contacts and its ability to write come from the device.\<close>

definition console_side :: "zork_bot \<Rightarrow> send_gate \<Rightarrow> mesh_view \<Rightarrow> (string \<Rightarrow> contact option) \<Rightarrow> bool \<Rightarrow> bot_side" where
  "console_side zb g mesh lookup can_write =
     \<lparr>side_registry = zb_state zb, side_gate = (if bot_queue_depth g zb = None then None else Some g),
      side_windows = gate_windows g, side_mesh = mesh, side_lookup = lookup, side_can_write = can_write\<rparr>"

definition new_bot_console ::
  "zork_bot \<Rightarrow> string \<Rightarrow> admin_user option \<Rightarrow> refresh_row list \<Rightarrow> event_db \<Rightarrow> console" where
  "new_bot_console zb run user rows db = new_console (admin_ui (zb_config zb)) run user rows db (zb_radio zb)"

section \<open>One configuration\<close>

fun heard_channel :: "start_action \<Rightarrow> int list" where
  "heard_channel (Subscribe_channel i) = [i]"
| "heard_channel (Subscribe_bots_channel i) = [i]"
| "heard_channel a = []"

definition heard_channels :: "bot_config \<Rightarrow> (nat \<Rightarrow> bool) \<Rightarrow> int set" where
  "heard_channels cfg avail = set (concat (map heard_channel (runner_start cfg avail)))"

lemma served_heard: "heard_channels cfg avail = fst ` set (served_channels cfg)"
  by (auto simp: heard_channels_def runner_start_def served_channels_def split: option.split)

text \<open>
  C1. The channels the runner listens to, those the message windows keep a ring for, and those the radio
  cache refuses to rewrite are the same.
\<close>

theorem parts_agree_on_channels:
  "heard_channels cfg avail = fst ` set (channels (zb_windows (new_zork_bot cfg now))) \<and>
   heard_channels cfg avail = {i. channel_role i (zb_radio (new_zork_bot cfg now)) \<noteq> None}"
proof -
  have rings: "fst ` set (fold (\<lambda>i. AList.update i []) chans al) = fst ` set al \<union> set chans"
    for chans and al :: "(int \<times> window_message list) list"
    by (induction chans arbitrary: al) (auto simp: dom_update)
  have "fst ` set (channels (zb_windows (new_zork_bot cfg now))) = fst ` set (served_channels cfg)"
    by (simp add: new_zork_bot_def bot_windows_def new_message_windows_def rings)
  moreover have "{i. channel_role i (zb_radio (new_zork_bot cfg now)) \<noteq> None} = fst ` set (served_channels cfg)"
    unfolding dom_map_of_conv_image_fst [symmetric]
    by (auto simp: new_zork_bot_def bot_radio_def new_radio_state_def channel_role_def)
  ultimately show ?thesis by (simp only: served_heard)
qed

section \<open>What the console's users can do to the radio\<close>

text \<open>
  While a request waits for the radio, other requests run, themselves with waits in which others run:
  \<open>console_task\<close> is what can happen to the radio's state meanwhile.
\<close>

inductive console_task :: "(radio_state \<Rightarrow> radio_state) \<Rightarrow> bool" where
  task_none: "console_task (\<lambda>st. st)"
| task_then: "console_task f \<Longrightarrow> console_task g \<Longrightarrow> console_task (g \<circ> f)"
| task_put: "console_task (before t1) \<Longrightarrow> console_task (before t2) \<Longrightarrow> console_task (before t3) \<Longrightarrow>
    console_task (\<lambda>st. snd (put_channel mv ws has t1 t2 t3 now idx bd st))"
| task_delete: "console_task (before t1) \<Longrightarrow> console_task (before t2) \<Longrightarrow> console_task (before t3) \<Longrightarrow>
    console_task (\<lambda>st. snd (delete_channel mv has t1 t2 t3 now key idx st))"
| task_channels: "console_task (before t1) \<Longrightarrow> console_task (before t2) \<Longrightarrow> console_task (\<lambda>st. snd (get_channels t1 t2 ws st))"
| task_radio: "console_task (before t1) \<Longrightarrow> console_task (before t2) \<Longrightarrow> console_task (\<lambda>st. snd (get_radio mv t1 t2 st))"
| task_messages: "console_task (before t1) \<Longrightarrow> console_task (\<lambda>st. snd (get_channel_messages t1 ws idx st))"

lemma console_task_orderly: "console_task f \<Longrightarrow> orderly_write f"
proof (induction rule: console_task.induct)
  case (task_then f g)
  then show ?case by (intro orderly_comp)
qed (simp_all add: orderly_write_def [of "\<lambda>st. st"] put_orderly delete_orderly reads_of_console)

fun route_turns :: "route \<Rightarrow> turn list" where
  "route_turns (Get_radio t1 t2) = [t1, t2]"
| "route_turns (Get_channels t1 t2) = [t1, t2]"
| "route_turns (Get_channel_messages t idx) = [t]"
| "route_turns (Put_channel t1 t2 t3 now idx bd) = [t1, t2, t3]"
| "route_turns (Delete_channel t1 t2 t3 now key idx) = [t1, t2, t3]"
| "route_turns r = []"

fun event_turns :: "console_event \<Rightarrow> turn list" where
  "event_turns (Api_call b wall authorization r) = route_turns r"
| "event_turns ev = []"

lemma route_orderly:
  assumes "list_all (\<lambda>t. orderly_write (before t)) (route_turns r)" and "disciplined (con_radio con)"
  shows "disciplined (con_radio (snd (serve_route b r con))) \<and>
    rs_served (con_radio (snd (serve_route b r con))) = rs_served (con_radio con) \<and>
    write_enabled (con_radio (snd (serve_route b r con))) = write_enabled (con_radio con)"
  using assms put_orderly delete_orderly reads_of_console
  by (cases r) (simp_all add: case_prod_beta Let_def orderly_write_def)

lemma step_orderly:
  assumes "list_all (\<lambda>t. orderly_write (before t)) (event_turns ev)" and "disciplined (con_radio con)"
  shows "disciplined (con_radio (console_step c ev con)) \<and>
    rs_served (con_radio (console_step c ev con)) = rs_served (con_radio con) \<and>
    write_enabled (con_radio (console_step c ev con)) = write_enabled (con_radio con)"
proof (cases ev)
  case (Api_call b wall authorization r)
  have "disciplined (con_radio (con\<lparr>con_auth := a\<rparr>))" for a using assms(2) by simp
  from route_orderly [OF _ this, of r b] show ?thesis
    using Api_call assms by (simp add: serve_api_def split: prod.split sum.split)
qed (use assms in \<open>simp_all add: console_prune_def\<close>)

lemma run_orderly:
  assumes "list_all (\<lambda>ev. list_all (\<lambda>t. orderly_write (before t)) (event_turns ev)) evs" and "disciplined (con_radio con)"
  shows "disciplined (con_radio (fold (console_step c) evs con)) \<and>
    rs_served (con_radio (fold (console_step c) evs con)) = rs_served (con_radio con) \<and>
    write_enabled (con_radio (fold (console_step c) evs con)) = write_enabled (con_radio con)"
  using assms
proof (induction evs arbitrary: con)
  case (Cons ev evs)
  have "disciplined (con_radio (console_step c ev con)) \<and>
    rs_served (con_radio (console_step c ev con)) = rs_served (con_radio con) \<and>
    write_enabled (con_radio (console_step c ev con)) = write_enabled (con_radio con)"
    using Cons.prems by (intro step_orderly) simp_all
  then show ?case using Cons.IH [of "console_step c ev con"] Cons.prems by simp
qed simp

text \<open>
  C18. The operator cannot take the bot's channels away from it: whatever requests, with any tokens, any others
  running while they wait for the radio, the console is sent from its start on, no write to the radio ever
  concerns a channel the runner listens to; and without \<open>radio_write_enabled\<close> there is no write at all.
\<close>

theorem console_spares_heard_channels:
  assumes "con = fold (console_step c) evs (console_start c w salt (new_bot_console (new_zork_bot cfg now) run user rows db))"
    and "\<And>ev t. ev \<in> set evs \<Longrightarrow> t \<in> set (event_turns ev) \<Longrightarrow> console_task (before t)"
  shows "list_all (\<lambda>op. case op of
      Write t idx name secret \<Rightarrow> idx \<notin> heard_channels cfg avail \<and> radio_write_enabled (admin_ui cfg)
    | _ \<Rightarrow> True) (link (con_radio con))"
proof -
  let ?con0 = "console_start c w salt (new_bot_console (new_zork_bot cfg now) run user rows db)"
  have "list_all (\<lambda>ev. list_all (\<lambda>t. orderly_write (before t)) (event_turns ev)) evs"
    using assms(2) console_task_orderly by (simp add: list_all_iff)
  moreover have radio0: "con_radio ?con0 = bot_radio cfg"
    by (simp add: console_start_def new_bot_console_def new_console_def new_zork_bot_def)
  moreover have "disciplined (bot_radio cfg)" by (simp add: bot_radio_def new_radio_state_def disciplined_def)
  ultimately have run: "disciplined (con_radio con)" "rs_served (con_radio con) = served_channels cfg"
      "write_enabled (con_radio con) = radio_write_enabled (admin_ui cfg)"
    using run_orderly [of evs ?con0 c] unfolding assms(1) by (simp_all add: bot_radio_def new_radio_state_def)
  have "case op of Write t idx name secret \<Rightarrow> idx \<notin> heard_channels cfg avail \<and> radio_write_enabled (admin_ui cfg) | _ \<Rightarrow> True"
    if "orderly_op (con_radio con) op" for op
    using that run(2,3) by (cases op) (auto simp: served_heard channel_role_def map_of_eq_None_iff)
  then show ?thesis using run(1) unfolding disciplined_def list_all_iff by blast
qed

definition lone_turn :: turn where
  "lone_turn = \<lparr>before = (\<lambda>st. st), answers = demo_env\<rparr>"

theorem console_spares_heard_channels_witness:
  "list_all (\<lambda>op. case op of
      Write t idx name secret \<Rightarrow> idx \<notin> heard_channels default_config (\<lambda>n. n < 2) \<and> radio_write_enabled (admin_ui default_config)
    | _ \<Rightarrow> True)
    (link (con_radio (fold (console_step toy_crypto)
      [Auth_call first_login, Api_call demo_side 2 (Some ''Bearer a1'') (Delete_channel lone_turn lone_turn lone_turn 0 ''key'' 1)]
      (console_start toy_crypto 0 ''salt'' (new_bot_console (new_zork_bot default_config 0) ''run'' (Some settled_user) [] empty_db)))))"
  by (rule console_spares_heard_channels [OF refl]) (auto simp: lone_turn_def intro: task_none)

end
