(* ===== verification/Spec2Isabelle.thy ===== *)
theory Spec2Isabelle
  imports Packetize Sanitize Addressing Rate_Limits Session_State Message_Window Config Bot_IO
    Game_Client Commands Handler_Laws Bot_Handle Bot_Outcomes Bot_Interleaving Bot_Queues Fanout Bot_Tasks Runner Lifecycle
    Radio_State Radio_Routes Admin_Auth Admin_Access Session_Bus Store_File Event_Store Shutdown Log_Bus Admin_Stats
    Whole_Bot Live_System Reporting Cursor Sse Admin_Pages Admin_Server Console_Life Simulator
    Client_Pool Assembly
begin

text \<open>
  A verification development for zorkbot, the MeshCore bot that lets players on a LoRa mesh play Zork I in
  private sessions over direct messages, with a public lobby channel, watchers, and a web console
  for its operator. The development covers the Python package \<^verbatim>\<open>src/zorkbot/src/zorkbot\<close>; file names
  below are relative to it.

  \<^bold>\<open>The program.\<close> The runner (\<^verbatim>\<open>runner.py\<close>) receives messages from the radio, gives them to the bot's
  dispatchers and paces what is sent. The bot (\<^verbatim>\<open>bot.py\<close>) parses commands (\<^verbatim>\<open>addressing.py\<close>), queues them
  per player and runs one handler of \<^verbatim>\<open>commands/\<close> at a time for each; the handlers use the session registry
  (\<^verbatim>\<open>session_state.py\<close>), the game service through its client (\<^verbatim>\<open>game_client.py\<close>), the sanitizer, and the
  packetizer, and hand texts for watchers to a fan-out task per session. Registry, bot and runner
  report to an event sink (\<^verbatim>\<open>admin/events.py\<close>), which feeds an SQLite store and the live streams of
  the admin console (\<^verbatim>\<open>admin/\<close>); the console also tails the log and reads and writes the radio's
  channels (\<^verbatim>\<open>radio_state.py\<close>).

  \<^bold>\<open>Theories and sources.\<close>
  \<^item> \<open>Zork_Prelude\<close>: Python strings, numbers as text, dictionaries, rings; a locale of bounded logs.
  \<^item> \<open>Packetize\<close> (\<^verbatim>\<open>packetize.py\<close>): escape stripping, reflowing, packing with sequence markers. Packets fit, keep
    the words, the marker budget loop ends at a minimum, and the one error is characterised.
  \<^item> \<open>Sanitize\<close>, \<open>Addressing\<close> (\<^verbatim>\<open>sanitize.py\<close>, \<^verbatim>\<open>addressing.py\<close>, \<^verbatim>\<open>channels.py\<close>): what is accepted as game text,
    mentions and commands.
  \<^item> \<open>Rate_Limits\<close> (\<^verbatim>\<open>cooldown.py\<close>, \<^verbatim>\<open>advertiser.py\<close>): spacing of roll calls and adverts, where overlapping
    adverts break it, and the advertiser's timer.
  \<^item> \<open>Session_State\<close>: the registry's four tables, their invariant, and a refinement to a lobby with one status
    per player.
  \<^item> \<open>Message_Window\<close>: the rings of recent messages; exact content, least-recently-used eviction.
  \<^item> \<open>Config\<close> (\<^verbatim>\<open>config.py\<close>): the document and the environment applied to the defaults.
  \<^item> \<open>Bot_IO\<close>, \<open>Game_Client\<close>, \<open>Commands\<close>, \<open>Handler_Laws\<close>, \<open>Bot_Handle\<close>, \<open>Bot_Outcomes\<close> (\<^verbatim>\<open>context.py\<close>,
    \<^verbatim>\<open>game_client.py\<close>, \<^verbatim>\<open>commands/\<close>, \<^verbatim>\<open>watcher_notify.py\<close>, \<^verbatim>\<open>bot.py\<close>): handlers as coroutines over an explicit world,
    the locale of what every handler keeps, the consistency of the tables under interference, and
    the outcome of each command.
  \<^item> \<open>Bot_Interleaving\<close>: commands, reconciliation and watcher jobs at the same time; what each assumes of the
    others is what each is proved to do, so the tables are consistent in every interleaving.
  \<^item> \<open>Bot_Queues\<close>, \<open>Fanout\<close> (\<^verbatim>\<open>bot.py\<close>): dispatch and per-player queues, the fan-out tasks of the watchers, as
    step functions; order, bounds and progress under every interleaving.
  \<^item> \<open>Whole_Bot\<close> (\<^verbatim>\<open>bot.py\<close>): queues and handlers on one time line; that two commands of one sender never run at once,
    which the theory of interleavings asks for, is derived from the queues.
  \<^item> \<open>Bot_Tasks\<close> (\<^verbatim>\<open>bot.py\<close>): queues, fan-outs and background tasks together; \<open>drain\<close> as a coroutine beside
    them, what it guarantees, that it returns, and the message that makes it raise; \<open>stop\<close>.
  \<^item> \<open>Runner\<close> (\<^verbatim>\<open>runner.py\<close>): settings, startup flush, incoming messages, and the send gate with its
    quiet-air rules.
  \<^item> \<open>Lifecycle\<close> (\<^verbatim>\<open>cli.py\<close>, \<open>start\<close>, \<open>stop\<close> and \<open>run_forever\<close> of \<^verbatim>\<open>runner.py\<close>): the options, and the run of the
    process as a sequence of steps each of which may fail; what is acquired is given back, in order.
  \<^item> \<open>Radio_State\<close>, \<open>Radio_Routes\<close> (\<^verbatim>\<open>radio_state.py\<close>, \<^verbatim>\<open>admin/routes/radio.py\<close>): contacts and distances, the cached
    sweep, the guarded channel write with its read-back, and the routes over them.
  \<^item> \<open>Admin_Auth\<close>, \<open>Admin_Access\<close> (\<^verbatim>\<open>admin/auth.py\<close>, \<^verbatim>\<open>admin/deps.py\<close>, \<^verbatim>\<open>admin/routes/auth.py\<close>): throttle, tokens, password
    change, the bearer check and the authentication routes.
  \<^item> \<open>Session_Bus\<close>, \<open>Log_Bus\<close> (\<^verbatim>\<open>admin/bus.py\<close>, \<^verbatim>\<open>admin/logbus.py\<close>, \<^verbatim>\<open>admin/routes/logs.py\<close>): the two live streams.
  \<^item> \<open>Sse\<close> (the generators of \<^verbatim>\<open>admin/routes/logs.py\<close> and \<^verbatim>\<open>sessions.py\<close>, \<open>readSse\<close> of \<^verbatim>\<open>admin/static/app.js\<close>): the text of the
    streams; the page is given what was sent, however the connection cuts it.
  \<^item> \<open>Store_File\<close> (\<^verbatim>\<open>admin/store.py\<close>): the schema, its creation and migration on every open, the connection.
  \<^item> \<open>Event_Store\<close> (\<^verbatim>\<open>admin/events.py\<close>, \<^verbatim>\<open>admin/store.py\<close>): the tables, every statement the sink writes, the
    queue and the batching writer; a locale of views of the store that follow every statement, and through
    it the database against the registry.
  \<^item> \<open>Live_System\<close>, \<open>Shutdown\<close>, \<open>Reporting\<close>: across components: the registry and the store against the games while
    messages, queues and commands run on one time line, what a shutdown leaves in the store, and the charts of the console against what the bot
    reported.
  \<^item> \<open>Admin_Stats\<close>, \<open>Cursor\<close>, \<open>Admin_Pages\<close> (\<^verbatim>\<open>admin/routes/stats.py\<close>, \<^verbatim>\<open>sessions.py\<close>, \<^verbatim>\<open>players.py\<close>, \<^verbatim>\<open>meta.py\<close>): charts against
    a reference series, the history's cursors, and a locale of paged routes that both page lists interpret.
  \<^item> \<open>Admin_Server\<close> (\<^verbatim>\<open>admin/__init__.py\<close>): the console put together, every route behind the bearer check.
  \<^item> \<open>Console_Life\<close> (\<^verbatim>\<open>admin/__init__.py\<close>): its start, retention and stop, with the steps that may fail.
  \<^item> \<open>Assembly\<close> (the constructor of \<^verbatim>\<open>bot.py\<close>, \<^verbatim>\<open>admin/context.py\<close>): the bot built from its configuration and given to
    the console; the channels it listens to are those the console cannot rewrite, in any interleaving of requests.
  \<^item> \<open>Client_Pool\<close> (\<^verbatim>\<open>game_client.py\<close>): the HTTP clients the game client opens and closes, with overlapping requests.
  \<^item> \<open>Simulator\<close> (\<^verbatim>\<open>simulator.py\<close>, the stub radio of \<^verbatim>\<open>cli.py\<close>): the input loop, controls, choice of dispatcher, identities.

  \<^bold>\<open>How code is modelled.\<close> A class is a record, an operation a function on it, an exception a value
  (\<open>Inl\<close>, \<open>None\<close> or an error constructor). A \<open>dict\<close> is an association list in insertion order. Text is Latin-1;
  a character beyond it in one of the program's own texts is \<open>CHR 0x1A\<close>. Integers are unbounded, as in
  Python; clocks are reals and every reading is a parameter, so no theorem depends on the
  wall clock except where it says so. Loops are recursive functions with termination proofs; nothing
  uses fuel, except that a walk over pages is given a number of requests, which the theorem shows to be
  enough.

  asyncio runs one task at a time and switches only at an await. A handler of the bot is a function of
  an environment, which answers each await and says what other tasks did to the registry meanwhile
  (\<open>interfere\<close>), and of a world that records the effects; a property assumes of the interference only
  what is proved of every command, and the theory of interleavings draws the conclusion for all together. Where tasks share other state (queues, fan-out, send gate,
  buses, sink) the system is a fold of steps over an arbitrary sequence, so a theorem about
  the fold is about every interleaving. The routes that wait for the radio take \<open>turn\<close>s: what ran before
  the lock was obtained, and what the device answered. Code of the program that is split by an
  await where it matters (token requests, log records) is split in the model as well, and the
  overlaps that break a rule are proved as such.

  Parameters stand for code outside the repository: the HTTP exchange with the game service, the radio library
  and its device, \<open>scrypt\<close> and \<open>sha256\<close>, random draws, and the order SQLite gives to rows with equal
  sort values. What is assumed of them is a hypothesis of the theorem that needs it (a token
  drawn later has another hash; the sort is a permutation).

  \<^bold>\<open>What is not modelled.\<close> How \<open>argparse\<close> splits the command line; the indices of the database file; the web
  server and the static files; how a float is written in JSON (a parameter); the no-op event sink, which has no
  state; log lines; the rounding of floats. The game service (Go), the browser client and the tests are
  other programs, but for the page's reader of live streams.

  \<^bold>\<open>Where the parts meet.\<close> The bot's queues, commands, watcher jobs and reconciliations are on one time line, with the
  registry, the sink and the store. The send gate of the runner and the console's requests have their own steps:
  they meet the bot in \<open>Assembly\<close>, in \<open>Lifecycle\<close> and in the theorem of this theory, not on that time line.
\<close>

section \<open>Across components\<close>

lemma admin_end_step:
  fixes w :: world and env :: env and ctx :: bot_context and rest :: string and t0 :: real
  defines "st1 \<equiv> emit (command_event ctx ''end'' True None) (reg w)"
  assumes "is_admin ctx" and "parse_int (strip rest) = Some n" and "get_session_by_num n (reg w) = Some r"
  shows "(st1, snd (remove_session (player_id r) ''admin_end'' st1)) \<in> set (own_steps (snd (bot_handle t0 ctx ''end'' rest env w)))"
proof -
  let ?w1 = "did (\<lambda>st. ((), emit (command_event ctx ''end'' True None) st)) w"
  let ?w2 = "did (remove_session (player_id r) ''admin_end'') ?w1"
  have named: "truthy (ctx_pubkey_prefix ctx)" using assms(2) by (auto simp: is_admin_def truthy_def split: option.splits)
  have nonblank: "strip rest \<noteq> []"
  proof
    assume blank: "strip rest = []"
    have "parse_int [] = None" by (simp add: parse_int_def strip_def strip_by_def)
    with blank assms(3) show False by simp
  qed
  have found: "get_session_by_num n (reg ?w1) = Some r"
    using assms(4) by (simp add: get_session_by_num_def cong: option.case_cong)
  let ?rest = "bind_io (catch_io (end_session (player_id r)) (\<lambda>e. if is_game_error e then ret () else throw e)) (\<lambda>_.
      bind_io (reply (''Zork I Session #'' @ str_int n @ '' ('' @ player_name r @ '') has been ended.'')) (\<lambda>_.
      queue_fanout n (Notify_ended r)))"
  have run: "bot_handle t0 ctx ''end'' rest env w = ?rest env ?w2"
    using assms(2,3) named nonblank found
    by (simp add: bot_handle_def handle_end_def handle_admin_end_def bind_io_def [of "upd_reg f" for f] upd_reg_def
        bind_io_def [of "read_reg f" for f] read_reg_def)
  have "(st1, snd (remove_session (player_id r) ''admin_end'' st1)) \<in> set (own_steps ?w2)"
    by (simp add: did_def st1_def)
  moreover have "set (own_steps w') \<subseteq> set (own_steps (snd (?rest env w')))" for w'
    by (simp add: io_defs end_session_def client_request_def response_json_def reply_def send_reply_def
        split: http_outcome.split option.split sum.split)
  ultimately show ?thesis unfolding run by blast
qed

text \<open>
  The administrator's \<open>!end <N>\<close> can be given by anyone on the public channel: a channel message
  without key material whose text begins with the name of a contact that is an administrator is
  handled with that administrator's rights, and the command ends the session it names. (Channel
  messages carry no sender key, and \<open>!end\<close> is accepted from the channel.)
\<close>

theorem admin_end_from_channel:
  assumes "cp_text pl = Some (name @ '':'' @ t)" and "CHR '':'' \<notin> set name" and "strip name \<noteq> []"
    and "\<not> truthy (cp_pubkey_prefix pl)"
    and "by_name tbl (strip name) = Some c" and "map_of c ''public_key'' = Some key" and "key \<noteq> []"
    and "lower (take 12 key) \<in> admin_pubkeys cfg"
    and "ctx = make_ctx cfg (build_channel_message tbl pl) args"
    and "parse_int (strip rest) = Some n" and "get_session_by_num n (reg w) = Some r"
  shows "\<not> ctx_is_dm ctx \<and>
    (emit (command_event ctx ''end'' True None) (reg w),
     snd (remove_session (player_id r) ''admin_end'' (emit (command_event ctx ''end'' True None) (reg w))))
      \<in> set (own_steps (snd (bot_handle t0 ctx ''end'' rest env w)))"
proof -
  note built = channel_message_attribution [OF assms(1-7)]
  have "is_admin ctx"
    using built assms(7,8,9) by (cases key) (simp_all add: is_admin_def make_ctx_def)
  from admin_end_step [OF this assms(10,11)] show ?thesis
    using built assms(9) by (simp add: make_ctx_def)
qed

theorem admin_end_from_channel_witness:
  fixes ctx tbl cfg st r
  defines "tbl \<equiv> \<lparr>by_name = \<lambda>n. if n = ''Ann'' then Some [(''public_key'', ''aabbccddeeff0011'')] else None, by_prefix = \<lambda>_. None\<rparr>"
    and "cfg \<equiv> default_config\<lparr>admin := \<lparr>pubkeys = [''aabbccddeeff'']\<rparr>\<rparr>"
    and "ctx \<equiv> make_ctx cfg (build_channel_message tbl
      \<lparr>cp_channel_idx = Some 1, cp_text = Some ''Ann: !end 1'', cp_pubkey_prefix = None\<rparr>) ''end 1''"
    and "st \<equiv> snd (add_session 0 0 ''cd34'' ''Bob'' (new_session_state 2))"
  shows "(emit (command_event ctx ''end'' True None) st,
     snd (remove_session ''cd34'' ''admin_end'' (emit (command_event ctx ''end'' True None) st)))
      \<in> set (own_steps (snd (bot_handle 0 ctx ''end'' ''1'' (calm_env (ok_response [])) (fresh_world st))))"
proof -
  have "strip ''Ann'' = ''Ann''" "parse_int (strip ''1'') = Some 1" "lower ''aabbccddeeff'' = ''aabbccddeeff''"
    by code_simp+
  moreover have "get_session_by_num 1 (reg (fresh_world st)) =
      Some \<lparr>num = 1, player_id = ''cd34'', player_name = ''Bob'', started_at = 0, started_wall_at = 0, watchers = []\<rparr>"
    by (simp add: st_def fresh_world_def get_session_by_num_def add_session_def new_session_state_def Let_def)
  ultimately show ?thesis
    using admin_end_from_channel [of "\<lparr>cp_channel_idx = Some 1, cp_text = Some ''Ann: !end 1'', cp_pubkey_prefix = None\<rparr>"
        "''Ann''" "'' !end 1''" tbl "[(''public_key'', ''aabbccddeeff0011'')]" "''aabbccddeeff0011''" cfg ctx "''end 1''"
        "''1''" 1 "fresh_world st" _ 0 "calm_env (ok_response [])"]
    by (simp add: truthy_def ctx_def tbl_def cfg_def admin_pubkeys_def fresh_world_def)
qed

end
